(* ===== verification/Flight_Prelude.thy ===== *)
theory Flight_Prelude
  imports Main "HOL-Library.AList" "HOL-Library.Char_ord" "HOL-Library.List_Lexorder"
    "HOL-Library.Product_Lexorder"
begin

text \<open>
  Shared vocabulary of the development: the exceptions Python code of the repository can raise,
  loops with \<open>continue\<close> and \<open>raise\<close>, Python dictionaries in insertion order, decimal text,
  string methods, and file paths with Python's ordering. The collections \<open>py_dict\<close> and \<open>py_text\<close>
  gather the facts that component proofs rewrite with.
\<close>

named_theorems py_dict \<open>lookup and key facts of insertion-ordered dictionaries\<close>
named_theorems py_text \<open>facts about decimal text and string methods\<close>

subsection \<open>Exceptions\<close>

text \<open>
  One constructor per exception class that the modelled code raises or catches. The text carried
  by \<open>OSError\<close>, \<open>ValueError\<close> and \<open>RuntimeError\<close> is what \<open>str(exc)\<close> prints.
\<close>

datatype py_error =
    OSError string
  | ValueError string
  | RuntimeError string
  | StructError
  | KeyError
  | IndexError
  | RecursionError
  | OverflowError
  | AttributeError
  | TypeError
  | AssertionError
  | UnboundLocalError

fun py_str_error :: "py_error \<Rightarrow> string" where
  "py_str_error (OSError m) = m"
| "py_str_error (ValueError m) = m"
| "py_str_error (RuntimeError m) = m"
| "py_str_error _ = []"

text \<open>
  A \<open>for\<close> loop that appends to a result list: the body yields nothing (\<open>continue\<close>), one
  element (\<open>append\<close>), or raises; the first exception ends the loop.
\<close>

fun collect :: "('a \<Rightarrow> 'e + 'b option) \<Rightarrow> 'a list \<Rightarrow> 'e + 'b list" where
  "collect f [] = Inr []"
| "collect f (x # xs) =
     (case f x of
        Inl e \<Rightarrow> Inl e
      | Inr None \<Rightarrow> collect f xs
      | Inr (Some y) \<Rightarrow>
          (case collect f xs of Inl e \<Rightarrow> Inl e | Inr ys \<Rightarrow> Inr (y # ys)))"

lemma collect_total:
  assumes "\<And>x. x \<in> set xs \<Longrightarrow> f x = Inr (g x)"
  shows "collect f xs = Inr (List.map_filter g xs)"
  using assms by (induction xs) (auto split: option.splits simp: List.map_filter_simps)

lemma collect_map:
  "(\<And>x. x \<in> set xs \<Longrightarrow> f x = Inr (Some (h x))) \<Longrightarrow> collect f xs = Inr (map h xs)"
  by (induction xs) auto

lemma collect_no_error:
  assumes "\<And>x. x \<in> set xs \<Longrightarrow> \<exists>r. f x = Inr r"
  shows "\<exists>ys. collect f xs = Inr ys"
  using assms
proof (induction xs)
  case (Cons x xs)
  from Cons.prems [of x] obtain r where r: "f x = Inr r" by auto
  from Cons.IH Cons.prems obtain ys where "collect f xs = Inr ys" by auto
  with r show ?case by (cases r) auto
qed simp

lemma collect_Inr_iff: "(\<exists>ys. collect f xs = Inr ys) \<longleftrightarrow> (\<forall>x \<in> set xs. \<exists>r. f x = Inr r)"
proof (induction xs)
  case (Cons x xs)
  show ?case
  proof (cases "f x")
    case (Inr r)
    with Cons show ?thesis by (cases r) (auto split: sum.split)
  qed simp
qed simp

lemma collect_Inr_set:
  "collect f xs = Inr ys \<Longrightarrow> y \<in> set ys \<longleftrightarrow> (\<exists>x \<in> set xs. f x = Inr (Some y))"
  by (induction xs arbitrary: ys) (auto split: sum.splits option.splits)

text \<open>
  A sequence of statements on a state, stopped by the first exception; the state reached is kept.
\<close>

fun run_ops :: "('s \<Rightarrow> 'e option \<times> 's) list \<Rightarrow> 's \<Rightarrow> 'e option \<times> 's" where
  "run_ops [] s = (None, s)"
| "run_ops (f # fs) s = (case f s of (Some e, s') \<Rightarrow> (Some e, s') | (None, s') \<Rightarrow> run_ops fs s')"

lemma run_ops_invariant:
  assumes "P s" and "\<forall>f \<in> set fs. \<forall>s. P s \<longrightarrow> P (snd (f s))"
  shows "P (snd (run_ops fs s))"
  using assms
proof (induction fs arbitrary: s)
  case (Cons f fs)
  obtain r s' where f: "f s = (r, s')" by force
  with Cons.prems have "P s'" by (metis list.set_intros(1) snd_conv)
  with Cons f show ?case by (cases r) simp_all
qed simp

lemma run_ops_append:
  "run_ops (fs @ gs) s = (case run_ops fs s of (Some e, s') \<Rightarrow> (Some e, s') | (None, s') \<Rightarrow> run_ops gs s')"
  by (induction fs arbitrary: s) (auto split: option.splits prod.splits)

lemma run_ops_pure: "run_ops (map (\<lambda>x s. (None, g x s)) xs) s = (None, fold g xs s)"
  by (induction xs arbitrary: s) simp_all

text \<open>
  Actions that are taken at most once each: a step may demand an action, takes it unless it was
  taken before, and an exception takes none.
\<close>

locale once_log =
  fixes step :: "'e \<Rightarrow> 's \<Rightarrow> 'x option \<times> 's"
    and taken :: "'s \<Rightarrow> 't list"
    and demand :: "'e \<Rightarrow> 't option"
    and ok :: "'s \<Rightarrow> bool"
  assumes step_done: "ok s \<Longrightarrow> step e s = (None, s') \<Longrightarrow> ok s' \<and>
      taken s' = (case demand e of None \<Rightarrow> taken s
        | Some t \<Rightarrow> if t \<in> set (taken s) then taken s else taken s @ [t])"
    and step_failed: "step e s = (Some x, s') \<Longrightarrow> taken s' = taken s"
begin

lemma run_done:
  assumes "ok s" and "run_ops (map step es) s = (None, s')"
  shows "ok s' \<and> set (taken s') = set (taken s) \<union> {t. \<exists>e \<in> set es. demand e = Some t}"
  using assms
proof (induction es arbitrary: s)
  case (Cons e es)
  from Cons.prems(2) obtain s1 where s1: "step e s = (None, s1)" "run_ops (map step es) s1 = (None, s')"
    by (auto split: prod.splits option.splits)
  note e = step_done [OF Cons.prems(1) s1(1)]
  with Cons.IH [OF _ s1(2)] have "ok s' \<and> set (taken s') = set (taken s1) \<union> {t. \<exists>e \<in> set es. demand e = Some t}"
    by simp
  with e show ?case by (cases "demand e") auto
qed simp

lemma run_distinct:
  assumes "ok s" and "distinct (taken s)"
  shows "distinct (taken (snd (run_ops (map step es) s)))"
  using assms
proof (induction es arbitrary: s)
  case (Cons e es)
  obtain r s1 where s1: "step e s = (r, s1)" by force
  show ?case
  proof (cases r)
    case None
    with s1 step_done [OF Cons.prems(1)] have "ok s1 \<and> taken s1 = (case demand e of None \<Rightarrow> taken s
        | Some t \<Rightarrow> if t \<in> set (taken s) then taken s else taken s @ [t])" by simp
    with Cons.prems(2) have "ok s1" "distinct (taken s1)" by (auto split: option.split)
    with Cons.IH s1 None show ?thesis by simp
  next
    case (Some x)
    with s1 step_failed [of e s x s1] Cons.prems(2) show ?thesis by simp
  qed
qed simp

end

subsection \<open>Dictionaries\<close>

text \<open>
  A Python dictionary keeps the order of first insertion; storing under a present key keeps its
  place. This is \<open>AList.update\<close>; \<open>AList.delete\<close> is \<open>pop\<close> with a default.
\<close>

type_synonym ('k, 'v) dict = "('k \<times> 'v) list"

abbreviation dict_get :: "('k, 'v) dict \<Rightarrow> 'k \<Rightarrow> 'v option" where
  "dict_get \<equiv> map_of"

abbreviation dict_set :: "'k \<Rightarrow> 'v \<Rightarrow> ('k, 'v) dict \<Rightarrow> ('k, 'v) dict" where
  "dict_set \<equiv> AList.update"

abbreviation dict_pop :: "'k \<Rightarrow> ('k, 'v) dict \<Rightarrow> ('k, 'v) dict" where
  "dict_pop \<equiv> AList.delete"

abbreviation dict_keys :: "('k, 'v) dict \<Rightarrow> 'k list" where
  "dict_keys d \<equiv> map fst d"

abbreviation dict_values :: "('k, 'v) dict \<Rightarrow> 'v list" where
  "dict_values d \<equiv> map snd d"

text \<open>\<open>collections.defaultdict(list)\<close>: reading a missing key stores and returns \<open>[]\<close>.\<close>

definition dict_list :: "('k, 'v list) dict \<Rightarrow> 'k \<Rightarrow> 'v list" where
  "dict_list d k = (case dict_get d k of None \<Rightarrow> [] | Some vs \<Rightarrow> vs)"

definition dict_append :: "'k \<Rightarrow> 'v \<Rightarrow> ('k, 'v list) dict \<Rightarrow> ('k, 'v list) dict" where
  "dict_append k v d = dict_set k (dict_list d k @ [v]) d"

lemma dict_get_set [py_dict]: "dict_get (dict_set k v d) k' = (if k' = k then Some v else dict_get d k')"
  by (simp add: update_conv')

lemma dict_get_pop [py_dict]: "dict_get (dict_pop k d) k' = (if k' = k then None else dict_get d k')"
  by (simp add: delete_conv')

lemma dict_list_append [py_dict]:
  "dict_list (dict_append k v d) k' = (if k' = k then dict_list d k @ [v] else dict_list d k')"
  by (simp add: dict_list_def dict_append_def update_conv')

lemma distinct_dict_set [py_dict, intro]:
  "distinct (dict_keys d) \<Longrightarrow> distinct (dict_keys (dict_set k v d))"
  by (rule distinct_update)

lemma distinct_dict_pop [py_dict, intro]:
  "distinct (dict_keys d) \<Longrightarrow> distinct (dict_keys (dict_pop k d))"
  by (rule distinct_delete)

lemma distinct_dict_append [py_dict, intro]:
  "distinct (dict_keys d) \<Longrightarrow> distinct (dict_keys (dict_append k v d))"
  by (simp add: dict_append_def distinct_update)

lemma dict_keys_append [py_dict]:
  "fst ` set (dict_append k v d) = insert k (fst ` set d)"
  using dom_update [of k _ d] by (simp add: dict_append_def)

lemma dict_values_get:
  "distinct (dict_keys d) \<Longrightarrow> v \<in> set (dict_values d) \<longleftrightarrow> (\<exists>k. dict_get d k = Some v)"
  by (force simp: map_of_eq_Some_iff)

text \<open>
  The contract behind every loop of the analyzers that fills a dictionary: one iteration decides,
  key by key, whether it leaves the key alone, stores a value or removes the entry. After the
  loop each key holds the effect of the last iteration that touched it.
\<close>

locale last_write =
  fixes step :: "'e \<Rightarrow> 's \<Rightarrow> 's"
    and get :: "'s \<Rightarrow> 'k \<Rightarrow> 'v option"
    and eff :: "'e \<Rightarrow> 'k \<Rightarrow> 'v option option"
  assumes get_step: "get (step e s) k = (case eff e k of None \<Rightarrow> get s k | Some r \<Rightarrow> r)"
begin

lemma get_fold_untouched:
  "(\<forall>e \<in> set es. eff e k = None) \<Longrightarrow> get (fold step es s) k = get s k"
  by (induction es arbitrary: s) (auto simp: get_step)

lemma get_fold_last:
  assumes "eff e k = Some r" and "\<forall>x \<in> set post. eff x k = None"
  shows "get (fold step (pre @ e # post) s) k = r"
  using assms by (simp add: get_fold_untouched get_step)

lemma get_fold_cases:
  "(\<forall>e \<in> set es. eff e k = None) \<and> get (fold step es s) k = get s k \<or>
   (\<exists>pre e post r. es = pre @ e # post \<and> eff e k = Some r \<and>
      (\<forall>x \<in> set post. eff x k = None) \<and> get (fold step es s) k = r)"
proof (cases "\<exists>e \<in> set es. eff e k \<noteq> None")
  case True
  from split_list_last_prop [OF this] obtain pre e post
    where es: "es = pre @ e # post" and e: "eff e k \<noteq> None"
      and post: "\<forall>x \<in> set post. \<not> eff x k \<noteq> None"
    by blast
  from e obtain r where r: "eff e k = Some r" by auto
  from post have "\<forall>x \<in> set post. eff x k = None" by simp
  with r es get_fold_last [OF r this, of pre s] show ?thesis by blast
next
  case False
  then show ?thesis by (auto simp: get_fold_untouched)
qed

lemma get_fold_Some_iff:
  assumes "get s k = None"
  shows "get (fold step es s) k = Some v \<longleftrightarrow>
    (\<exists>pre e post. es = pre @ e # post \<and> eff e k = Some (Some v) \<and>
       (\<forall>x \<in> set post. eff x k = None))"
proof
  assume "get (fold step es s) k = Some v"
  with get_fold_cases [of es k s] assms
  show "\<exists>pre e post. es = pre @ e # post \<and> eff e k = Some (Some v) \<and>
      (\<forall>x \<in> set post. eff x k = None)"
    by auto
next
  assume "\<exists>pre e post. es = pre @ e # post \<and> eff e k = Some (Some v) \<and>
      (\<forall>x \<in> set post. eff x k = None)"
  then show "get (fold step es s) k = Some v" by (blast intro: get_fold_last)
qed

end

text \<open>
  The loops run rank after rank, and a key belongs to one rank: what the whole run stores under
  it is what the run over that rank's events alone stores.
\<close>

locale ranked_write = last_write step get eff
  for step :: "'r \<times> 'e \<Rightarrow> 's \<Rightarrow> 's" and get :: "'s \<Rightarrow> 'k \<Rightarrow> 'v option"
    and eff :: "'r \<times> 'e \<Rightarrow> 'k \<Rightarrow> 'v option option" +
  fixes key_rank :: "'k \<Rightarrow> 'r"
  assumes eff_rank: "r \<noteq> key_rank k \<Longrightarrow> eff (r, e) k = None"
begin

lemma get_fold_cong: "get s k = get t k \<Longrightarrow> get (fold step es s) k = get (fold step es t) k"
proof (induction es arbitrary: s t)
  case (Cons e es)
  then have "get (step e s) k = get (step e t) k" by (simp add: get_step split: option.split)
  from Cons.IH [OF this] show ?case by simp
qed simp

lemma get_fold_other: "r \<noteq> key_rank k \<Longrightarrow> get (fold step (map (Pair r) es) s) k = get s k"
  by (rule get_fold_untouched) (auto simp: eff_rank)

lemma get_fold_others:
  "key_rank k \<notin> set (map fst blocks) \<Longrightarrow>
    get (fold (\<lambda>(r, es). fold step (map (Pair r) es)) blocks s) k = get s k"
proof (induction blocks arbitrary: s)
  case (Cons b blocks)
  then show ?case by (cases b) (auto simp: get_fold_other)
qed simp

lemma get_fold_blocks:
  assumes "distinct (map fst blocks)" and "get s k = None"
  shows "get (fold (\<lambda>(r, es). fold step (map (Pair r) es)) blocks s) k =
    (case map_of blocks (key_rank k) of None \<Rightarrow> None
     | Some es \<Rightarrow> get (fold step (map (Pair (key_rank k)) es) s) k)"
  using assms
proof (induction blocks arbitrary: s)
  case (Cons b blocks)
  obtain r es where b: "b = (r, es)" by force
  show ?case
  proof (cases "r = key_rank k")
    case True
    with Cons.prems(1) b have "key_rank k \<notin> set (map fst blocks)" by simp
    from get_fold_others [OF this] True b show ?thesis by simp
  next
    case False
    let ?s = "fold step (map (Pair r) es) s"
    have "get ?s k = None" using get_fold_other [OF False] Cons.prems(2) by simp
    with Cons.prems(1) b have
      "get (fold (\<lambda>(r, es). fold step (map (Pair r) es)) blocks ?s) k =
        (case map_of blocks (key_rank k) of None \<Rightarrow> None
         | Some es \<Rightarrow> get (fold step (map (Pair (key_rank k)) es) ?s) k)"
      by (intro Cons.IH) simp_all
    also have "\<dots> = (case map_of blocks (key_rank k) of None \<Rightarrow> None
         | Some es \<Rightarrow> get (fold step (map (Pair (key_rank k)) es) s) k)"
      using get_fold_cong [OF get_fold_other [OF False]] by (simp split: option.split)
    finally show ?thesis using b False by simp
  qed
qed simp

end

subsection \<open>Lists\<close>

text \<open>\<open>xs[-1] if xs else None\<close>, \<open>xs[-n:]\<close> and \<open>list.index\<close>.\<close>

definition last_opt :: "'a list \<Rightarrow> 'a option" where
  "last_opt xs = (if xs = [] then None else Some (last xs))"

definition take_last :: "nat \<Rightarrow> 'a list \<Rightarrow> 'a list" where
  "take_last n xs = drop (length xs - n) xs"

fun list_index :: "'a list \<Rightarrow> 'a \<Rightarrow> nat option" where
  "list_index [] y = None"
| "list_index (x # xs) y = (if x = y then Some 0 else map_option Suc (list_index xs y))"

lemma last_opt_simps [simp]: "last_opt [] = None" "last_opt (xs @ [x]) = Some x"
  by (simp_all add: last_opt_def)

lemma last_opt_None [simp]: "last_opt xs = None \<longleftrightarrow> xs = []"
  by (simp add: last_opt_def)

lemma last_opt_SomeD: "last_opt xs = Some x \<Longrightarrow> x \<in> set xs"
  by (auto simp: last_opt_def split: if_splits)

lemma list_index_None [simp]: "list_index xs y = None \<longleftrightarrow> y \<notin> set xs"
  by (induction xs) auto

lemma list_index_Some:
  "list_index xs y = Some i \<Longrightarrow> \<exists>pre post. xs = pre @ y # post \<and> length pre = i \<and> y \<notin> set pre"
proof (induction xs arbitrary: i)
  case (Cons x xs)
  show ?case
  proof (cases "x = y")
    case True
    with Cons.prems show ?thesis by (intro exI [of _ "[]"] exI [of _ xs]) auto
  next
    case False
    with Cons.prems obtain j where j: "list_index xs y = Some j" "i = Suc j" by auto
    from Cons.IH [OF j(1)] obtain pre post
      where "xs = pre @ y # post" "length pre = j" "y \<notin> set pre" by blast
    with False j(2) show ?thesis by (intro exI [of _ "x # pre"] exI [of _ post]) auto
  qed
qed simp

lemma sort_key_unique:
  assumes "sorted (map k ys)" and "distinct (map k ys)" and "distinct (map k xs)"
    and "set xs = set ys"
  shows "sort_key k xs = ys"
proof (rule map_sorted_distinct_set_unique [where f = k])
  from assms(2,4) show "inj_on k (set (sort_key k xs) \<union> set ys)"
    by (simp add: distinct_map)
  from assms(3) have "distinct (map k (sort_key k xs))"
    by (simp add: distinct_map)
  then show "distinct (map k (sort_key k xs))" .
qed (use assms in \<open>simp_all add: distinct_map\<close>)

subsection \<open>Decimal text\<close>

definition digit_char :: "nat \<Rightarrow> char" where
  "digit_char d = char_of (48 + d)"

fun str_nat :: "nat \<Rightarrow> string" where
  "str_nat n = (if n < 10 then [digit_char n] else str_nat (n div 10) @ [digit_char (n mod 10)])"

declare str_nat.simps [simp del]

text \<open>\<open>str(n)\<close> of a Python integer.\<close>

definition str_int :: "int \<Rightarrow> string" where
  "str_int n = (if n < 0 then CHR ''-'' # str_nat (nat (- n)) else str_nat (nat n))"

definition is_digit :: "char \<Rightarrow> bool" where
  "is_digit c \<longleftrightarrow> 48 \<le> (of_char c :: nat) \<and> (of_char c :: nat) \<le> 57"

definition digit_val :: "char \<Rightarrow> nat" where
  "digit_val c = of_char c - 48"

definition nat_of_digits :: "string \<Rightarrow> nat" where
  "nat_of_digits s = foldl (\<lambda>n c. 10 * n + digit_val c) 0 s"

lemma of_digit_char: "d < 10 \<Longrightarrow> (of_char (digit_char d) :: nat) = 48 + d"
  by (simp add: digit_char_def)

lemma is_digit_char [py_text, simp]: "d < 10 \<Longrightarrow> is_digit (digit_char d)"
  by (simp add: is_digit_def of_digit_char)

lemma digit_val_char [py_text, simp]: "d < 10 \<Longrightarrow> digit_val (digit_char d) = d"
  by (simp add: digit_val_def of_digit_char)

lemma str_nat_nonempty [py_text, simp]: "str_nat n \<noteq> []"
  by (subst str_nat.simps) simp

lemma str_nat_digits: "\<forall>c \<in> set (str_nat n). is_digit c"
proof (induction n rule: str_nat.induct)
  case (1 n)
  then show ?case by (subst str_nat.simps) auto
qed

lemma nat_of_digits_str_nat [py_text, simp]: "nat_of_digits (str_nat n) = n"
proof (induction n rule: str_nat.induct)
  case (1 n)
  then show ?case
    by (subst str_nat.simps) (auto simp: nat_of_digits_def)
qed

lemma str_nat_inject [py_text, simp]: "str_nat m = str_nat n \<longleftrightarrow> m = n"
  by (metis nat_of_digits_str_nat)

lemma minus_not_digit: "\<not> is_digit (CHR ''-'')"
  by (simp add: is_digit_def)

lemma str_int_chars: "c \<in> set (str_int n) \<Longrightarrow> is_digit c \<or> c = CHR ''-''"
  using str_nat_digits by (auto simp: str_int_def split: if_splits)

lemma str_int_nonempty [py_text, simp]: "str_int n \<noteq> []"
  by (simp add: str_int_def)

lemma str_int_inject [py_text, simp]: "str_int m = str_int n \<longleftrightarrow> m = n"
proof
  assume eq: "str_int m = str_int n"
  have hd: "hd (str_nat k) \<noteq> CHR ''-''" for k
    using str_nat_digits [of k] minus_not_digit hd_in_set [OF str_nat_nonempty, of k] by metis
  from eq hd show "m = n"
    by (auto simp: str_int_def split: if_splits)
      (metis hd list.sel(1))+
qed simp

text \<open>A text is cut uniquely at the first separator that the part before it cannot contain.\<close>

lemma cut_unique:
  assumes "xs @ c # ys = xs' @ c # ys'" and "c \<notin> set xs" and "c \<notin> set xs'"
  shows "xs = xs' \<and> ys = ys'"
  using assms
proof (induction xs arbitrary: xs')
  case Nil
  then show ?case by (cases xs') auto
next
  case (Cons x xs)
  then show ?case by (cases xs') auto
qed

lemma colon_not_str_int [py_text, simp]: "CHR '':'' \<notin> set (str_int n)"
  using str_int_chars [of "CHR '':''" n] by (auto simp: is_digit_def)

subsection \<open>String methods\<close>

definition str_endswith :: "string \<Rightarrow> string \<Rightarrow> bool" where
  "str_endswith s suf \<longleftrightarrow> drop (length s - length suf) s = suf"

text \<open>\<open>str.replace\<close> with a non-empty first argument: every occurrence, left to right.\<close>

function str_replace :: "string \<Rightarrow> string \<Rightarrow> string \<Rightarrow> string" where
  "str_replace old new [] = []"
| "str_replace old new (c # cs) =
     (if old \<noteq> [] \<and> take (length old) (c # cs) = old
      then new @ str_replace old new (drop (length old) (c # cs))
      else c # str_replace old new cs)"
  by pat_completeness auto
termination
  by (relation "measure (\<lambda>(old, new, s). length s)") auto

fun str_join :: "string \<Rightarrow> string list \<Rightarrow> string" where
  "str_join sep [] = []"
| "str_join sep [x] = x"
| "str_join sep (x # xs) = x @ sep @ str_join sep xs"

text \<open>\<open>str.strip\<close> on ASCII text.\<close>

definition is_space :: "char \<Rightarrow> bool" where
  "is_space c \<longleftrightarrow> (of_char c :: nat) \<in> {9, 10, 11, 12, 13, 28, 29, 30, 31, 32}"

definition str_strip :: "string \<Rightarrow> string" where
  "str_strip s = rev (dropWhile is_space (rev (dropWhile is_space s)))"

text \<open>Padding as in \<open>format(s, ">n")\<close> and \<open>format(s, "<n")\<close>; \<open>str\<close> of a bool and of a list of integers.\<close>

definition rjust :: "nat \<Rightarrow> string \<Rightarrow> string" where
  "rjust n s = replicate (n - length s) (CHR '' '') @ s"

definition ljust :: "nat \<Rightarrow> string \<Rightarrow> string" where
  "ljust n s = s @ replicate (n - length s) (CHR '' '')"

definition str_bool :: "bool \<Rightarrow> string" where
  "str_bool b = (if b then ''True'' else ''False'')"

definition str_ints :: "int list \<Rightarrow> string" where
  "str_ints ns = ''['' @ str_join '', '' (map str_int ns) @ '']''"

subsection \<open>Paths\<close>

text \<open>
  A path is its parts, with the root as a first part \<open>/\<close>. Python orders paths by their parts,
  not by their text.
\<close>

datatype path = Path (path_parts: "string list")

fun path_str :: "path \<Rightarrow> string" where
  "path_str (Path []) = ''.''"
| "path_str (Path (p # ps)) =
     (if p = ''/'' then ''/'' @ str_join ''/'' ps else str_join ''/'' (p # ps))"

definition path_child :: "path \<Rightarrow> string \<Rightarrow> path" where
  "path_child p name = Path (path_parts p @ [name])"

definition path_name :: "path \<Rightarrow> string" where
  "path_name p = (case last_opt (path_parts p) of None \<Rightarrow> [] | Some n \<Rightarrow> n)"

definition path_parent :: "path \<Rightarrow> path" where
  "path_parent p = Path (butlast (path_parts p))"

instantiation path :: linorder
begin

definition less_eq_path :: "path \<Rightarrow> path \<Rightarrow> bool" where
  "less_eq_path p q \<longleftrightarrow> path_parts p \<le> path_parts q"

definition less_path :: "path \<Rightarrow> path \<Rightarrow> bool" where
  "less_path p q \<longleftrightarrow> path_parts p < path_parts q"

instance
  by intro_classes (auto simp: less_eq_path_def less_path_def path.expand)

end

lemma path_name_child [simp]: "path_name (path_child p n) = n"
  by (simp add: path_name_def path_child_def)

lemma path_parent_child [simp]: "path_parent (path_child p n) = p"
  by (simp add: path_parent_def path_child_def)

end
