(* ===== verification/Py_Struct.thy ===== *)
theory Py_Struct
  imports Flight_Prelude "HOL-Library.Word"
begin

text \<open>
  Python's \<open>struct\<close> module as the readers use it: little-endian formats (prefix \<open><\<close>, so no
  implicit alignment) made of the codes \<open>Q\<close>, \<open>I\<close>, \<open>H\<close>, pad bytes \<open>nx\<close> and byte strings \<open>ns\<close>.
  \<open>unpack_from\<close> raises \<open>struct.error\<close> when the buffer is too short. The round trip
  \<open>unpack_pack\<close> is what makes the writers' images readable.
\<close>

type_synonym byte = "8 word"

text \<open>The codes \<open>Q\<close>, \<open>I\<close>, \<open>H\<close>, \<open>nx\<close> and \<open>ns\<close>.\<close>

datatype fcode = U64 | U32 | U16 | Pad nat | Str nat

datatype sval = VInt int | VBytes "byte list"

fun fcode_size :: "fcode \<Rightarrow> nat" where
  "fcode_size U64 = 8"
| "fcode_size U32 = 4"
| "fcode_size U16 = 2"
| "fcode_size (Pad n) = n"
| "fcode_size (Str n) = n"

definition calcsize :: "fcode list \<Rightarrow> nat" where
  "calcsize fmt = sum_list (map fcode_size fmt)"

lemma calcsize_simps [simp]:
  "calcsize [] = 0" "calcsize (c # fmt) = fcode_size c + calcsize fmt"
  by (simp_all add: calcsize_def)

subsection \<open>Little-endian integers\<close>

fun le_int :: "byte list \<Rightarrow> int" where
  "le_int [] = 0"
| "le_int (b # bs) = uint b + 256 * le_int bs"

fun le_bytes :: "nat \<Rightarrow> int \<Rightarrow> byte list" where
  "le_bytes 0 x = []"
| "le_bytes (Suc n) x = word_of_int x # le_bytes n (x div 256)"

lemma length_le_bytes [simp]: "length (le_bytes n x) = n"
  by (induction n arbitrary: x) auto

lemma le_int_nonneg: "0 \<le> le_int bs"
  by (induction bs) auto

lemma le_int_less: "le_int bs < 256 ^ length bs"
proof (induction bs)
  case (Cons b bs)
  have "uint b < 256" using uint_lt2p [of b] by simp
  moreover from Cons.IH have "le_int bs + 1 \<le> 256 ^ length bs" by simp
  ultimately show ?case by (simp add: algebra_simps)
qed simp

lemma le_int_le_bytes: "le_int (le_bytes n x) = x mod 256 ^ n"
proof (induction n arbitrary: x)
  case (Suc n)
  have "x mod 256 + 256 * (x div 256 mod 256 ^ n) = x mod (256 * 256 ^ n)"
    by (simp add: mod_mult2_eq' zmod_zmult2_eq)
  moreover have "uint (word_of_int x :: byte) = x mod 256"
    by (simp add: uint_word_of_int take_bit_eq_mod)
  ultimately show ?case using Suc.IH by simp
qed simp

lemma le_int_le_bytes_id [simp]:
  "0 \<le> x \<Longrightarrow> x < 256 ^ n \<Longrightarrow> le_int (le_bytes n x) = x"
  by (simp add: le_int_le_bytes)

lemma le_int_replicate_0 [simp]: "le_int (replicate n 0) = 0"
  by (induction n) auto

subsection \<open>Unpacking and packing\<close>

fun unpack_fields :: "fcode list \<Rightarrow> byte list \<Rightarrow> sval list" where
  "unpack_fields [] bs = []"
| "unpack_fields (Pad n # fmt) bs = unpack_fields fmt (drop n bs)"
| "unpack_fields (Str n # fmt) bs = VBytes (take n bs) # unpack_fields fmt (drop n bs)"
| "unpack_fields (c # fmt) bs =
     VInt (le_int (take (fcode_size c) bs)) # unpack_fields fmt (drop (fcode_size c) bs)"

definition unpack_from :: "fcode list \<Rightarrow> byte list \<Rightarrow> nat \<Rightarrow> py_error + sval list" where
  "unpack_from fmt buf off =
     (if off + calcsize fmt \<le> length buf then Inr (unpack_fields fmt (drop off buf))
      else Inl StructError)"

text \<open>The value of an integer field of an unpacked tuple, by position.\<close>

fun sval_int :: "sval \<Rightarrow> int" where
  "sval_int (VInt n) = n"
| "sval_int (VBytes bs) = le_int bs"

fun sval_bytes :: "sval \<Rightarrow> byte list" where
  "sval_bytes (VBytes bs) = bs"
| "sval_bytes (VInt n) = []"

abbreviation int_at :: "sval list \<Rightarrow> nat \<Rightarrow> int" where
  "int_at vs i \<equiv> sval_int (vs ! i)"

abbreviation bytes_at :: "sval list \<Rightarrow> nat \<Rightarrow> byte list" where
  "bytes_at vs i \<equiv> sval_bytes (vs ! i)"

fun pack_fields :: "fcode list \<Rightarrow> sval list \<Rightarrow> byte list" where
  "pack_fields [] vs = []"
| "pack_fields (Pad n # fmt) vs = replicate n 0 @ pack_fields fmt vs"
| "pack_fields (c # fmt) [] = replicate (fcode_size c) 0 @ pack_fields fmt []"
| "pack_fields (Str n # fmt) (v # vs) =
     take n (sval_bytes v @ replicate n 0) @ pack_fields fmt vs"
| "pack_fields (c # fmt) (v # vs) = le_bytes (fcode_size c) (sval_int v) @ pack_fields fmt vs"

text \<open>A tuple fits a format when it has one value per code, each in the range of its field.\<close>

fun fits :: "fcode list \<Rightarrow> sval list \<Rightarrow> bool" where
  "fits [] vs \<longleftrightarrow> vs = []"
| "fits (Pad n # fmt) vs \<longleftrightarrow> fits fmt vs"
| "fits (c # fmt) [] \<longleftrightarrow> False"
| "fits (Str n # fmt) (v # vs) \<longleftrightarrow> (\<exists>bs. v = VBytes bs \<and> length bs = n) \<and> fits fmt vs"
| "fits (c # fmt) (v # vs) \<longleftrightarrow>
     (\<exists>x. v = VInt x \<and> 0 \<le> x \<and> x < 256 ^ fcode_size c) \<and> fits fmt vs"

lemma length_pack_fields [simp]: "length (pack_fields fmt vs) = calcsize fmt"
  by (induction fmt vs rule: pack_fields.induct) auto

lemma unpack_fields_pack_append:
  "fits fmt vs \<Longrightarrow> unpack_fields fmt (pack_fields fmt vs @ rest) = vs"
  by (induction fmt vs rule: fits.induct) auto

lemma unpack_from_pack:
  "fits fmt vs \<Longrightarrow> unpack_from fmt (pre @ pack_fields fmt vs @ rest) (length pre) = Inr vs"
  by (simp add: unpack_from_def unpack_fields_pack_append)

lemma le_int_take: "le_int (take n bs) < 256 ^ n"
proof -
  have "(256 :: int) ^ length (take n bs) \<le> 256 ^ n" by (intro power_increasing) simp_all
  with le_int_less [of "take n bs"] show ?thesis by linarith
qed

lemma unpack_fields_bounds:
  "calcsize fmt \<le> length bs \<Longrightarrow> fits fmt (unpack_fields fmt bs)"
  using le_int_take [of 8] le_int_take [of 4] le_int_take [of 2]
  by (induction fmt bs rule: unpack_fields.induct) (auto simp: le_int_nonneg)

lemma unpack_from_no_error:
  "off + calcsize fmt \<le> length buf \<Longrightarrow>
   unpack_from fmt buf off = Inr (unpack_fields fmt (drop off buf))"
  by (simp add: unpack_from_def)

end
