(* ===== verification/Flight_Format.thy ===== *)
theory Flight_Format
  imports Py_Struct
begin

text \<open>
  \<open>flightrecorder/format.py\<close>: the version 1 flight file. A file is a 128 byte header and a ring
  of 64 byte event slots. \<open>read_header\<close> and \<open>read_events\<close> are modelled with their two separate
  reads of the file (the header is read first, the whole file afterwards, and a live recorder
  may write in between), every exception a branch.
\<close>

subsection \<open>Layout\<close>

definition MAGIC :: int where
  "MAGIC = 0x31524647534E4341"

definition HEADER :: "fcode list" where
  "HEADER = [U64, U32, U32, U64, U32, U16, U16, U64, U64, U64, U64]"

definition EVENT :: "fcode list" where
  "EVENT = [U64, U64, U32, U32, U16, U16, U32, U16, U16, Pad 4, U64, U64, U64]"

definition NAMES :: "string list" where
  "NAMES =
    [''UNKNOWN'', ''REQUEST_BEGIN'', ''REQUEST_END'', ''SCHEDULER_BEGIN'', ''SCHEDULER_END'',
     ''MODEL_BEGIN'', ''MODEL_END'', ''GRAPH_BEGIN'', ''GRAPH_END'', ''KV_BEGIN'', ''KV_END'',
     ''PP_SEND_BEGIN'', ''PP_SEND_END'', ''PP_RECV_BEGIN'', ''PP_RECV_END'', ''HCCL_BEGIN'',
     ''HCCL_END'', ''EVENT_RECORD'', ''EVENT_WAIT'', ''STREAM_SYNC_BEGIN'', ''STREAM_SYNC_END'',
     ''DEVICE_SYNC_BEGIN'', ''DEVICE_SYNC_END'', ''CHECKPOINT'', ''DEVICE_CONFIRMED'']"

definition TYPES :: "(string, int) dict" where
  "TYPES = map (\<lambda>i. (NAMES ! i, int i)) [0..<length NAMES]"

definition type_name :: "int \<Rightarrow> string" where
  "type_name kind = (if kind < int (length NAMES) then NAMES ! nat kind
                     else ''TYPE_'' @ str_int kind)"

lemma calcsize_HEADER [simp]: "calcsize HEADER = 64"
  by (simp add: HEADER_def)

lemma calcsize_EVENT [simp]: "calcsize EVENT = 64"
  by (simp add: EVENT_def)

record header =
  hd_path :: path
  hd_capacity :: int
  hd_pid :: int
  hd_rank :: int
  hd_device :: int
  hd_write_seq :: int
  hd_last_ns :: int
  hd_started_wall_ns :: int
  hd_started_mono_ns :: int

record event =
  ev_timestamp_ns :: int
  ev_seq :: int
  ev_pid :: int
  ev_tid :: int
  ev_device :: int
  ev_rank :: int
  ev_stream :: int
  ev_type :: string
  ev_flags :: int
  ev_correlation_id :: int
  ev_arg0 :: int
  ev_arg1 :: int

subsection \<open>Reading\<close>

text \<open>
  \<open>fs p k\<close> is what the \<open>k\<close>-th opening of \<open>p\<close> yields: the text of an \<open>OSError\<close> or the bytes
  of the file at that moment.
\<close>

type_synonym file_reads = "path \<Rightarrow> nat \<Rightarrow> string + byte list"

definition parse_header :: "path \<Rightarrow> byte list \<Rightarrow> py_error + header" where
  "parse_header path raw =
     (if length raw < 128 then Inl (ValueError (''short header: '' @ path_str path))
      else case unpack_from HEADER raw 0 of
        Inl e \<Rightarrow> Inl e
      | Inr vs \<Rightarrow>
          (let magic = int_at vs 0; version = int_at vs 1; event_size = int_at vs 2;
               capacity = int_at vs 3
           in if magic \<noteq> MAGIC \<or> version \<noteq> 1 \<or> event_size \<noteq> 64 \<or> capacity < 2
              then Inl (ValueError (''unsupported flight format: '' @ path_str path))
              else Inr \<lparr>hd_path = path, hd_capacity = capacity, hd_pid = int_at vs 4,
                        hd_rank = int_at vs 5, hd_device = int_at vs 6,
                        hd_write_seq = int_at vs 7, hd_last_ns = int_at vs 8,
                        hd_started_wall_ns = int_at vs 9, hd_started_mono_ns = int_at vs 10\<rparr>))"

definition read_header :: "file_reads \<Rightarrow> path \<Rightarrow> py_error + header" where
  "read_header fs path =
     (case fs path 0 of
        Inl m \<Rightarrow> Inl (OSError m)
      | Inr content \<Rightarrow> parse_header path (take 128 content))"

text \<open>One slot: \<open>None\<close> is the loop's \<open>continue\<close>.\<close>

definition read_slot :: "header \<Rightarrow> byte list \<Rightarrow> nat \<Rightarrow> py_error + event option" where
  "read_slot h raw slot =
     (case unpack_from EVENT raw (128 + slot * 64) of
        Inl e \<Rightarrow> Inl e
      | Inr vs \<Rightarrow>
          (let seq = int_at vs 1;
               lower = max 1 (hd_write_seq h - hd_capacity h + 1)
           in if \<not> (lower \<le> seq \<and> seq \<le> hd_write_seq h \<and>
                     (seq - 1) mod hd_capacity h = int slot)
              then Inr None
              else Inr (Some
                \<lparr>ev_timestamp_ns = int_at vs 0, ev_seq = seq, ev_pid = int_at vs 2,
                 ev_tid = int_at vs 3, ev_device = int_at vs 4, ev_rank = int_at vs 5,
                 ev_stream = int_at vs 6, ev_type = type_name (int_at vs 7),
                 ev_flags = int_at vs 8, ev_correlation_id = int_at vs 9,
                 ev_arg0 = int_at vs 10, ev_arg1 = int_at vs 11\<rparr>)))"

definition slot_count :: "header \<Rightarrow> byte list \<Rightarrow> int" where
  "slot_count h raw = min (hd_capacity h) (max 0 ((int (length raw) - 128) div 64))"

definition read_events :: "file_reads \<Rightarrow> path \<Rightarrow> py_error + header \<times> event list" where
  "read_events fs path =
     (case read_header fs path of
        Inl e \<Rightarrow> Inl e
      | Inr h \<Rightarrow>
          (case fs path 1 of
             Inl m \<Rightarrow> Inl (OSError m)
           | Inr raw \<Rightarrow>
               (case collect (read_slot h raw) [0..<nat (slot_count h raw)] of
                  Inl e \<Rightarrow> Inl e
                | Inr result \<Rightarrow> Inr (h, sort_key ev_seq result))))"

subsection \<open>Type names\<close>

lemma distinct_NAMES: "distinct NAMES"
  by (simp add: NAMES_def)

lemma length_NAMES [simp]: "length NAMES = 25"
  by (simp add: NAMES_def)

lemma NAMES_no_fallback: "n \<in> set NAMES \<Longrightarrow> take 5 n \<noteq> ''TYPE_''"
  by (auto simp: NAMES_def)

lemma type_name_known: "0 \<le> kind \<Longrightarrow> kind < 25 \<Longrightarrow> type_name kind = NAMES ! nat kind"
  by (simp add: type_name_def)

lemma type_name_eqD:
  assumes eq: "type_name k = type_name l" and k: "0 \<le> k" and l: "0 \<le> l"
  shows "k = l"
proof -
  have known: "type_name i \<in> set NAMES" if "0 \<le> i" "i < 25" for i
    using that by (simp add: type_name_def)
  have unknown: "type_name i \<notin> set NAMES" if "25 \<le> i" for i
    using that NAMES_no_fallback [of "type_name i"] by (auto simp: type_name_def)
  consider "k < 25" "l < 25" | "25 \<le> k" "25 \<le> l" | "k < 25" "25 \<le> l" | "25 \<le> k" "l < 25"
    by linarith
  then show ?thesis
  proof cases
    case 1
    with eq k l have "NAMES ! nat k = NAMES ! nat l" by (simp add: type_name_def)
    with 1 k l show ?thesis by (simp add: nth_eq_iff_index_eq [OF distinct_NAMES])
  next
    case 2
    with eq show ?thesis by (simp add: type_name_def)
  qed (metis eq k l known unknown)+
qed

subsection \<open>What reading yields\<close>

lemma parse_header_cases:
  "(\<exists>m. parse_header p raw = Inl (ValueError m)) \<or> (\<exists>h. parse_header p raw = Inr h)"
  by (simp add: parse_header_def unpack_from_def Let_def)

lemma parse_header_capacity: "parse_header p raw = Inr h \<Longrightarrow> 2 \<le> hd_capacity h"
  by (auto simp: parse_header_def unpack_from_def Let_def split: if_splits)

lemma read_header_capacity: "read_header fs p = Inr h \<Longrightarrow> 2 \<le> hd_capacity h"
  by (auto simp: read_header_def split: sum.splits dest: parse_header_capacity)

lemma read_header_cases:
  "(\<exists>m. read_header fs p = Inl (OSError m)) \<or> (\<exists>m. read_header fs p = Inl (ValueError m)) \<or>
   (\<exists>h. read_header fs p = Inr h)"
  using parse_header_cases by (auto simp: read_header_def split: sum.splits)

text \<open>The slot loop stays inside the bytes that were read, whatever the header claims.\<close>

lemma slot_in_bounds:
  assumes "slot < nat (slot_count h raw)"
  shows "128 + slot * 64 + 64 \<le> length raw"
proof -
  from assms have "int slot < (int (length raw) - 128) div 64"
    by (simp add: slot_count_def min_def max_def split: if_splits)
  then have "(int slot + 1) * 64 \<le> (int (length raw) - 128) div 64 * 64" by simp
  also have "\<dots> \<le> int (length raw) - 128"
    using div_mult_mod_eq [of "int (length raw) - 128" 64] pos_mod_sign [of 64 "int (length raw) - 128"]
    by linarith
  finally show ?thesis by simp
qed

lemma read_slot_no_error:
  "slot < nat (slot_count h raw) \<Longrightarrow> \<exists>r. read_slot h raw slot = Inr r"
  using slot_in_bounds [of slot h raw] by (simp add: read_slot_def unpack_from_def Let_def)

lemma collect_slots_no_error:
  "\<exists>es. collect (read_slot h raw) [0..<nat (slot_count h raw)] = Inr es"
  by (rule collect_no_error) (simp add: read_slot_no_error)

lemma read_slot_SomeD:
  assumes "read_slot h raw slot = Inr (Some e)"
  shows "max 1 (hd_write_seq h - hd_capacity h + 1) \<le> ev_seq e" "ev_seq e \<le> hd_write_seq h"
    "(ev_seq e - 1) mod hd_capacity h = int slot"
  using assms by (auto simp: read_slot_def Let_def split: sum.splits if_splits)

lemma distinct_collect_slots:
  assumes "collect (read_slot h raw) slots = Inr es" and "distinct slots"
  shows "distinct (map ev_seq es)"
  using assms
proof (induction slots arbitrary: es)
  case (Cons slot slots)
  show ?case
  proof (cases "read_slot h raw slot")
    case (Inr r)
    show ?thesis
    proof (cases r)
      case None
      with Inr Cons show ?thesis by simp
    next
      case (Some e)
      with Inr Cons.prems obtain es' where es': "collect (read_slot h raw) slots = Inr es'"
        and es: "es = e # es'"
        by (auto split: sum.splits)
      have "ev_seq e \<noteq> ev_seq x" if "x \<in> set es'" for x
      proof
        assume eq: "ev_seq e = ev_seq x"
        from that es' obtain k where k: "k \<in> set slots" "read_slot h raw k = Inr (Some x)"
          by (auto simp: collect_Inr_set)
        from read_slot_SomeD(3) [OF k(2)] read_slot_SomeD(3) [of h raw slot e] Inr Some eq
        have "slot = k" by simp
        with k(1) Cons.prems(2) show False by simp
      qed
      with es Cons.IH [OF es'] Cons.prems(2) show ?thesis by auto
    qed
  next
    case (Inl a)
    with Cons.prems show ?thesis by simp
  qed
qed simp

lemma read_events_InrE:
  assumes "read_events fs p = Inr (h, es)"
  obtains raw evs where "read_header fs p = Inr h" and "fs p 1 = Inr raw"
    and "collect (read_slot h raw) [0..<nat (slot_count h raw)] = Inr evs"
    and "es = sort_key ev_seq evs"
  using assms by (auto simp: read_events_def split: sum.splits)

lemma read_events_set:
  assumes "read_header fs p = Inr h" and "fs p 1 = Inr raw" and "read_events fs p = Inr (h, es)"
  shows "e \<in> set es \<longleftrightarrow> (\<exists>slot < nat (slot_count h raw). read_slot h raw slot = Inr (Some e))"
  using assms by (auto elim!: read_events_InrE simp: collect_Inr_set Bex_def)

lemma read_events_strict:
  assumes "read_events fs p = Inr (h, es)"
  shows "sorted_wrt (<) (map ev_seq es)"
proof -
  from assms obtain raw evs
    where c: "collect (read_slot h raw) [0..<nat (slot_count h raw)] = Inr evs"
      and es: "es = sort_key ev_seq evs"
    by (elim read_events_InrE)
  have "distinct (map ev_seq es)"
    using distinct_collect_slots [OF c] es by (simp add: distinct_map)
  moreover have "sorted (map ev_seq es)" using es by simp
  ultimately show ?thesis by (simp add: strict_sorted_iff)
qed

lemma read_events_window:
  assumes "read_events fs p = Inr (h, es)" and "e \<in> set es"
  shows "max 1 (hd_write_seq h - hd_capacity h + 1) \<le> ev_seq e" "ev_seq e \<le> hd_write_seq h"
proof -
  from assms obtain raw evs slot where "read_slot h raw slot = Inr (Some e)"
    by (auto elim!: read_events_InrE simp: collect_Inr_set)
  then show "max 1 (hd_write_seq h - hd_capacity h + 1) \<le> ev_seq e" "ev_seq e \<le> hd_write_seq h"
    by (rule read_slot_SomeD)+
qed

text \<open>Fields are unsigned, and every type text comes from \<open>type_name\<close>.\<close>

lemma parse_header_write_seq: "parse_header p raw = Inr h \<Longrightarrow> 0 \<le> hd_write_seq h"
  by (auto simp: parse_header_def unpack_from_def HEADER_def Let_def le_int_nonneg split: if_splits)

lemma read_events_write_seq: "read_events fs p = Inr (h, es) \<Longrightarrow> 0 \<le> hd_write_seq h"
  by (auto simp: read_header_def elim!: read_events_InrE split: sum.splits dest: parse_header_write_seq)

definition decoded_type :: "string \<Rightarrow> bool" where
  "decoded_type t \<longleftrightarrow> (\<exists>k \<ge> 0. t = type_name k)"

lemma read_slot_decoded:
  assumes "read_slot h raw slot = Inr (Some e)"
  shows "decoded_type (ev_type e)"
proof -
  have "0 \<le> int_at (unpack_fields EVENT (drop (128 + slot * 64) raw)) 7"
    by (simp add: EVENT_def le_int_nonneg)
  with assms show ?thesis
    by (auto simp: read_slot_def unpack_from_def decoded_type_def Let_def split: if_splits)
qed

lemma read_events_decoded:
  "read_events fs p = Inr (h, es) \<Longrightarrow> e \<in> set es \<Longrightarrow> decoded_type (ev_type e)"
  by (auto elim!: read_events_InrE simp: collect_Inr_set dest: read_slot_decoded)

text \<open>Every field of what is read lies in the range of its C type.\<close>

definition in_u :: "nat \<Rightarrow> int \<Rightarrow> bool" where
  "in_u w n \<longleftrightarrow> 0 \<le> n \<and> n < 2 ^ w"

definition header_typed :: "header \<Rightarrow> bool" where
  "header_typed h \<longleftrightarrow> in_u 64 (hd_capacity h) \<and> in_u 32 (hd_pid h) \<and> in_u 16 (hd_rank h) \<and>
     in_u 16 (hd_device h) \<and> in_u 64 (hd_write_seq h) \<and> in_u 64 (hd_last_ns h) \<and>
     in_u 64 (hd_started_wall_ns h) \<and> in_u 64 (hd_started_mono_ns h)"

definition event_typed :: "event \<Rightarrow> bool" where
  "event_typed e \<longleftrightarrow> in_u 64 (ev_timestamp_ns e) \<and> in_u 64 (ev_seq e) \<and> in_u 32 (ev_pid e) \<and>
     in_u 32 (ev_tid e) \<and> in_u 16 (ev_device e) \<and> in_u 16 (ev_rank e) \<and> in_u 32 (ev_stream e) \<and>
     decoded_type (ev_type e) \<and> in_u 16 (ev_flags e) \<and> in_u 64 (ev_correlation_id e) \<and>
     in_u 64 (ev_arg0 e) \<and> in_u 64 (ev_arg1 e)"

lemma in_u_le_int:
  "in_u 64 (le_int (take 8 bs))" "in_u 32 (le_int (take 4 bs))" "in_u 16 (le_int (take 2 bs))"
  using le_int_take [of 8 bs] le_int_take [of 4 bs] le_int_take [of 2 bs]
  by (simp_all add: in_u_def le_int_nonneg)

lemma parse_header_typed: "parse_header p raw = Inr h \<Longrightarrow> header_typed h"
  by (auto simp: parse_header_def unpack_from_def HEADER_def Let_def header_typed_def in_u_le_int split: if_splits)

lemma read_slot_typed:
  assumes "read_slot h raw slot = Inr (Some e)"
  shows "event_typed e"
  using assms read_slot_decoded [OF assms]
  by (auto simp: read_slot_def unpack_from_def EVENT_def Let_def event_typed_def in_u_le_int split: if_splits)

lemma read_events_only_os_or_value_error:
  "read_events fs p = Inl e \<Longrightarrow> (\<exists>m. e = OSError m) \<or> (\<exists>m. e = ValueError m)"
  using read_header_cases [of fs p]
  by (auto simp: read_events_def split: sum.splits)
    (metis Inl_Inr_False collect_slots_no_error)

subsection \<open>The contract of a reader\<close>

text \<open>
  What the analyzer relies on: events come out strictly ordered by sequence number and inside the
  window the header announces. Everything it concludes from positions in the list (the last
  event, what follows what, loss of events) is proved from this contract alone.
\<close>

locale event_source =
  fixes src :: "'p \<Rightarrow> 'x + 'h \<times> event list" and newest :: "'h \<Rightarrow> int"
  assumes src_strict: "src p = Inr (h, es) \<Longrightarrow> sorted_wrt (<) (map ev_seq es)"
    and src_window: "src p = Inr (h, es) \<Longrightarrow> e \<in> set es \<Longrightarrow> 1 \<le> ev_seq e \<and> ev_seq e \<le> newest h"
begin

lemma src_distinct: "src p = Inr (h, es) \<Longrightarrow> distinct (map ev_seq es)"
  using src_strict by (simp add: strict_sorted_iff)

lemma src_last_max:
  assumes "src p = Inr (h, es)" and "e \<in> set es"
  shows "ev_seq e \<le> ev_seq (last es)"
proof (cases es rule: rev_cases)
  case (snoc ys y)
  from src_strict [OF assms(1)] have "sorted (map ev_seq es)"
    by (simp add: strict_sorted_iff)
  with snoc assms(2) show ?thesis by (auto simp: sorted_append)
qed (use assms in simp)

lemma src_length:
  assumes "src p = Inr (h, es)"
  shows "int (length es) \<le> max 0 (newest h)"
proof -
  have "set (map ev_seq es) \<subseteq> {1..newest h}"
    using src_window [OF assms] by auto
  then have "card (set (map ev_seq es)) \<le> card {1..newest h}"
    by (intro card_mono) auto
  then show ?thesis using distinct_card [OF src_distinct [OF assms]] by simp
qed

lemma src_complete_iff:
  assumes "src p = Inr (h, es)" and "0 \<le> newest h"
  shows "newest h > int (length es) \<longleftrightarrow> ev_seq ` set es \<noteq> {1..newest h}"
proof -
  have sub: "ev_seq ` set es \<subseteq> {1..newest h}"
    using src_window [OF assms(1)] by auto
  have card: "card (ev_seq ` set es) = length es"
    using distinct_card [OF src_distinct [OF assms(1)]] by simp
  have "ev_seq ` set es = {1..newest h} \<longleftrightarrow> card (ev_seq ` set es) = card {1..newest h}"
    using card_subset_eq [OF _ sub] by auto
  moreover have "length es \<le> nat (newest h)"
    using src_length [OF assms(1)] assms(2) by simp
  ultimately show ?thesis using card assms(2) by auto
qed

end

interpretation flight: event_source "read_events fs" hd_write_seq for fs
proof unfold_locales
  fix p h es assume r: "read_events fs p = Inr (h, es)"
  then show "sorted_wrt (<) (map ev_seq es)" by (rule read_events_strict)
  fix e assume "e \<in> set es"
  from read_events_window [OF r this] show "1 \<le> ev_seq e \<and> ev_seq e \<le> hd_write_seq h" by simp
qed

end
