(* ===== verification/Seq_Ring.thy ===== *)
theory Seq_Ring
  imports Main
begin

text \<open>
  The protocol shared by the two recorders and their readers: record number \<open>s\<close> (counted from 1)
  goes to slot \<open>(s - 1) mod size\<close>. The locale states what one write does to the slots; the lemmas
  say which record each slot holds after any number of writes.
\<close>

lemma mod_near_neq:
  fixes a b c :: nat
  assumes "a < b" and "b - a < c"
  shows "a mod c \<noteq> b mod c"
proof
  assume "a mod c = b mod c"
  then have "c dvd b - a"
    using assms(1) by (metis less_imp_le_nat mod_eq_dvd_iff_nat)
  with assms show False by (simp add: nat_dvd_not_less)
qed

locale seq_ring =
  fixes ok :: "'r \<Rightarrow> bool"
    and put :: "'e \<Rightarrow> 'r \<Rightarrow> 'r"
    and total :: "'r \<Rightarrow> nat"
    and slots :: "'r \<Rightarrow> nat"
    and slot :: "'r \<Rightarrow> nat \<Rightarrow> 's"
    and stamp :: "'r \<Rightarrow> 'e \<Rightarrow> nat \<Rightarrow> 's"
    and bound :: nat
  assumes slots_pos: "ok r \<Longrightarrow> 0 < slots r"
    and put_ok: "ok r \<Longrightarrow> total r < bound \<Longrightarrow> ok (put e r)"
    and put_total: "ok r \<Longrightarrow> total r < bound \<Longrightarrow> total (put e r) = Suc (total r)"
    and put_slots: "ok r \<Longrightarrow> total r < bound \<Longrightarrow> slots (put e r) = slots r"
    and put_stamp: "ok r \<Longrightarrow> total r < bound \<Longrightarrow> stamp (put e r) = stamp r"
    and put_slot: "ok r \<Longrightarrow> total r < bound \<Longrightarrow> k < slots r \<Longrightarrow>
      slot (put e r) k =
        (if k = total r mod slots r then stamp r e (Suc (total r)) else slot r k)"
begin

lemma fold_frame:
  assumes "ok r" and "total r = 0" and "length es \<le> bound"
  shows "ok (fold put es r) \<and> total (fold put es r) = length es \<and>
    slots (fold put es r) = slots r \<and> stamp (fold put es r) = stamp r"
  using assms(3)
proof (induction es rule: rev_induct)
  case (snoc e es)
  then show ?case by (simp add: put_ok put_total put_slots put_stamp)
qed (use assms in simp)

lemmas fold_ok = fold_frame [THEN conjunct1]
  and fold_total = fold_frame [THEN conjunct2, THEN conjunct1]
  and fold_slots = fold_frame [THEN conjunct2, THEN conjunct2, THEN conjunct1]
  and fold_stamp = fold_frame [THEN conjunct2, THEN conjunct2, THEN conjunct2]

text \<open>Every record of the window is in its slot.\<close>

lemma slot_window:
  assumes "ok r" and "total r = 0" and "length es \<le> bound"
    and "1 \<le> s" and "s \<le> length es" and "length es < s + slots r"
  shows "slot (fold put es r) ((s - 1) mod slots r) = stamp r (es ! (s - 1)) s"
  using assms(3-6)
proof (induction es rule: rev_induct)
  case (snoc e es)
  let ?f = "fold put es r"
  from snoc.prems have b: "length es \<le> bound" "length es < bound" by simp_all
  note fr = fold_frame [OF assms(1,2) b(1)]
  from slots_pos [OF assms(1)] have k: "(s - 1) mod slots r < slots ?f" using fr by simp
  have step: "slot (put e ?f) ((s - 1) mod slots r) =
      (if (s - 1) mod slots r = length es mod slots r then stamp r e (Suc (length es))
       else slot ?f ((s - 1) mod slots r))"
    using put_slot [of ?f "(s - 1) mod slots r" e] fr b k by simp
  show ?case
  proof (cases "s = Suc (length es)")
    case True
    then show ?thesis using step by simp
  next
    case False
    with snoc.prems have s: "s \<le> length es" by simp
    then have "(s - 1) mod slots r \<noteq> length es mod slots r"
      using snoc.prems by (intro mod_near_neq) auto
    moreover have "slot ?f ((s - 1) mod slots r) = stamp r (es ! (s - 1)) s"
      using snoc.IH b(1) s snoc.prems by simp
    moreover have "s - 1 < length es" using s snoc.prems(2) by linarith
    ultimately show ?thesis using step by (simp add: nth_append)
  qed
qed simp

text \<open>A slot that no record has reached still holds what it held at the start.\<close>

lemma slot_untouched:
  assumes "ok r" and "total r = 0" and "length es \<le> bound" and "length es \<le> k" and "k < slots r"
  shows "slot (fold put es r) k = slot r k"
  using assms(3,4)
proof (induction es rule: rev_induct)
  case (snoc e es)
  let ?f = "fold put es r"
  from snoc.prems have b: "length es \<le> bound" "length es < bound" by simp_all
  note fr = fold_frame [OF assms(1,2) b(1)]
  from snoc.prems have "length es \<le> k" by simp
  with snoc.IH b have same: "slot ?f k = slot r k" by blast
  from snoc.prems assms(5) have "k \<noteq> length es mod slots r" by simp
  moreover have "slot (put e ?f) k =
      (if k = length es mod slots r then stamp r e (Suc (length es)) else slot ?f k)"
    using put_slot [of ?f k e] fr b assms(5) by simp
  ultimately have "slot (put e ?f) k = slot r k" using same by simp
  then show ?case by simp
qed simp

text \<open>Every slot is in one of the two cases, or holds a record of the window.\<close>

lemma slot_cases:
  fixes k n :: nat
  assumes "k < slots r"
  shows "n \<le> k \<or> (\<exists>s. 1 \<le> s \<and> s \<le> n \<and> n < s + slots r \<and> (s - 1) mod slots r = k)"
proof (cases "n \<le> k")
  case False
  let ?c = "slots r"
  define q where "q = (n - 1 - k) div ?c * ?c + k"
  have c: "0 < ?c" using assms by simp
  have "(n - 1 - k) div ?c * ?c + (n - 1 - k) mod ?c = n - 1 - k"
    by (rule div_mult_mod_eq)
  moreover have "(n - 1 - k) mod ?c < ?c" using c by simp
  ultimately have "q < n" "n \<le> q + ?c" using False unfolding q_def by linarith+
  moreover have "q mod ?c = k" using assms unfolding q_def by simp
  ultimately have "1 \<le> Suc q \<and> Suc q \<le> n \<and> n < Suc q + ?c \<and> (Suc q - 1) mod ?c = k" by simp
  then show ?thesis by blast
qed simp

end

end
