(* ===== verification/Flight_Writer.thy ===== *)
theory Flight_Writer
  imports Flight_Format Seq_Ring
begin

text \<open>
  \<open>src/flight_recorder.cpp\<close>, the C++ recorder behind \<open>flightrecorder/client.py\<close>, and its round
  trip through \<open>flightrecorder/format.py\<close>. The mapped file is the record \<open>shm\<close>; integers have
  their C width. \<open>flight_record\<close> is modelled for one thread at a time: its claim, clear, fill and
  publish stores happen without another writer in between.
\<close>

type_synonym u16 = "16 word"
type_synonym u32 = "32 word"
type_synonym u64 = "64 word"

subsection \<open>The mapped file\<close>

record slot_event =
  fe_timestamp_ns :: u64
  fe_seq :: u64
  fe_pid :: u32
  fe_tid :: u32
  fe_device_id :: u16
  fe_rank_id :: u16
  fe_stream_id :: u32
  fe_type :: u16
  fe_flags :: u16
  fe_correlation_id :: u64
  fe_arg0 :: u64
  fe_arg1 :: u64

record shm =
  sh_magic :: u64
  sh_version :: u32
  sh_event_size :: u32
  sh_capacity :: u64
  sh_pid :: u32
  sh_rank :: u16
  sh_device :: u16
  sh_write_seq :: u64
  sh_last_ns :: u64
  sh_started_wall_ns :: u64
  sh_started_mono_ns :: u64
  sh_slots :: "slot_event list"

definition zero_event :: slot_event where
  "zero_event = \<lparr>fe_timestamp_ns = 0, fe_seq = 0, fe_pid = 0, fe_tid = 0, fe_device_id = 0,
     fe_rank_id = 0, fe_stream_id = 0, fe_type = 0, fe_flags = 0, fe_correlation_id = 0,
     fe_arg0 = 0, fe_arg1 = 0\<rparr>"

definition EINVAL :: int where "EINVAL = 22"
definition EOVERFLOW :: int where "EOVERFLOW = 75"

text \<open>
  \<open>flight_init\<close>: \<open>cur\<close> is the global \<open>header\<close> pointer with what it points to, \<open>os\<close> the errno of
  the first of \<open>open\<close>, \<open>ftruncate\<close>, \<open>mmap\<close> that fails. A created file is all zeroes.
\<close>

definition flight_init ::
  "shm option \<Rightarrow> bool \<Rightarrow> int option \<Rightarrow> u32 \<Rightarrow> u64 \<Rightarrow> u64 \<Rightarrow> u16 \<Rightarrow> u16 \<Rightarrow> u64 \<Rightarrow> int \<times> shm option" where
  "flight_init cur path_given os getpid wall_ns mono_ns rank device capacity =
     (if \<not> path_given \<or> capacity < 2 \<or> capacity > 2 ^ 26 \<or> cur \<noteq> None then (EINVAL, cur)
      else if capacity > (0xFFFFFFFFFFFFFFFF - 128) div 64 then (EOVERFLOW, cur)
      else case os of
        Some e \<Rightarrow> (e, cur)
      | None \<Rightarrow> (0, Some
          \<lparr>sh_magic = 0x31524647534e4341, sh_version = 1, sh_event_size = 64,
           sh_capacity = capacity, sh_pid = getpid, sh_rank = rank, sh_device = device,
           sh_write_seq = 0, sh_last_ns = mono_ns, sh_started_wall_ns = wall_ns,
           sh_started_mono_ns = mono_ns, sh_slots = replicate (unat capacity) zero_event\<rparr>))"

text \<open>The arguments of one \<open>flight_record\<close> call with the clock and thread id it observes.\<close>

record record_call =
  rc_type :: u16
  rc_stream :: u32
  rc_correlation :: u64
  rc_arg0 :: u64
  rc_arg1 :: u64
  rc_flags :: u16
  rc_now :: u64
  rc_tid :: u32

definition filled_event :: "shm \<Rightarrow> record_call \<Rightarrow> u64 \<Rightarrow> slot_event" where
  "filled_event m c seq =
     \<lparr>fe_timestamp_ns = rc_now c, fe_seq = seq, fe_pid = sh_pid m, fe_tid = rc_tid c,
      fe_device_id = sh_device m, fe_rank_id = sh_rank m, fe_stream_id = rc_stream c,
      fe_type = rc_type c, fe_flags = rc_flags c, fe_correlation_id = rc_correlation c,
      fe_arg0 = rc_arg0 c, fe_arg1 = rc_arg1 c\<rparr>"

definition store_event :: "record_call \<Rightarrow> shm \<Rightarrow> shm" where
  "store_event c m =
     (let seq = sh_write_seq m + 1
      in m\<lparr>sh_write_seq := seq,
           sh_slots := (sh_slots m)[unat ((seq - 1) mod sh_capacity m) := filled_event m c seq],
           sh_last_ns := rc_now c\<rparr>)"

definition flight_record :: "shm option \<Rightarrow> bool \<Rightarrow> record_call \<Rightarrow> u64 \<times> shm option" where
  "flight_record cur getpid_is_owner c =
     (case cur of
        None \<Rightarrow> (0, None)
      | Some m \<Rightarrow>
          if \<not> getpid_is_owner then (0, cur)
          else (sh_write_seq m + 1, Some (store_event c m)))"

definition flight_close :: "shm option \<Rightarrow> shm option" where
  "flight_close cur = None"

text \<open>The bytes of the file: the two structs as their layout places them.\<close>

definition header_vals :: "shm \<Rightarrow> sval list" where
  "header_vals m =
     [VInt (uint (sh_magic m)), VInt (uint (sh_version m)), VInt (uint (sh_event_size m)),
      VInt (uint (sh_capacity m)), VInt (uint (sh_pid m)), VInt (uint (sh_rank m)),
      VInt (uint (sh_device m)), VInt (uint (sh_write_seq m)), VInt (uint (sh_last_ns m)),
      VInt (uint (sh_started_wall_ns m)), VInt (uint (sh_started_mono_ns m))]"

definition event_vals :: "slot_event \<Rightarrow> sval list" where
  "event_vals e =
     [VInt (uint (fe_timestamp_ns e)), VInt (uint (fe_seq e)), VInt (uint (fe_pid e)),
      VInt (uint (fe_tid e)), VInt (uint (fe_device_id e)), VInt (uint (fe_rank_id e)),
      VInt (uint (fe_stream_id e)), VInt (uint (fe_type e)), VInt (uint (fe_flags e)),
      VInt (uint (fe_correlation_id e)), VInt (uint (fe_arg0 e)), VInt (uint (fe_arg1 e))]"

definition event_bytes :: "slot_event \<Rightarrow> byte list" where
  "event_bytes e = pack_fields EVENT (event_vals e)"

definition file_image :: "shm \<Rightarrow> byte list" where
  "file_image m =
     pack_fields HEADER (header_vals m) @ replicate 64 0 @ concat (map event_bytes (sh_slots m))"

subsection \<open>What the reader sees of an image\<close>

lemma u64_bound: "uint (w :: u64) < 18446744073709551616"
  using uint_lt2p [of w] by simp

lemma u32_bound: "uint (w :: u32) < 4294967296"
  using uint_lt2p [of w] by simp

lemma u16_bound: "uint (w :: u16) < 65536"
  using uint_lt2p [of w] by simp

lemma fits_header: "fits HEADER (header_vals m)"
  by (simp add: HEADER_def header_vals_def u64_bound u32_bound u16_bound)

lemma fits_event: "fits EVENT (event_vals e)"
  by (simp add: EVENT_def event_vals_def u64_bound u32_bound u16_bound)

lemma length_event_bytes [simp]: "length (event_bytes e) = 64"
  by (simp add: event_bytes_def)

lemma length_slot_bytes [simp]: "length (concat (map event_bytes es)) = 64 * length es"
  by (induction es) auto

lemma length_file_image [simp]: "length (file_image m) = 128 + 64 * length (sh_slots m)"
  by (simp add: file_image_def)

lemma take_file_image:
  "take 128 (file_image m) = pack_fields HEADER (header_vals m) @ replicate 64 0"
  by (simp add: file_image_def)

lemma drop_slot_bytes:
  "k \<le> length es \<Longrightarrow> drop (64 * k) (concat (map event_bytes es)) = concat (map event_bytes (drop k es))"
proof (induction k arbitrary: es)
  case (Suc k)
  then obtain e es' where "es = e # es'" by (cases es) auto
  with Suc show ?case by (simp add: mult.commute)
qed simp

lemma unpack_slot:
  assumes "k < length (sh_slots m)"
  shows "unpack_from EVENT (file_image m) (128 + k * 64) = Inr (event_vals (sh_slots m ! k))"
proof -
  have "drop (128 + k * 64) (file_image m) = concat (map event_bytes (drop k (sh_slots m)))"
    using assms drop_slot_bytes [of k "sh_slots m"] by (simp add: file_image_def mult.commute)
  also have "drop k (sh_slots m) = sh_slots m ! k # drop (Suc k) (sh_slots m)"
    using assms by (simp add: Cons_nth_drop_Suc)
  finally show ?thesis
    using assms unpack_fields_pack_append [OF fits_event]
    by (simp add: unpack_from_no_error event_bytes_def)
qed

definition header_view :: "path \<Rightarrow> shm \<Rightarrow> header" where
  "header_view p m =
     \<lparr>hd_path = p, hd_capacity = uint (sh_capacity m), hd_pid = uint (sh_pid m),
      hd_rank = uint (sh_rank m), hd_device = uint (sh_device m),
      hd_write_seq = uint (sh_write_seq m), hd_last_ns = uint (sh_last_ns m),
      hd_started_wall_ns = uint (sh_started_wall_ns m),
      hd_started_mono_ns = uint (sh_started_mono_ns m)\<rparr>"

definition event_view :: "slot_event \<Rightarrow> event" where
  "event_view e =
     \<lparr>ev_timestamp_ns = uint (fe_timestamp_ns e), ev_seq = uint (fe_seq e),
      ev_pid = uint (fe_pid e), ev_tid = uint (fe_tid e), ev_device = uint (fe_device_id e),
      ev_rank = uint (fe_rank_id e), ev_stream = uint (fe_stream_id e),
      ev_type = type_name (uint (fe_type e)), ev_flags = uint (fe_flags e),
      ev_correlation_id = uint (fe_correlation_id e), ev_arg0 = uint (fe_arg0 e),
      ev_arg1 = uint (fe_arg1 e)\<rparr>"

text \<open>An image the reader accepts: the constants of \<open>flight_init\<close> and one slot per unit of capacity.\<close>

definition shm_ok :: "shm \<Rightarrow> bool" where
  "shm_ok m \<longleftrightarrow> sh_magic m = 0x31524647534e4341 \<and> sh_version m = 1 \<and> sh_event_size m = 64 \<and>
     2 \<le> sh_capacity m \<and> length (sh_slots m) = unat (sh_capacity m)"

lemma shm_ok_capacity: "shm_ok m \<Longrightarrow> 2 \<le> uint (sh_capacity m)"
  by (simp add: shm_ok_def word_le_def)

lemma parse_header_image:
  assumes "shm_ok m"
  shows "parse_header p (take 128 (file_image m)) = Inr (header_view p m)"
proof -
  have "unpack_from HEADER (take 128 (file_image m)) 0 = Inr (header_vals m)"
    using unpack_from_pack [OF fits_header, of "[]" m "replicate 64 0"]
    by (simp add: take_file_image)
  moreover have "length (take 128 (file_image m)) = 128" by simp
  ultimately show ?thesis
    using assms shm_ok_capacity [OF assms]
    by (simp add: parse_header_def header_vals_def header_view_def MAGIC_def shm_ok_def)
qed

lemma slot_count_image:
  "shm_ok m \<Longrightarrow> slot_count (header_view p m) (file_image m) = int (length (sh_slots m))"
  by (simp add: slot_count_def header_view_def shm_ok_def)

lemma read_slot_image:
  assumes "k < length (sh_slots m)"
  shows "read_slot (header_view p m) (file_image m) k =
    (let s = uint (fe_seq (sh_slots m ! k))
     in if max 1 (uint (sh_write_seq m) - uint (sh_capacity m) + 1) \<le> s \<and>
           s \<le> uint (sh_write_seq m) \<and> (s - 1) mod uint (sh_capacity m) = int k
        then Inr (Some (event_view (sh_slots m ! k))) else Inr None)"
  using assms by (simp add: read_slot_def unpack_slot event_vals_def header_view_def event_view_def Let_def)

subsection \<open>After any number of calls\<close>

definition fresh_ring :: "shm \<Rightarrow> bool" where
  "fresh_ring m \<longleftrightarrow> shm_ok m \<and> sh_write_seq m = 0 \<and>
     sh_slots m = replicate (unat (sh_capacity m)) zero_event"

lemma flight_init_fresh:
  "flight_init cur ok os pid w t rank device capacity = (0, Some m) \<Longrightarrow> cur = None \<Longrightarrow> fresh_ring m"
  by (auto simp: flight_init_def fresh_ring_def shm_ok_def EINVAL_def EOVERFLOW_def
      split: if_splits option.splits)

lemma unat_add_1: "unat w < 2 ^ 64 - 1 \<Longrightarrow> unat (w + 1 :: u64) = Suc (unat w)"
  by (simp add: unat_word_ariths)

interpretation shm_ring: seq_ring shm_ok store_event "\<lambda>m. unat (sh_write_seq m)"
  "\<lambda>m. length (sh_slots m)" "\<lambda>m k. sh_slots m ! k" "\<lambda>m c s. filled_event m c (of_nat s)"
  "2 ^ 64 - 1"
proof unfold_locales
  fix m :: shm and c k
  assume ok: "shm_ok m"
  have cap: "2 \<le> unat (sh_capacity m)"
    using ok by (simp add: shm_ok_def word_le_nat_alt)
  then show "0 < length (sh_slots m)" using ok by (simp add: shm_ok_def)
  assume total: "unat (sh_write_seq m) < 2 ^ 64 - 1"
  show "shm_ok (store_event c m)"
    using ok by (simp add: store_event_def shm_ok_def Let_def)
  show "unat (sh_write_seq (store_event c m)) = Suc (unat (sh_write_seq m))"
    using unat_add_1 [OF total] by (simp add: store_event_def Let_def)
  show "length (sh_slots (store_event c m)) = length (sh_slots m)"
    by (simp add: store_event_def Let_def)
  show "(\<lambda>c s. filled_event (store_event c' m) c (of_nat s)) = (\<lambda>c s. filled_event m c (of_nat s))"
    for c' by (simp add: store_event_def filled_event_def Let_def)
  have idx: "unat (sh_write_seq m mod sh_capacity m) = unat (sh_write_seq m) mod length (sh_slots m)"
    using ok by (simp add: shm_ok_def unat_mod)
  assume "k < length (sh_slots m)"
  then show "sh_slots (store_event c m) ! k =
      (if k = unat (sh_write_seq m) mod length (sh_slots m)
       then filled_event m c (of_nat (Suc (unat (sh_write_seq m)))) else sh_slots m ! k)"
    using idx by (simp add: store_event_def Let_def nth_list_update add.commute)
qed

text \<open>The whole history of a run, as the reader would show each record.\<close>

definition history :: "shm \<Rightarrow> record_call list \<Rightarrow> event list" where
  "history m cs =
     map (\<lambda>i. event_view (filled_event m (cs ! i) (of_nat (Suc i)))) [0..<length cs]"

lemma history_seq:
  assumes "length cs < 2 ^ 64"
  shows "map ev_seq (history m cs) = map (\<lambda>i. int (Suc i)) [0..<length cs]"
proof -
  have "uint (of_nat (Suc i) :: u64) = int (Suc i)" if "i < length cs" for i
    using that assms by (simp add: unsigned_of_nat take_bit_nat_eq_self del: of_nat_Suc)
  then show ?thesis
    by (simp add: history_def event_view_def filled_event_def del: of_nat_Suc)
qed

lemma take_last_map: "take_last n (map f xs) = map f (take_last n xs)"
  by (simp add: take_last_def drop_map)

lemma take_last_upt: "take_last c [0..<n] = [n - c..<n]"
  by (simp add: take_last_def)

lemma uint_seq: "s < 2 ^ 64 \<Longrightarrow> uint (of_nat s :: u64) = int s"
  by (simp add: unsigned_of_nat take_bit_nat_eq_self)

lemma fresh_frame:
  assumes "fresh_ring m" and "length cs < 2 ^ 64"
  shows "shm_ok (fold store_event cs m)" "unat (sh_write_seq (fold store_event cs m)) = length cs"
    "length (sh_slots (fold store_event cs m)) = length (sh_slots m)"
proof -
  have "shm_ok m" "unat (sh_write_seq m) = 0" "length cs \<le> 2 ^ 64 - 1"
    using assms by (simp_all add: fresh_ring_def)
  note fr = shm_ring.fold_frame [OF this]
  then show "shm_ok (fold store_event cs m)"
    "unat (sh_write_seq (fold store_event cs m)) = length cs"
    "length (sh_slots (fold store_event cs m)) = length (sh_slots m)" by simp_all
qed

text \<open>
  Slot by slot: a slot of the run's image decodes to nothing, or to the one record of the window
  that belongs there; and every record of the window is decoded from its slot.
\<close>

lemma run_slot_decodes:
  assumes fresh: "fresh_ring m" and short: "length cs < 2 ^ 64"
    and i: "i < length cs" "length cs \<le> i + length (sh_slots m)"
  defines "r \<equiv> fold store_event cs m"
  shows "read_slot (header_view p r) (file_image r) (i mod length (sh_slots m)) =
    Inr (Some (history m cs ! i))"
proof -
  have ok: "shm_ok m" "unat (sh_write_seq m) = 0" "length cs \<le> 2 ^ 64 - 1"
    using fresh short by (simp_all add: fresh_ring_def)
  note fr = fresh_frame [OF fresh short, folded r_def]
  have pos: "0 < length (sh_slots m)" using shm_ring.slots_pos [OF ok(1)] .
  have cap: "uint (sh_capacity r) = int (length (sh_slots m))"
    using fr by (simp add: shm_ok_def)
  have n: "uint (sh_write_seq r) = int (length cs)" using fr by (metis uint_nat)
  have ev: "sh_slots r ! (i mod length (sh_slots m)) = filled_event m (cs ! i) (of_nat (Suc i))"
    using shm_ring.slot_window [OF ok, of "Suc i"] i by (simp add: r_def del: of_nat_Suc)
  have sq: "uint (fe_seq (filled_event m (cs ! i) (of_nat (Suc i)))) = int (Suc i)"
    using i short uint_seq [of "Suc i"] by (simp add: filled_event_def del: of_nat_Suc)
  have k: "i mod length (sh_slots m) < length (sh_slots r)" using fr pos by simp
  have "int (Suc i) - 1 = int i" by simp
  with read_slot_image [OF k, of p] i show ?thesis
    by (simp add: ev sq n cap Let_def zmod_int history_def del: of_nat_Suc)
qed

lemma run_slot_cases:
  assumes fresh: "fresh_ring m" and short: "length cs < 2 ^ 64" and k: "k < length (sh_slots m)"
  defines "r \<equiv> fold store_event cs m"
  shows "read_slot (header_view p r) (file_image r) k = Inr None \<or>
    (\<exists>i < length cs. length cs \<le> i + length (sh_slots m) \<and> k = i mod length (sh_slots m))"
proof -
  have ok: "shm_ok m" "unat (sh_write_seq m) = 0" "length cs \<le> 2 ^ 64 - 1"
    using fresh short by (simp_all add: fresh_ring_def)
  note fr = fresh_frame [OF fresh short, folded r_def]
  from shm_ring.slot_cases [OF k, of "length cs"]
  consider "length cs \<le> k"
    | s where "1 \<le> s" "s \<le> length cs" "length cs < s + length (sh_slots m)"
        "(s - 1) mod length (sh_slots m) = k" by blast
  then show ?thesis
  proof cases
    case 1
    with shm_ring.slot_untouched [OF ok 1 k] fresh k
    have "sh_slots r ! k = zero_event"
      by (simp add: r_def fresh_ring_def shm_ok_def)
    with read_slot_image [of k r p] fr k show ?thesis by (simp add: zero_event_def)
  next
    case 2
    then show ?thesis by (intro disjI2 exI [of _ "s - 1"]) auto
  qed
qed

lemma read_events_image:
  assumes "shm_ok m" and "fs p 0 = Inr (file_image m)" and "fs p 1 = Inr (file_image m)"
  shows "read_header fs p = Inr (header_view p m)"
    "\<exists>es. read_events fs p = Inr (header_view p m, es)"
proof -
  show h: "read_header fs p = Inr (header_view p m)"
    using assms(2) parse_header_image [OF assms(1)] by (simp add: read_header_def)
  from collect_slots_no_error [of "header_view p m" "file_image m"] obtain evs
    where "collect (read_slot (header_view p m) (file_image m))
      [0..<nat (slot_count (header_view p m) (file_image m))] = Inr evs" by blast
  with h assms(3) show "\<exists>es. read_events fs p = Inr (header_view p m, es)"
    by (simp add: read_events_def)
qed

lemma read_run:
  assumes fresh: "fresh_ring m" and short: "length cs < 2 ^ 64"
    and bytes: "fs p 0 = Inr (file_image (fold store_event cs m))"
      "fs p 1 = Inr (file_image (fold store_event cs m))"
  shows "read_events fs p = Inr (header_view p (fold store_event cs m),
    take_last (length (sh_slots m)) (history m cs))"
proof -
  define r where "r = fold store_event cs m"
  let ?c = "length (sh_slots m)" and ?n = "length cs"
  note fr = fresh_frame [OF fresh short, folded r_def]
  note bytes = bytes [folded r_def]
  have pos: "0 < ?c" using shm_ring.slots_pos [of m] fresh unfolding fresh_ring_def by blast
  from read_events_image [where fs = fs and p = p, OF fr(1) bytes] obtain es
    where h: "read_header fs p = Inr (header_view p r)"
      and es: "read_events fs p = Inr (header_view p r, es)" by blast
  have cnt: "nat (slot_count (header_view p r) (file_image r)) = ?c"
    using slot_count_image [OF fr(1)] fr(3) by simp
  have mem: "e \<in> set es \<longleftrightarrow> (\<exists>k < ?c. read_slot (header_view p r) (file_image r) k = Inr (Some e))" for e
    using read_events_set [OF h bytes(2) es] cnt by simp
  have lenh: "length (history m cs) = ?n" by (simp add: history_def)
  have set_eq: "set es = set (take_last ?c (history m cs))"
  proof (intro set_eqI iffI)
    fix e assume "e \<in> set es"
    with mem obtain k where k: "k < ?c" "read_slot (header_view p r) (file_image r) k = Inr (Some e)"
      by blast
    with run_slot_cases [OF fresh short k(1), of p, folded r_def] obtain i
      where i: "i < ?n" "?n \<le> i + ?c" "k = i mod ?c" by auto
    with run_slot_decodes [OF fresh short i(1,2), of p, folded r_def] k(2)
    have "e = history m cs ! i" by simp
    moreover have "take_last ?c (history m cs) ! (i - (?n - ?c)) = history m cs ! i"
      "i - (?n - ?c) < length (take_last ?c (history m cs))"
      using i lenh by (simp_all add: take_last_def)
    ultimately show "e \<in> set (take_last ?c (history m cs))" by (metis nth_mem)
  next
    fix e assume "e \<in> set (take_last ?c (history m cs))"
    then obtain j where j: "j < ?n - (?n - ?c)" "e = history m cs ! (?n - ?c + j)"
      using lenh by (auto simp: take_last_def in_set_conv_nth)
    then have i: "?n - ?c + j < ?n" "?n \<le> ?n - ?c + j + ?c" by linarith+
    with run_slot_decodes [OF fresh short i, of p, folded r_def] j(2) pos mem
    show "e \<in> set es" by (metis mod_less_divisor)
  qed
  have sq: "map ev_seq (take_last ?c (history m cs)) = map (\<lambda>i. int (Suc i)) [?n - ?c..<?n]"
    using history_seq [OF short]
    by (metis take_last_map take_last_upt)
  have "es = take_last ?c (history m cs)"
  proof (rule map_sorted_distinct_set_unique [where f = ev_seq])
    show "sorted (map ev_seq es)" "distinct (map ev_seq es)"
      using read_events_strict [OF es] by (simp_all add: strict_sorted_iff)
    show "distinct (map ev_seq (take_last ?c (history m cs)))"
      unfolding sq by (simp add: distinct_map inj_on_def)
    show "sorted (map ev_seq (take_last ?c (history m cs)))"
      unfolding sq by (simp add: sorted_map sorted_wrt_mono_rel [OF _ sorted_upt] del: of_nat_Suc)
    show "inj_on ev_seq (set es \<union> set (take_last ?c (history m cs)))"
      using read_events_strict [OF es] set_eq by (simp add: strict_sorted_iff distinct_map)
  qed (rule set_eq)
  with es show ?thesis by (simp add: r_def)
qed

end
