(* ===== verification/Event_Scan.thy ===== *)
theory Event_Scan
  imports Flight_Format
begin

text \<open>
  The per-rank event loop of \<open>analyze\<close> in \<open>flightrecorder/analyzer.py\<close>: one pass over the events
  of a rank that tracks open host scopes, collective entries, event producers and waits, and the
  checkpoint observations. Each group of \<open>if\<close> statements of the loop body is one definition; the
  loop body composes them. The dictionaries the loop fills are interpretations of \<open>last_write\<close>.
\<close>

unbundle bit_operations_syntax

definition CHECKPOINT_SUBMITTED :: int where "CHECKPOINT_SUBMITTED = 1"
definition CHECKPOINT_POOL_FULL :: int where "CHECKPOINT_POOL_FULL = 2"
definition CHECKPOINT_QUERY_ERROR :: int where "CHECKPOINT_QUERY_ERROR = 4"
definition CHECKPOINT_NOT_READY :: int where "CHECKPOINT_NOT_READY = 8"

lemmas checkpoint_flags = CHECKPOINT_SUBMITTED_def CHECKPOINT_POOL_FULL_def
  CHECKPOINT_QUERY_ERROR_def CHECKPOINT_NOT_READY_def

definition PAIRS :: "(string, string) dict" where
  "PAIRS =
    [(''REQUEST_BEGIN'', ''REQUEST_END''), (''SCHEDULER_BEGIN'', ''SCHEDULER_END''),
     (''MODEL_BEGIN'', ''MODEL_END''), (''GRAPH_BEGIN'', ''GRAPH_END''), (''KV_BEGIN'', ''KV_END''),
     (''PP_SEND_BEGIN'', ''PP_SEND_END''), (''PP_RECV_BEGIN'', ''PP_RECV_END''),
     (''HCCL_BEGIN'', ''HCCL_END''), (''STREAM_SYNC_BEGIN'', ''STREAM_SYNC_END''),
     (''DEVICE_SYNC_BEGIN'', ''DEVICE_SYNC_END'')]"

text \<open>\<open>flags & bits\<close> as a truth value.\<close>

definition has_flag :: "event \<Rightarrow> int \<Rightarrow> bool" where
  "has_flag e bits \<longleftrightarrow> ev_flags e AND bits \<noteq> 0"

subsection \<open>The loop\<close>

type_synonym scope_key = "string \<times> int \<times> int"

record scan =
  sc_groups :: "(int \<times> int, (int, event) dict) dict"
  sc_producers :: "(int \<times> int, event) dict"
  sc_waits :: "event list"
  sc_pending :: "(scope_key, event) dict"
  sc_confirmed :: "event list"
  sc_submitted :: "event list"
  sc_warnings :: "event list"
  sc_not_ready :: "event list"

definition scan_init :: scan where
  "scan_init = \<lparr>sc_groups = [], sc_producers = [], sc_waits = [], sc_pending = [],
     sc_confirmed = [], sc_submitted = [], sc_warnings = [], sc_not_ready = []\<rparr>"

definition scope_step :: "event \<Rightarrow> (scope_key, event) dict \<Rightarrow> (scope_key, event) dict" where
  "scope_step e pending =
     (let typ = ev_type e; corr = ev_correlation_id e
      in if typ \<in> set (dict_keys PAIRS) then dict_set (typ, corr, ev_stream e) e pending
         else if str_endswith typ ''_END''
              then dict_pop (str_replace ''_END'' ''_BEGIN'' typ, corr, ev_stream e) pending
              else pending)"

text \<open>\<open>groups\<close> is a \<open>defaultdict(dict)\<close>: \<open>groups[(arg0, corr)][rank] = e\<close>.\<close>

definition group_step ::
  "int \<times> event \<Rightarrow> (int \<times> int, (int, event) dict) dict \<Rightarrow> (int \<times> int, (int, event) dict) dict" where
  "group_step = (\<lambda>(rank, e) groups.
     if ev_type e = ''HCCL_BEGIN''
     then let key = (ev_arg0 e, ev_correlation_id e);
              entered = (case dict_get groups key of None \<Rightarrow> [] | Some d \<Rightarrow> d)
          in dict_set key (dict_set rank e entered) groups
     else groups)"

definition producer_step :: "int \<times> event \<Rightarrow> (int \<times> int, event) dict \<Rightarrow> (int \<times> int, event) dict" where
  "producer_step = (\<lambda>(rank, e) producers.
     if ev_type e = ''EVENT_RECORD'' then dict_set (rank, ev_correlation_id e) e producers
     else producers)"

definition sync_step :: "int \<Rightarrow> event \<Rightarrow> scan \<Rightarrow> scan" where
  "sync_step rank e s =
     (if ev_type e = ''EVENT_RECORD'' then s\<lparr>sc_producers := producer_step (rank, e) (sc_producers s)\<rparr>
      else if ev_type e = ''EVENT_WAIT'' then s\<lparr>sc_waits := sc_waits s @ [e]\<rparr>
      else if ev_type e = ''DEVICE_CONFIRMED'' then s\<lparr>sc_confirmed := sc_confirmed s @ [e]\<rparr>
      else s)"

definition checkpoint_step :: "event \<Rightarrow> scan \<Rightarrow> scan" where
  "checkpoint_step e s =
     (if ev_type e = ''CHECKPOINT'' then
        s\<lparr>sc_submitted := sc_submitted s @ (if has_flag e CHECKPOINT_SUBMITTED then [e] else []),
          sc_warnings := sc_warnings s @
            (if has_flag e (CHECKPOINT_POOL_FULL OR CHECKPOINT_QUERY_ERROR) then [e] else []),
          sc_not_ready := sc_not_ready s @ (if has_flag e CHECKPOINT_NOT_READY then [e] else [])\<rparr>
      else s)"

definition scan_event :: "int \<Rightarrow> event \<Rightarrow> scan \<Rightarrow> scan" where
  "scan_event rank e s =
     (let s = s\<lparr>sc_pending := scope_step e (sc_pending s)\<rparr>;
          s = s\<lparr>sc_groups := group_step (rank, e) (sc_groups s)\<rparr>;
          s = sync_step rank e s
      in checkpoint_step e s)"

text \<open>The lists and the dictionary of open scopes are fresh for each rank, the rest accumulates.\<close>

definition scan_reset :: "scan \<Rightarrow> scan" where
  "scan_reset s = s\<lparr>sc_pending := [], sc_confirmed := [], sc_submitted := [], sc_warnings := [],
     sc_not_ready := []\<rparr>"

definition scan_rank :: "int \<Rightarrow> event list \<Rightarrow> scan \<Rightarrow> scan" where
  "scan_rank rank ev s = fold (scan_event rank) ev (scan_reset s)"

subsection \<open>Field by field\<close>

text \<open>The loop body touches each field independently of the others.\<close>

lemma scan_event_fields:
  "sc_pending (scan_event rank e s) = scope_step e (sc_pending s)"
  "sc_groups (scan_event rank e s) = group_step (rank, e) (sc_groups s)"
  "sc_producers (scan_event rank e s) = producer_step (rank, e) (sc_producers s)"
  "sc_waits (scan_event rank e s) = sc_waits s @ (if ev_type e = ''EVENT_WAIT'' then [e] else [])"
  "sc_confirmed (scan_event rank e s) =
     sc_confirmed s @ (if ev_type e = ''DEVICE_CONFIRMED'' then [e] else [])"
  "sc_submitted (scan_event rank e s) = sc_submitted s @
     (if ev_type e = ''CHECKPOINT'' \<and> has_flag e CHECKPOINT_SUBMITTED then [e] else [])"
  "sc_warnings (scan_event rank e s) = sc_warnings s @
     (if ev_type e = ''CHECKPOINT'' \<and>
         has_flag e (CHECKPOINT_POOL_FULL OR CHECKPOINT_QUERY_ERROR) then [e] else [])"
  "sc_not_ready (scan_event rank e s) = sc_not_ready s @
     (if ev_type e = ''CHECKPOINT'' \<and> has_flag e CHECKPOINT_NOT_READY then [e] else [])"
  by (simp_all add: scan_event_def sync_step_def checkpoint_step_def producer_step_def Let_def)

lemma fold_scan_event_fields:
  "sc_pending (fold (scan_event rank) ev s) = fold scope_step ev (sc_pending s)"
  "sc_groups (fold (scan_event rank) ev s) = fold group_step (map (Pair rank) ev) (sc_groups s)"
  "sc_producers (fold (scan_event rank) ev s) =
     fold producer_step (map (Pair rank) ev) (sc_producers s)"
  "sc_waits (fold (scan_event rank) ev s) =
     sc_waits s @ filter (\<lambda>e. ev_type e = ''EVENT_WAIT'') ev"
  "sc_confirmed (fold (scan_event rank) ev s) =
     sc_confirmed s @ filter (\<lambda>e. ev_type e = ''DEVICE_CONFIRMED'') ev"
  "sc_submitted (fold (scan_event rank) ev s) = sc_submitted s @
     filter (\<lambda>e. ev_type e = ''CHECKPOINT'' \<and> has_flag e CHECKPOINT_SUBMITTED) ev"
  "sc_warnings (fold (scan_event rank) ev s) = sc_warnings s @
     filter (\<lambda>e. ev_type e = ''CHECKPOINT'' \<and>
       has_flag e (CHECKPOINT_POOL_FULL OR CHECKPOINT_QUERY_ERROR)) ev"
  "sc_not_ready (fold (scan_event rank) ev s) = sc_not_ready s @
     filter (\<lambda>e. ev_type e = ''CHECKPOINT'' \<and> has_flag e CHECKPOINT_NOT_READY) ev"
  by (induction ev arbitrary: s) (simp_all add: scan_event_fields)

lemma scan_rank_fields:
  "sc_pending (scan_rank rank ev s) = fold scope_step ev []"
  "sc_groups (scan_rank rank ev s) = fold group_step (map (Pair rank) ev) (sc_groups s)"
  "sc_producers (scan_rank rank ev s) = fold producer_step (map (Pair rank) ev) (sc_producers s)"
  "sc_waits (scan_rank rank ev s) = sc_waits s @ filter (\<lambda>e. ev_type e = ''EVENT_WAIT'') ev"
  "sc_confirmed (scan_rank rank ev s) = filter (\<lambda>e. ev_type e = ''DEVICE_CONFIRMED'') ev"
  "sc_submitted (scan_rank rank ev s) =
     filter (\<lambda>e. ev_type e = ''CHECKPOINT'' \<and> has_flag e CHECKPOINT_SUBMITTED) ev"
  "sc_warnings (scan_rank rank ev s) =
     filter (\<lambda>e. ev_type e = ''CHECKPOINT'' \<and>
       has_flag e (CHECKPOINT_POOL_FULL OR CHECKPOINT_QUERY_ERROR)) ev"
  "sc_not_ready (scan_rank rank ev s) =
     filter (\<lambda>e. ev_type e = ''CHECKPOINT'' \<and> has_flag e CHECKPOINT_NOT_READY) ev"
  by (simp_all add: scan_rank_def fold_scan_event_fields scan_reset_def)

subsection \<open>Open scopes\<close>

text \<open>
  The types the reader can produce. On these, removing a scope by \<open>replace("_END", "_BEGIN")\<close> is
  the inverse of the table \<open>PAIRS\<close>.
\<close>

lemma decoded_type_cases:
  assumes "decoded_type t"
  obtains "t \<in> set NAMES" | n where "t = ''TYPE_'' @ str_int n"
  using assms by (auto simp: decoded_type_def type_name_def split: if_splits)

lemma str_endswith_last: "str_endswith s suf \<Longrightarrow> suf \<noteq> [] \<Longrightarrow> last s = last suf"
  by (metis str_endswith_def append_take_drop_id last_appendR)

lemma fallback_not_end: "\<not> str_endswith (''TYPE_'' @ str_int n) ''_END''"
proof
  assume "str_endswith (''TYPE_'' @ str_int n) ''_END''"
  then have "last (str_int n) = CHR ''D''"
    using str_endswith_last by fastforce
  then have "CHR ''D'' \<in> set (str_int n)" by (metis last_in_set str_int_nonempty)
  from str_int_chars [OF this] show False by (simp add: is_digit_def)
qed

lemma fallback_not_pair: "''TYPE_'' @ t \<notin> set (dict_keys PAIRS)" "dict_get PAIRS b \<noteq> Some (''TYPE_'' @ t)"
  by (auto simp: PAIRS_def)

lemma names_end_iff:
  "\<forall>t \<in> set NAMES. \<forall>b \<in> set (dict_keys PAIRS).
     (t \<notin> set (dict_keys PAIRS) \<and> str_endswith t ''_END'' \<and> str_replace ''_END'' ''_BEGIN'' t = b)
     \<longleftrightarrow> dict_get PAIRS b = Some t"
  by code_simp

lemma closing_type_iff:
  assumes "decoded_type t" and "b \<in> set (dict_keys PAIRS)"
  shows "t \<notin> set (dict_keys PAIRS) \<and> str_endswith t ''_END'' \<and>
      str_replace ''_END'' ''_BEGIN'' t = b \<longleftrightarrow> dict_get PAIRS b = Some t"
  using assms(1)
proof (cases rule: decoded_type_cases)
  case 1
  with names_end_iff assms(2) show ?thesis by blast
next
  case (2 n)
  with fallback_not_end fallback_not_pair show ?thesis by metis
qed

definition scope_key_of :: "event \<Rightarrow> scope_key" where
  "scope_key_of e = (ev_type e, ev_correlation_id e, ev_stream e)"

definition scope_eff :: "event \<Rightarrow> scope_key \<Rightarrow> event option option" where
  "scope_eff e k =
     (if ev_type e \<in> set (dict_keys PAIRS) then (if k = scope_key_of e then Some (Some e) else None)
      else if str_endswith (ev_type e) ''_END'' \<and>
              k = (str_replace ''_END'' ''_BEGIN'' (ev_type e), ev_correlation_id e, ev_stream e)
           then Some None else None)"

interpretation scopes: last_write scope_step dict_get scope_eff
  by unfold_locales
    (simp add: scope_step_def scope_eff_def scope_key_of_def Let_def py_dict)

lemma distinct_scopes: "distinct (dict_keys d) \<Longrightarrow> distinct (dict_keys (fold scope_step ev d))"
proof (induction ev arbitrary: d)
  case (Cons e ev)
  have "distinct (dict_keys (scope_step e d))"
    using Cons.prems by (simp add: scope_step_def Let_def distinct_update distinct_delete)
  with Cons.IH show ?case by simp
qed simp

text \<open>\<open>x\<close> ends the scope that \<open>e\<close> opened, or opens it again.\<close>

definition supersedes :: "event \<Rightarrow> event \<Rightarrow> bool" where
  "supersedes x e \<longleftrightarrow> ev_correlation_id x = ev_correlation_id e \<and> ev_stream x = ev_stream e \<and>
     (ev_type x = ev_type e \<or> dict_get PAIRS (ev_type e) = Some (ev_type x))"

lemma scope_eff_supersedes:
  assumes "ev_type e \<in> set (dict_keys PAIRS)" and "decoded_type (ev_type x)"
  shows "scope_eff x (scope_key_of e) \<noteq> None \<longleftrightarrow> supersedes x e"
proof (cases "ev_type x \<in> set (dict_keys PAIRS)")
  case True
  then have "scope_eff x (scope_key_of e) \<noteq> None \<longleftrightarrow> scope_key_of e = scope_key_of x"
    by (simp add: scope_eff_def)
  moreover have "dict_get PAIRS (ev_type e) \<noteq> Some (ev_type x)"
    using closing_type_iff [OF assms(2,1)] True by blast
  ultimately show ?thesis by (auto simp: scope_key_of_def supersedes_def)
next
  case False
  then have "scope_eff x (scope_key_of e) \<noteq> None \<longleftrightarrow>
      (str_endswith (ev_type x) ''_END'' \<and> str_replace ''_END'' ''_BEGIN'' (ev_type x) = ev_type e) \<and>
      ev_correlation_id x = ev_correlation_id e \<and> ev_stream x = ev_stream e"
    by (simp add: scope_eff_def scope_key_of_def) metis
  also have "\<dots> \<longleftrightarrow> dict_get PAIRS (ev_type e) = Some (ev_type x) \<and>
      ev_correlation_id x = ev_correlation_id e \<and> ev_stream x = ev_stream e"
    using closing_type_iff [OF assms(2,1)] False by blast
  also have "\<dots> \<longleftrightarrow> supersedes x e"
  proof -
    have "ev_type x \<noteq> ev_type e" using False assms(1) by metis
    then show ?thesis by (auto simp: supersedes_def)
  qed
  finally show ?thesis .
qed

lemma open_scopes_iff:
  assumes "\<forall>x \<in> set ev. decoded_type (ev_type x)"
  shows "e \<in> set (dict_values (sc_pending (scan_rank rank ev s))) \<longleftrightarrow>
    (\<exists>pre post. ev = pre @ e # post \<and> ev_type e \<in> set (dict_keys PAIRS) \<and>
       (\<forall>x \<in> set post. \<not> supersedes x e))"
    (is "?L \<longleftrightarrow> ?R")
proof -
  have eff: "scope_eff x k = Some (Some e) \<longleftrightarrow>
      x = e \<and> ev_type e \<in> set (dict_keys PAIRS) \<and> k = scope_key_of e" for x k
    by (auto simp: scope_eff_def split: if_splits)
  have "?L \<longleftrightarrow> (\<exists>k. dict_get (fold scope_step ev []) k = Some e)"
    using dict_values_get [OF distinct_scopes, of "[]" e ev] by (simp add: scan_rank_fields)
  also have "\<dots> \<longleftrightarrow> (\<exists>k pre x post. ev = pre @ x # post \<and> scope_eff x k = Some (Some e) \<and>
      (\<forall>y \<in> set post. scope_eff y k = None))"
    using scopes.get_fold_Some_iff [of "[]"] by simp
  also have "\<dots> \<longleftrightarrow> (\<exists>pre post. ev = pre @ e # post \<and> ev_type e \<in> set (dict_keys PAIRS) \<and>
      (\<forall>y \<in> set post. scope_eff y (scope_key_of e) = None))"
    unfolding eff by blast
  also have "\<dots> \<longleftrightarrow> ?R"
  proof -
    have "(\<forall>y \<in> set post. scope_eff y (scope_key_of e) = None) \<longleftrightarrow>
        (\<forall>y \<in> set post. \<not> supersedes y e)"
      if "ev = pre @ e # post" "ev_type e \<in> set (dict_keys PAIRS)" for pre post
    proof (rule ball_cong [OF refl])
      fix y assume "y \<in> set post"
      with that(1) assms have "decoded_type (ev_type y)" by simp
      from scope_eff_supersedes [OF that(2) this]
      show "scope_eff y (scope_key_of e) = None \<longleftrightarrow> \<not> supersedes y e" by blast
    qed
    then show ?thesis by blast
  qed
  finally show ?thesis .
qed

subsection \<open>Collective entries and event producers\<close>

definition group_get ::
  "(int \<times> int, (int, event) dict) dict \<Rightarrow> int \<times> int \<times> int \<Rightarrow> event option" where
  "group_get groups = (\<lambda>(comm, op_id, rank).
     case dict_get groups (comm, op_id) of None \<Rightarrow> None | Some d \<Rightarrow> dict_get d rank)"

definition group_eff :: "int \<times> event \<Rightarrow> int \<times> int \<times> int \<Rightarrow> event option option" where
  "group_eff = (\<lambda>(rank, e) k.
     if ev_type e = ''HCCL_BEGIN'' \<and> k = (ev_arg0 e, ev_correlation_id e, rank)
     then Some (Some e) else None)"

interpretation entries: ranked_write group_step group_get group_eff "\<lambda>(comm, op_id, rank). rank"
  by unfold_locales
    (auto simp: group_step_def group_get_def group_eff_def Let_def py_dict split: option.splits)

definition producer_eff :: "int \<times> event \<Rightarrow> int \<times> int \<Rightarrow> event option option" where
  "producer_eff = (\<lambda>(rank, e) k.
     if ev_type e = ''EVENT_RECORD'' \<and> k = (rank, ev_correlation_id e) then Some (Some e) else None)"

interpretation producers: ranked_write producer_step dict_get producer_eff fst
  by unfold_locales (auto simp: producer_step_def producer_eff_def py_dict)

end
