(* ===== verification/Checkpoint_Progress.thy ===== *)
theory Checkpoint_Progress
  imports Event_Scan
begin

text \<open>
  Device checkpoint progress of one rank, as \<open>analyze\<close> in \<open>flightrecorder/analyzer.py\<close> computes
  it from the lists the event loop collected: exact confirmations, the per-stream completion
  watermark with its mappings, and the confirmations that match nothing. A checkpoint is named by
  stream, checkpoint id, submitted sequence and generation; only a confirmation equal in all four
  counts.
\<close>

subsection \<open>Exact confirmations\<close>

type_synonym checkpoint_key = "int \<times> int \<times> int \<times> int"

definition checkpoint_key :: "event \<Rightarrow> checkpoint_key" where
  "checkpoint_key e = (ev_stream e, ev_correlation_id e, ev_arg0 e, ev_arg1 e)"

definition confirm_step :: "event \<Rightarrow> (checkpoint_key, event) dict \<Rightarrow> (checkpoint_key, event) dict" where
  "confirm_step e d = (if ev_arg1 e \<noteq> 0 then dict_set (checkpoint_key e) e d else d)"

definition exact_confirmations :: "event list \<Rightarrow> (checkpoint_key, event) dict" where
  "exact_confirmations confirmed = fold confirm_step confirmed []"

definition confirm_eff :: "event \<Rightarrow> checkpoint_key \<Rightarrow> event option option" where
  "confirm_eff e k = (if ev_arg1 e \<noteq> 0 \<and> k = checkpoint_key e then Some (Some e) else None)"

interpretation confirms: last_write confirm_step dict_get confirm_eff
  by unfold_locales (simp add: confirm_step_def confirm_eff_def py_dict)

lemma exact_confirmations_Some:
  "dict_get (exact_confirmations confirmed) k = Some e \<Longrightarrow>
    e \<in> set confirmed \<and> ev_arg1 e \<noteq> 0 \<and> checkpoint_key e = k"
  using confirms.get_fold_Some_iff [of "[]" k confirmed e]
  by (auto simp: exact_confirmations_def confirm_eff_def split: if_splits)

lemma exact_confirmations_None:
  "dict_get (exact_confirmations confirmed) k = None \<longleftrightarrow>
    (\<forall>e \<in> set confirmed. ev_arg1 e \<noteq> 0 \<longrightarrow> checkpoint_key e \<noteq> k)"
  using confirms.get_fold_cases [of confirmed k "[]"]
  by (fastforce simp: exact_confirmations_def confirm_eff_def split: if_splits)

text \<open>Only confirmations with the keys one asks for matter.\<close>

lemma exact_confirmations_filter:
  assumes "k \<in> K"
  shows "dict_get (exact_confirmations (filter (\<lambda>e. ev_arg1 e \<noteq> 0 \<and> checkpoint_key e \<in> K) confirmed)) k
    = dict_get (exact_confirmations confirmed) k"
proof (induction confirmed rule: rev_induct)
  case (snoc e confirmed)
  then show ?case
    using assms by (auto simp: exact_confirmations_def confirms.get_step confirm_eff_def)
qed simp

subsection \<open>Progress of a stream\<close>

record mapping =
  mp_submitted_seq :: int
  mp_checkpoint_id :: int
  mp_generation :: int
  mp_status :: string
  mp_confirmation_record_seq :: "int option"

record stream_progress =
  pr_submitted_count :: int
  pr_explicitly_confirmed_count :: int
  pr_submitted_seq :: int
  pr_completed_seq :: int
  pr_confirmed_through :: "event option"
  pr_first_unconfirmed :: "event option"
  pr_last_unconfirmed :: "event option"
  pr_unconfirmed_count :: int
  pr_not_ready_observed :: int
  pr_checkpoint_mappings :: "mapping list"

definition by_stream :: "event list \<Rightarrow> (int, event list) dict" where
  "by_stream submitted = fold (\<lambda>e. dict_append (ev_stream e) e) submitted []"

definition confirmed_indices :: "(checkpoint_key, event) dict \<Rightarrow> event list \<Rightarrow> nat list" where
  "confirmed_indices exact checkpoints =
     filter (\<lambda>i. checkpoint_key (checkpoints ! i) \<in> set (dict_keys exact)) [0..<length checkpoints]"

definition last_confirmed :: "(checkpoint_key, event) dict \<Rightarrow> event list \<Rightarrow> int" where
  "last_confirmed exact checkpoints =
     (let idx = confirmed_indices exact checkpoints
      in if idx \<noteq> [] then int (Max (set idx)) else -1)"

definition checkpoint_mapping ::
  "(checkpoint_key, event) dict \<Rightarrow> event list \<Rightarrow> int \<Rightarrow> nat \<Rightarrow> mapping" where
  "checkpoint_mapping exact checkpoints last_index i =
     (let checkpoint = checkpoints ! i;
          confirmation = dict_get exact (checkpoint_key checkpoint);
          status = (if confirmation \<noteq> None then ''confirmed_exact''
                    else if int i \<le> last_index then ''confirmed_by_later_checkpoint''
                    else ''unconfirmed'')
      in \<lparr>mp_submitted_seq = ev_arg0 checkpoint, mp_checkpoint_id = ev_correlation_id checkpoint,
          mp_generation = ev_arg1 checkpoint, mp_status = status,
          mp_confirmation_record_seq = map_option ev_seq confirmation\<rparr>)"

definition stream_progress_of ::
  "(checkpoint_key, event) dict \<Rightarrow> event list \<Rightarrow> event list \<Rightarrow> stream_progress" where
  "stream_progress_of exact not_ready unsorted =
     (let checkpoints = sort_key ev_seq unsorted;
          last_index = last_confirmed exact checkpoints;
          after = drop (nat (last_index + 1)) checkpoints
      in \<lparr>pr_submitted_count = int (length checkpoints),
          pr_explicitly_confirmed_count = int (length (confirmed_indices exact checkpoints)),
          pr_submitted_seq = ev_arg0 (last checkpoints),
          pr_completed_seq =
            (if last_index \<ge> 0 then ev_arg0 (checkpoints ! nat last_index) else 0),
          pr_confirmed_through =
            (if last_index \<ge> 0 then Some (checkpoints ! nat last_index) else None),
          pr_first_unconfirmed = (if after \<noteq> [] then Some (hd after) else None),
          pr_last_unconfirmed = last_opt after,
          pr_unconfirmed_count = int (length after),
          pr_not_ready_observed =
            int (length (filter (\<lambda>e. \<exists>n \<in> set not_ready. checkpoint_key n = checkpoint_key e) after)),
          pr_checkpoint_mappings =
            map (checkpoint_mapping exact checkpoints last_index) [0..<length checkpoints]\<rparr>)"

definition rank_progress ::
  "event list \<Rightarrow> event list \<Rightarrow> event list \<Rightarrow> (int, stream_progress) dict" where
  "rank_progress submitted confirmed not_ready =
     (let exact = exact_confirmations confirmed
      in map (\<lambda>(stream, cps). (stream, stream_progress_of exact not_ready cps))
           (by_stream submitted))"

definition stale_confirmations :: "event list \<Rightarrow> event list \<Rightarrow> event list" where
  "stale_confirmations submitted confirmed =
     filter (\<lambda>e. ev_arg1 e \<noteq> 0 \<and> checkpoint_key e \<notin> checkpoint_key ` set submitted) confirmed"

subsection \<open>The watermark\<close>

lemma dict_list_by_stream:
  "dict_list (by_stream submitted) k = filter (\<lambda>e. ev_stream e = k) submitted"
proof (induction submitted rule: rev_induct)
  case Nil
  then show ?case by (simp add: by_stream_def dict_list_def)
next
  case (snoc e submitted)
  then show ?case by (auto simp: by_stream_def py_dict)
qed

lemma distinct_by_stream: "distinct (dict_keys (by_stream submitted))"
  by (induction submitted rule: rev_induct) (simp_all add: by_stream_def distinct_dict_append)

lemma keys_by_stream: "set (dict_keys (by_stream submitted)) = ev_stream ` set submitted"
proof (induction submitted rule: rev_induct)
  case (snoc e submitted)
  then show ?case by (simp add: by_stream_def dict_keys_append)
qed (simp add: by_stream_def)

lemma by_stream_entry:
  assumes "(k, cps) \<in> set (by_stream submitted)"
  shows "cps = filter (\<lambda>e. ev_stream e = k) submitted" "cps \<noteq> []"
proof -
  have "dict_get (by_stream submitted) k = Some cps"
    using assms distinct_by_stream by simp
  then show cps: "cps = filter (\<lambda>e. ev_stream e = k) submitted"
    using dict_list_by_stream [of submitted k] by (simp add: dict_list_def)
  have "k \<in> ev_stream ` set submitted"
    using assms keys_by_stream by force
  then show "cps \<noteq> []" unfolding cps by (auto simp: filter_empty_conv)
qed

lemma last_confirmed_split:
  obtains before after where "checkpoints = before @ after"
    and "last_confirmed exact checkpoints = int (length before) - 1"
    and "before \<noteq> [] \<longrightarrow> checkpoint_key (last before) \<in> set (dict_keys exact)"
    and "\<forall>e \<in> set after. checkpoint_key e \<notin> set (dict_keys exact)"
proof -
  let ?idx = "confirmed_indices exact checkpoints"
  have mem: "i \<in> set ?idx \<longleftrightarrow> i < length checkpoints \<and>
      checkpoint_key (checkpoints ! i) \<in> set (dict_keys exact)" for i
    unfolding confirmed_indices_def by auto
  show thesis
  proof (cases "?idx = []")
    case True
    then have "\<forall>e \<in> set checkpoints. checkpoint_key e \<notin> set (dict_keys exact)"
      using mem by (metis empty_iff in_set_conv_nth list.set(1))
    with True show thesis
      by (intro that [of "[]" checkpoints]) (simp_all add: last_confirmed_def)
  next
    case False
    define m where "m = Max (set ?idx)"
    have "m \<in> set ?idx" using False unfolding m_def by simp
    then have m: "m < length checkpoints"
      "checkpoint_key (checkpoints ! m) \<in> set (dict_keys exact)" using mem by blast+
    have above: "i \<le> m" if "i \<in> set ?idx" for i
      using that unfolding m_def by simp
    have "last (take (Suc m) checkpoints) = checkpoints ! m"
      using m(1) by (simp add: take_Suc_conv_app_nth)
    moreover have "checkpoint_key e \<notin> set (dict_keys exact)"
      if "e \<in> set (drop (Suc m) checkpoints)" for e
    proof -
      from that obtain j where j: "j < length checkpoints - Suc m"
        "e = checkpoints ! (Suc m + j)" by (auto simp: in_set_conv_nth)
      then have "Suc m + j \<notin> set ?idx" using above by fastforce
      with j mem show ?thesis by auto
    qed
    moreover have "last_confirmed exact checkpoints = int m"
      using False by (simp add: last_confirmed_def m_def)
    ultimately show thesis
      using m by (intro that [of "take (Suc m) checkpoints" "drop (Suc m) checkpoints"]) simp_all
  qed
qed

text \<open>A checkpoint counts as confirmed when some confirmation with a generation has its key.\<close>

definition confirmed_by :: "event list \<Rightarrow> event \<Rightarrow> bool" where
  "confirmed_by confirmed e \<longleftrightarrow>
     (\<exists>c \<in> set confirmed. ev_arg1 c \<noteq> 0 \<and> checkpoint_key c = checkpoint_key e)"

lemma exact_get_iff:
  "dict_get (exact_confirmations confirmed) (checkpoint_key e) \<noteq> None \<longleftrightarrow> confirmed_by confirmed e"
  by (auto simp: exact_confirmations_None confirmed_by_def)

lemma exact_keys_iff:
  "checkpoint_key e \<in> set (dict_keys (exact_confirmations confirmed)) \<longleftrightarrow> confirmed_by confirmed e"
proof -
  have "checkpoint_key e \<in> set (dict_keys (exact_confirmations confirmed)) \<longleftrightarrow>
      dict_get (exact_confirmations confirmed) (checkpoint_key e) \<noteq> None"
    by (simp only: map_of_eq_None_iff set_map not_not)
  then show ?thesis by (simp only: exact_get_iff)
qed

definition stream_checkpoints :: "event list \<Rightarrow> int \<Rightarrow> event list" where
  "stream_checkpoints submitted k = sort_key ev_seq (filter (\<lambda>e. ev_stream e = k) submitted)"

lemma rank_progress_entry:
  assumes "(k, p) \<in> set (rank_progress submitted confirmed not_ready)"
  shows "p = stream_progress_of (exact_confirmations confirmed) not_ready
      (filter (\<lambda>e. ev_stream e = k) submitted)"
    and "stream_checkpoints submitted k \<noteq> []"
proof -
  from assms obtain cps where cps: "(k, cps) \<in> set (by_stream submitted)"
    and p: "p = stream_progress_of (exact_confirmations confirmed) not_ready cps"
    by (auto simp: rank_progress_def Let_def)
  from p show "p = stream_progress_of (exact_confirmations confirmed) not_ready
      (filter (\<lambda>e. ev_stream e = k) submitted)"
    unfolding by_stream_entry(1) [OF cps] .
  from by_stream_entry [OF cps] show "stream_checkpoints submitted k \<noteq> []"
    unfolding stream_checkpoints_def by (metis length_0_conv length_sort)
qed

lemma progress_watermark:
  assumes "(k, p) \<in> set (rank_progress submitted confirmed not_ready)"
  obtains before after where "stream_checkpoints submitted k = before @ after"
    and "before \<noteq> [] \<longrightarrow> confirmed_by confirmed (last before)"
    and "\<forall>e \<in> set after. \<not> confirmed_by confirmed e"
    and "pr_completed_seq p = (if before = [] then 0 else ev_arg0 (last before))"
    and "pr_confirmed_through p = last_opt before"
    and "pr_first_unconfirmed p = (if after = [] then None else Some (hd after))"
    and "pr_last_unconfirmed p = last_opt after"
    and "pr_unconfirmed_count p = int (length after)"
proof -
  let ?exact = "exact_confirmations confirmed" and ?cps = "stream_checkpoints submitted k"
  obtain before after where split: "?cps = before @ after"
    and last: "last_confirmed ?exact ?cps = int (length before) - 1"
    and conf: "before \<noteq> [] \<longrightarrow> checkpoint_key (last before) \<in> set (dict_keys ?exact)"
    and unconf: "\<forall>e \<in> set after. checkpoint_key e \<notin> set (dict_keys ?exact)"
    by (rule last_confirmed_split [where checkpoints = ?cps and exact = ?exact])
  have drop: "drop (nat (last_confirmed ?exact ?cps + 1)) ?cps = after"
    using last split by simp
  have at: "last_confirmed ?exact ?cps \<ge> 0 \<longleftrightarrow> before \<noteq> []"
    "before \<noteq> [] \<Longrightarrow> ?cps ! nat (last_confirmed ?exact ?cps) = last before"
    using last split by (cases before rule: rev_cases; simp add: nth_append)+
  have p: "p = stream_progress_of ?exact not_ready (filter (\<lambda>e. ev_stream e = k) submitted)"
    using rank_progress_entry [OF assms] by simp
  show thesis
  proof (rule that [OF split])
    show "before \<noteq> [] \<longrightarrow> confirmed_by confirmed (last before)"
      using conf unfolding exact_keys_iff .
    show "\<forall>e \<in> set after. \<not> confirmed_by confirmed e"
      using unconf unfolding exact_keys_iff .
  qed (unfold p stream_progress_of_def Let_def stream_checkpoints_def [symmetric] drop,
       auto simp: at last_opt_def)
qed

lemma mapping_status:
  assumes "i < length checkpoints"
  shows "mp_status (checkpoint_mapping (exact_confirmations confirmed) checkpoints
      (last_confirmed (exact_confirmations confirmed) checkpoints) i) =
    (if confirmed_by confirmed (checkpoints ! i) then ''confirmed_exact''
     else if \<exists>j. i < j \<and> j < length checkpoints \<and> confirmed_by confirmed (checkpoints ! j)
          then ''confirmed_by_later_checkpoint'' else ''unconfirmed'')"
proof -
  let ?exact = "exact_confirmations confirmed"
  obtain before after where split: "checkpoints = before @ after"
    and last: "last_confirmed ?exact checkpoints = int (length before) - 1"
    and conf: "before \<noteq> [] \<longrightarrow> checkpoint_key (last before) \<in> set (dict_keys ?exact)"
    and unconf: "\<forall>e \<in> set after. checkpoint_key e \<notin> set (dict_keys ?exact)"
    by (rule last_confirmed_split [where checkpoints = checkpoints and exact = ?exact])
  have "int i \<le> last_confirmed ?exact checkpoints \<longleftrightarrow>
      (\<exists>j. i < j \<and> j < length checkpoints \<and> confirmed_by confirmed (checkpoints ! j))"
    if nc: "\<not> confirmed_by confirmed (checkpoints ! i)"
  proof
    assume "int i \<le> last_confirmed ?exact checkpoints"
    then have b: "i < length before" using last by simp
    then have l: "last before = checkpoints ! (length before - 1)"
      using split by (cases before rule: rev_cases) (simp_all add: nth_append)
    have "confirmed_by confirmed (last before)" using conf b exact_keys_iff by fastforce
    with l nc b have "i < length before - 1"
      by (metis Suc_leI diff_Suc_1 le_neq_implies_less less_Suc_eq_le not_less_eq_eq Suc_pred' gr_implies_not0 neq0_conv)
    with l \<open>confirmed_by confirmed (last before)\<close> split
    show "\<exists>j. i < j \<and> j < length checkpoints \<and> confirmed_by confirmed (checkpoints ! j)"
      by (intro exI [of _ "length before - 1"]) simp
  next
    assume "\<exists>j. i < j \<and> j < length checkpoints \<and> confirmed_by confirmed (checkpoints ! j)"
    then obtain j where j: "i < j" "j < length checkpoints" "confirmed_by confirmed (checkpoints ! j)"
      by blast
    have "j < length before"
    proof (rule ccontr)
      assume "\<not> j < length before"
      with j(2) split have "checkpoints ! j \<in> set after" by (simp add: nth_append)
      with unconf j(3) exact_keys_iff show False by blast
    qed
    with j(1) last show "int i \<le> last_confirmed ?exact checkpoints" by simp
  qed
  then show ?thesis
    using exact_get_iff [of confirmed "checkpoints ! i"]
    by (simp add: checkpoint_mapping_def Let_def)
qed

lemma rank_progress_stale_irrelevant:
  "rank_progress submitted
      (filter (\<lambda>e. ev_arg1 e \<noteq> 0 \<and> checkpoint_key e \<in> checkpoint_key ` set submitted) confirmed)
      not_ready
   = rank_progress submitted confirmed not_ready"
proof -
  let ?K = "checkpoint_key ` set submitted"
  let ?c' = "filter (\<lambda>e. ev_arg1 e \<noteq> 0 \<and> checkpoint_key e \<in> ?K) confirmed"
  have "stream_progress_of (exact_confirmations ?c') not_ready cps =
      stream_progress_of (exact_confirmations confirmed) not_ready cps"
    if "(k, cps) \<in> set (by_stream submitted)" for k cps
  proof -
    have sub: "checkpoint_key e \<in> ?K" if "e \<in> set (sort_key ev_seq cps)" for e
      using that by_stream_entry(1) [OF \<open>(k, cps) \<in> set (by_stream submitted)\<close>] by simp
    have keys: "checkpoint_key e \<in> set (dict_keys (exact_confirmations ?c')) \<longleftrightarrow>
        checkpoint_key e \<in> set (dict_keys (exact_confirmations confirmed))"
      if "e \<in> set (sort_key ev_seq cps)" for e
      using sub [OF that] unfolding exact_keys_iff by (auto simp: confirmed_by_def)
    have idx: "confirmed_indices (exact_confirmations ?c') (sort_key ev_seq cps) =
        confirmed_indices (exact_confirmations confirmed) (sort_key ev_seq cps)"
      unfolding confirmed_indices_def
    proof (rule filter_cong [OF refl])
      fix i assume "i \<in> set [0..<length (sort_key ev_seq cps)]"
      then have "sort_key ev_seq cps ! i \<in> set (sort_key ev_seq cps)" by (intro nth_mem) simp
      then show "checkpoint_key (sort_key ev_seq cps ! i) \<in> set (dict_keys (exact_confirmations ?c')) \<longleftrightarrow>
          checkpoint_key (sort_key ev_seq cps ! i) \<in> set (dict_keys (exact_confirmations confirmed))"
        by (rule keys)
    qed
    have map: "checkpoint_mapping (exact_confirmations ?c') (sort_key ev_seq cps) l i =
        checkpoint_mapping (exact_confirmations confirmed) (sort_key ev_seq cps) l i"
      if "i < length (sort_key ev_seq cps)" for l i
      using exact_confirmations_filter [OF sub [OF nth_mem [OF that]], of confirmed]
      by (simp add: checkpoint_mapping_def Let_def)
    show ?thesis
      unfolding stream_progress_of_def Let_def last_confirmed_def idx
      using map by (simp cong: map_cong)
  qed
  then show ?thesis by (auto simp: rank_progress_def Let_def)
qed

end
