(* ===== verification/Rank_Selection.thy ===== *)
theory Rank_Selection
  imports Flight_Format
begin

text \<open>
  The first loop of \<open>analyze\<close> in \<open>flightrecorder/analyzer.py\<close>: every snapshot file is read, an
  unreadable one is noted in \<open>errors\<close>, and for each rank the file with the largest write
  sequence is kept, the first of them when several tie.
\<close>

record rank_data =
  rd_header :: header
  rd_events :: "event list"

type_synonym rank_table = "(int, rank_data) dict"

text \<open>\<open>except (OSError, ValueError)\<close>.\<close>

fun caught :: "py_error \<Rightarrow> bool" where
  "caught (OSError m) = True"
| "caught (ValueError m) = True"
| "caught _ = False"

definition keep_newest :: "header \<Rightarrow> event list \<Rightarrow> rank_table \<Rightarrow> rank_table" where
  "keep_newest h ev ranks =
     (case dict_get ranks (hd_rank h) of
        None \<Rightarrow> dict_set (hd_rank h) \<lparr>rd_header = h, rd_events = ev\<rparr> ranks
      | Some old \<Rightarrow>
          if hd_write_seq h > hd_write_seq (rd_header old)
          then dict_set (hd_rank h) \<lparr>rd_header = h, rd_events = ev\<rparr> ranks
          else ranks)"

fun select_loop ::
  "file_reads \<Rightarrow> path list \<Rightarrow> rank_table \<times> string list \<Rightarrow> py_error + rank_table \<times> string list" where
  "select_loop fs [] acc = Inr acc"
| "select_loop fs (p # ps) (ranks, errors) =
     (case read_events fs p of
        Inl e \<Rightarrow> if caught e then select_loop fs ps (ranks, errors @ [py_str_error e]) else Inl e
      | Inr (h, ev) \<Rightarrow> select_loop fs ps (keep_newest h ev ranks, errors))"

definition select_ranks :: "file_reads \<Rightarrow> path list \<Rightarrow> py_error + rank_table \<times> string list" where
  "select_ranks fs paths = select_loop fs paths ([], [])"

subsection \<open>No exception escapes\<close>

lemma read_events_caught: "read_events fs p = Inl e \<Longrightarrow> caught e"
  using read_events_only_os_or_value_error by fastforce

definition readings :: "file_reads \<Rightarrow> path list \<Rightarrow> rank_data list" where
  "readings fs paths = List.map_filter
     (\<lambda>p. case read_events fs p of Inl e \<Rightarrow> None
          | Inr (h, ev) \<Rightarrow> Some \<lparr>rd_header = h, rd_events = ev\<rparr>) paths"

definition read_failures :: "file_reads \<Rightarrow> path list \<Rightarrow> string list" where
  "read_failures fs paths = List.map_filter
     (\<lambda>p. case read_events fs p of Inl e \<Rightarrow> Some (py_str_error e) | Inr r \<Rightarrow> None) paths"

text \<open>The loop is a fold over the files that could be read; the others are the error list.\<close>

lemma select_loop_fold:
  "select_loop fs paths (ranks, errors) =
    Inr (fold (\<lambda>d. keep_newest (rd_header d) (rd_events d)) (readings fs paths) ranks,
         errors @ read_failures fs paths)"
  by (induction paths arbitrary: ranks errors)
    (auto simp: readings_def read_failures_def List.map_filter_simps read_events_caught
      split: sum.splits)

lemma select_ranks_fold:
  "select_ranks fs paths =
    Inr (fold (\<lambda>d. keep_newest (rd_header d) (rd_events d)) (readings fs paths) [],
         read_failures fs paths)"
  by (simp add: select_ranks_def select_loop_fold)

lemma readings_iff:
  "d \<in> set (readings fs paths) \<longleftrightarrow> (\<exists>p \<in> set paths. read_events fs p = Inr (rd_header d, rd_events d))"
  by (force simp: readings_def List.map_filter_def split: sum.splits)

lemma readings_capacity: "d \<in> set (readings fs paths) \<Longrightarrow> 2 \<le> hd_capacity (rd_header d)"
  using read_header_capacity by (fastforce simp: readings_iff elim: read_events_InrE)

subsection \<open>Which file is kept\<close>

abbreviation rd_rank :: "rank_data \<Rightarrow> int" where "rd_rank d \<equiv> hd_rank (rd_header d)"
abbreviation rd_seq :: "rank_data \<Rightarrow> int" where "rd_seq d \<equiv> hd_write_seq (rd_header d)"

text \<open>
  \<open>d\<close> is the choice among \<open>ds\<close>: of its rank, nothing before it is as new and nothing after it
  is newer.
\<close>

definition newest_of :: "rank_data list \<Rightarrow> rank_data \<Rightarrow> bool" where
  "newest_of ds d \<longleftrightarrow> (\<exists>pre post. ds = pre @ d # post \<and>
     (\<forall>x \<in> set pre. rd_rank x = rd_rank d \<longrightarrow> rd_seq x < rd_seq d) \<and>
     (\<forall>x \<in> set post. rd_rank x = rd_rank d \<longrightarrow> rd_seq x \<le> rd_seq d))"

lemma newest_of_mem: "newest_of ds d \<Longrightarrow> d \<in> set ds"
  by (auto simp: newest_of_def)

lemma newest_of_max: "newest_of ds d \<Longrightarrow> x \<in> set ds \<Longrightarrow> rd_rank x = rd_rank d \<Longrightarrow> rd_seq x \<le> rd_seq d"
  by (fastforce simp: newest_of_def)

lemma newest_of_snoc_old:
  assumes "newest_of ds d" and "rd_rank x = rd_rank d \<longrightarrow> rd_seq x \<le> rd_seq d"
  shows "newest_of (ds @ [x]) d"
proof -
  from assms(1) obtain pre post where "ds = pre @ d # post"
    "\<forall>x \<in> set pre. rd_rank x = rd_rank d \<longrightarrow> rd_seq x < rd_seq d"
    "\<forall>x \<in> set post. rd_rank x = rd_rank d \<longrightarrow> rd_seq x \<le> rd_seq d"
    by (auto simp: newest_of_def)
  with assms(2) show ?thesis
    unfolding newest_of_def by (intro exI [of _ pre] exI [of _ "post @ [x]"]) auto
qed

lemma newest_of_snoc_new:
  assumes "\<forall>y \<in> set ds. rd_rank y = rd_rank x \<longrightarrow> rd_seq y < rd_seq x"
  shows "newest_of (ds @ [x]) x"
  using assms unfolding newest_of_def by (intro exI [of _ ds] exI [of _ "[]"]) auto

definition table_ok :: "rank_data list \<Rightarrow> rank_table \<Rightarrow> bool" where
  "table_ok ds ranks \<longleftrightarrow> distinct (dict_keys ranks) \<and>
     (\<forall>r. case dict_get ranks r of
        None \<Rightarrow> \<forall>d \<in> set ds. rd_rank d \<noteq> r
      | Some d \<Rightarrow> rd_rank d = r \<and> newest_of ds d)"

lemma table_ok_step:
  assumes ok: "table_ok ds ranks"
  shows "table_ok (ds @ [\<lparr>rd_header = h, rd_events = ev\<rparr>]) (keep_newest h ev ranks)"
proof -
  let ?x = "\<lparr>rd_header = h, rd_events = ev\<rparr>"
  have dis: "distinct (dict_keys ranks)"
    and entry: "case dict_get ranks r of None \<Rightarrow> \<forall>d \<in> set ds. rd_rank d \<noteq> r
      | Some d \<Rightarrow> rd_rank d = r \<and> newest_of ds d" for r
    using ok by (simp_all add: table_ok_def)
  have other: "case dict_get ranks r of None \<Rightarrow> \<forall>d \<in> set (ds @ [?x]). rd_rank d \<noteq> r
      | Some d \<Rightarrow> rd_rank d = r \<and> newest_of (ds @ [?x]) d" if "r \<noteq> hd_rank h" for r
    using entry [of r] that by (auto split: option.splits intro!: newest_of_snoc_old)
  show ?thesis
  proof (cases "dict_get ranks (hd_rank h)")
    case None
    then have "newest_of (ds @ [?x]) ?x"
      using entry [of "hd_rank h"] by (intro newest_of_snoc_new) auto
    with None dis other show ?thesis
      by (simp add: table_ok_def keep_newest_def py_dict)
  next
    case (Some old)
    with entry [of "hd_rank h"] have old: "rd_rank old = hd_rank h" "newest_of ds old" by simp_all
    show ?thesis
    proof (cases "hd_write_seq h > rd_seq old")
      case True
      with old have "newest_of (ds @ [?x]) ?x"
        using newest_of_max [OF old(2)] by (intro newest_of_snoc_new) fastforce
      with Some True dis other show ?thesis
        by (simp add: table_ok_def keep_newest_def py_dict)
    next
      case False
      with old have "newest_of (ds @ [?x]) old" by (intro newest_of_snoc_old) auto
      then have "case dict_get ranks r of None \<Rightarrow> \<forall>d \<in> set (ds @ [?x]). rd_rank d \<noteq> r
          | Some d \<Rightarrow> rd_rank d = r \<and> newest_of (ds @ [?x]) d" for r
        using other [of r] Some old(1) by (cases "r = hd_rank h") simp_all
      with Some False dis show ?thesis by (simp add: table_ok_def keep_newest_def)
    qed
  qed
qed

lemma table_ok_fold: "table_ok ds (fold (\<lambda>d. keep_newest (rd_header d) (rd_events d)) ds [])"
proof (induction ds rule: rev_induct)
  case Nil
  then show ?case by (simp add: table_ok_def)
next
  case (snoc x ds)
  then show ?case using table_ok_step by (cases x) simp
qed

lemma select_ranks_ok:
  assumes "select_ranks fs paths = Inr (ranks, errors)"
  shows "table_ok (readings fs paths) ranks" "errors = read_failures fs paths"
  using assms table_ok_fold by (auto simp: select_ranks_fold)

lemma table_ok_entry:
  assumes "table_ok ds ranks" and "(r, d) \<in> set ranks"
  shows "rd_rank d = r" "newest_of ds d" "dict_get ranks r = Some d"
proof -
  from assms show get: "dict_get ranks r = Some d" by (simp add: table_ok_def)
  with assms(1) show "rd_rank d = r" "newest_of ds d"
    by (auto simp: table_ok_def dest!: spec [of _ r])
qed

lemma table_ok_ranks:
  assumes "table_ok ds ranks"
  shows "set (dict_keys ranks) = rd_rank ` set ds"
proof -
  have "dict_get ranks r = None \<longleftrightarrow> r \<notin> rd_rank ` set ds" for r
  proof (cases "dict_get ranks r")
    case None
    then show ?thesis using assms by (auto simp: table_ok_def dest!: spec [of _ r])
  next
    case (Some d)
    then have "rd_rank d = r" "newest_of ds d"
      using assms by (auto simp: table_ok_def dest!: spec [of _ r])
    with Some show ?thesis by (auto dest: newest_of_mem)
  qed
  then show ?thesis by (metis dom_map_of_conv_image_fst map_of_eq_None_iff set_map subsetI subset_antisym)
qed

end
