(* ===== verification/Cycle_Finder.thy ===== *)
theory Cycle_Finder
  imports Flight_Prelude
begin

text \<open>
  \<open>find_cycles\<close> of \<open>flightrecorder/analyzer.py\<close>: a recursive depth-first search that reports the
  cycles its back edges close. The dictionary of sets is an association list from a node to its
  successors in the order the set yields them. The first argument is the recursion depth the
  interpreter still allows: every active call of \<open>visit\<close> uses one frame, and the call that would
  exceed the limit raises \<open>RecursionError\<close>. It is the only exception the search can raise
  (\<open>visit_outcome\<close>), it is not raised when the depth reaches the number of nodes
  (\<open>visit_enough\<close>), and the result is empty exactly on acyclic graphs
  (\<open>find_cycles_outcome\<close>).
\<close>

subsection \<open>The search\<close>

record 'a dfs =
  df_cycles :: "'a list list"
  df_visiting :: "'a set"
  df_visited :: "'a set"
  df_stack :: "'a list"

definition dfs_init :: "'a dfs" where
  "dfs_init = \<lparr>df_cycles = [], df_visiting = {}, df_visited = {}, df_stack = []\<rparr>"

definition dfs_enter :: "'a \<Rightarrow> 'a dfs \<Rightarrow> 'a dfs" where
  "dfs_enter node s = s\<lparr>df_visiting := insert node (df_visiting s), df_stack := df_stack s @ [node]\<rparr>"

text \<open>\<open>stack[stack.index(dest):] + [dest]\<close>, appended unless it is already listed.\<close>

definition dfs_close :: "'a \<Rightarrow> 'a dfs \<Rightarrow> py_error + 'a dfs" where
  "dfs_close dest s =
     (case list_index (df_stack s) dest of
        None \<Rightarrow> Inl (ValueError ''list.index(x): x not in list'')
      | Some i \<Rightarrow>
          (let cycle = drop i (df_stack s) @ [dest]
           in Inr (if cycle \<in> set (df_cycles s) then s
                   else s\<lparr>df_cycles := df_cycles s @ [cycle]\<rparr>)))"

text \<open>\<open>stack.pop(); visiting.remove(node); visited.add(node)\<close>.\<close>

definition dfs_leave :: "'a \<Rightarrow> 'a dfs \<Rightarrow> py_error + 'a dfs" where
  "dfs_leave node s =
     (if df_stack s = [] then Inl IndexError
      else if node \<notin> df_visiting s then Inl KeyError
      else Inr (s\<lparr>df_stack := butlast (df_stack s), df_visiting := df_visiting s - {node},
                 df_visited := insert node (df_visited s)\<rparr>))"

fun visit :: "nat \<Rightarrow> ('a \<Rightarrow> 'a list) \<Rightarrow> 'a \<Rightarrow> 'a dfs \<Rightarrow> py_error + 'a dfs"
  and visit_dests :: "nat \<Rightarrow> ('a \<Rightarrow> 'a list) \<Rightarrow> 'a list \<Rightarrow> 'a dfs \<Rightarrow> py_error + 'a dfs" where
  "visit 0 g node s = Inl RecursionError"
| "visit (Suc d) g node s =
     (case visit_dests d g (g node) (dfs_enter node s) of
        Inl e \<Rightarrow> Inl e
      | Inr s' \<Rightarrow> dfs_leave node s')"
| "visit_dests d g [] s = Inr s"
| "visit_dests d g (dest # ds) s =
     (if dest \<in> df_visiting s then
        (case dfs_close dest s of Inl e \<Rightarrow> Inl e | Inr s' \<Rightarrow> visit_dests d g ds s')
      else if dest \<notin> df_visited s then
        (case visit d g dest s of Inl e \<Rightarrow> Inl e | Inr s' \<Rightarrow> visit_dests d g ds s')
      else visit_dests d g ds s)"

fun visit_roots :: "nat \<Rightarrow> ('a \<Rightarrow> 'a list) \<Rightarrow> 'a list \<Rightarrow> 'a dfs \<Rightarrow> py_error + 'a dfs" where
  "visit_roots d g [] s = Inr s"
| "visit_roots d g (n # ns) s =
     (if n \<notin> df_visited s then
        (case visit d g n s of Inl e \<Rightarrow> Inl e | Inr s' \<Rightarrow> visit_roots d g ns s')
      else visit_roots d g ns s)"

definition find_cycles :: "nat \<Rightarrow> ('a, 'a list) dict \<Rightarrow> py_error + 'a list list" where
  "find_cycles d edges =
     (case visit_roots d (dict_list edges) (dict_keys edges) dfs_init of
        Inl e \<Rightarrow> Inl e
      | Inr s \<Rightarrow> Inr (df_cycles s))"

subsection \<open>Graphs and cycles\<close>

definition graph_rel :: "('a \<Rightarrow> 'a list) \<Rightarrow> ('a \<times> 'a) set" where
  "graph_rel g = {(u, v). v \<in> set (g u)}"

text \<open>A closed walk along edges whose nodes, the repeated end apart, are distinct.\<close>

definition is_cycle :: "('a \<Rightarrow> 'a list) \<Rightarrow> 'a list \<Rightarrow> bool" where
  "is_cycle g c \<longleftrightarrow> 2 \<le> length c \<and> hd c = last c \<and> distinct (butlast c) \<and>
     successively (\<lambda>u v. v \<in> set (g u)) c"

lemma graph_rel_iff [simp]: "(u, v) \<in> graph_rel g \<longleftrightarrow> v \<in> set (g u)"
  by (simp add: graph_rel_def)

lemma successively_trancl:
  "successively (\<lambda>u v. v \<in> set (g u)) (u # xs) \<Longrightarrow> xs \<noteq> [] \<Longrightarrow> (u, last xs) \<in> (graph_rel g)\<^sup>+"
proof (induction xs arbitrary: u)
  case (Cons x xs)
  then have ux: "(u, x) \<in> graph_rel g" by simp
  show ?case
  proof (cases "xs = []")
    case True
    with ux show ?thesis by auto
  next
    case False
    with Cons have "(x, last xs) \<in> (graph_rel g)\<^sup>+" by simp
    with ux False show ?thesis by (simp add: trancl_into_trancl2)
  qed
qed simp

lemma is_cycle_not_acyclic:
  assumes "is_cycle g c"
  shows "\<not> acyclic (graph_rel g)"
proof -
  from assms obtain u xs where c: "c = u # xs" "xs \<noteq> []"
    by (cases c; cases "tl c") (auto simp: is_cycle_def)
  with assms have "(u, last xs) \<in> (graph_rel g)\<^sup>+" "u = last xs"
    by (auto simp: is_cycle_def intro: successively_trancl)
  then show ?thesis by (auto simp: acyclic_def)
qed

text \<open>Adding a node whose successors are closed under edges keeps a graph acyclic.\<close>

lemma acyclic_add_source:
  assumes "acyclic R" and "n \<notin> Range R" and "n \<notin> A"
  shows "acyclic (R \<union> {n} \<times> A)"
proof (rule acyclicI, intro allI notI)
  let ?R = "R \<union> {n} \<times> A"
  have keep: "(x, y) \<in> ?R\<^sup>+ \<Longrightarrow> x \<noteq> n \<Longrightarrow> (x, y) \<in> R\<^sup>+ \<and> y \<noteq> n" for x y
    by (induction rule: trancl_induct) (use assms(2,3) in \<open>auto intro: trancl_into_trancl\<close>)
  have into: "(x, y) \<in> ?R\<^sup>+ \<Longrightarrow> y \<noteq> n" for x y
    by (induction rule: trancl_induct) (use assms(2,3) in auto)
  fix x assume "(x, x) \<in> ?R\<^sup>+"
  then have "(x, x) \<in> R\<^sup>+" using into keep by blast
  with assms(1) show False by (simp add: acyclic_def)
qed

subsection \<open>The invariant\<close>

definition seen_rel :: "('a \<Rightarrow> 'a list) \<Rightarrow> 'a set \<Rightarrow> ('a \<times> 'a) set" where
  "seen_rel g V = {(u, v). u \<in> V \<and> v \<in> set (g u)}"

text \<open>
  The stack is a path of distinct nodes, the nodes being visited; everything reported is a cycle;
  and while nothing has been reported, the finished nodes are closed under edges and acyclic.
\<close>

definition dfs_inv :: "('a \<Rightarrow> 'a list) \<Rightarrow> 'a dfs \<Rightarrow> bool" where
  "dfs_inv g s \<longleftrightarrow>
     df_visiting s = set (df_stack s) \<and> distinct (df_stack s) \<and>
     df_visiting s \<inter> df_visited s = {} \<and>
     successively (\<lambda>u v. v \<in> set (g u)) (df_stack s) \<and>
     (\<forall>c \<in> set (df_cycles s). is_cycle g c) \<and>
     (df_cycles s = [] \<longrightarrow>
        (\<forall>u \<in> df_visited s. set (g u) \<subseteq> df_visited s) \<and> acyclic (seen_rel g (df_visited s)))"

text \<open>What one call leaves alone, and how the rest grows.\<close>

definition dfs_grows :: "'a dfs \<Rightarrow> 'a dfs \<Rightarrow> bool" where
  "dfs_grows s s' \<longleftrightarrow> df_stack s' = df_stack s \<and> df_visiting s' = df_visiting s \<and>
     df_visited s \<subseteq> df_visited s' \<and> (\<exists>cs. df_cycles s' = df_cycles s @ cs)"

lemma dfs_grows_refl [simp]: "dfs_grows s s"
  by (simp add: dfs_grows_def)

lemma dfs_grows_trans [trans]: "dfs_grows s t \<Longrightarrow> dfs_grows t u \<Longrightarrow> dfs_grows s u"
  by (auto simp: dfs_grows_def)

lemma dfs_grows_no_cycles: "dfs_grows s s' \<Longrightarrow> df_cycles s' = [] \<Longrightarrow> df_cycles s = []"
  by (auto simp: dfs_grows_def)

lemma dfs_inv_init: "dfs_inv g dfs_init"
  by (simp add: dfs_inv_def dfs_init_def seen_rel_def acyclic_def)

lemma dfs_inv_enter:
  assumes "dfs_inv g s" and "n \<notin> df_visiting s" and "n \<notin> df_visited s"
    and "df_stack s = [] \<or> n \<in> set (g (last (df_stack s)))"
  shows "dfs_inv g (dfs_enter n s)"
  using assms by (auto simp: dfs_inv_def dfs_enter_def successively_append_iff)

lemma dfs_close_outcome:
  assumes inv: "dfs_inv g s" and dest: "dest \<in> df_visiting s"
    and stack: "df_stack s \<noteq> []" "dest \<in> set (g (last (df_stack s)))"
  obtains s' where "dfs_close dest s = Inr s'" and "dfs_inv g s'" and "dfs_grows s s'"
    and "df_cycles s' \<noteq> []"
proof -
  from inv dest have "dest \<in> set (df_stack s)" by (simp add: dfs_inv_def)
  then obtain i where i: "list_index (df_stack s) dest = Some i" by fastforce
  from list_index_Some [OF this] obtain pre post
    where st: "df_stack s = pre @ dest # post" and pre: "length pre = i" by blast
  let ?c = "dest # post @ [dest]"
  let ?P = "\<lambda>u v. v \<in> set (g u)"
  have "successively ?P (dest # post)" and d: "distinct (dest # post)"
    using inv unfolding dfs_inv_def st by (simp_all add: successively_append_iff)
  moreover have "?P (last (dest # post)) dest" using stack(2) st by simp
  ultimately have "successively ?P ((dest # post) @ [dest])"
    unfolding successively_append_iff by simp
  moreover have "butlast ?c = dest # post" "last ?c = dest" by (simp_all add: butlast_append)
  ultimately have "is_cycle g ?c" using d unfolding is_cycle_def by simp
  moreover have "drop i (df_stack s) @ [dest] = ?c" using st pre by simp
  ultimately have "dfs_close dest s = Inr (if ?c \<in> set (df_cycles s) then s
      else s\<lparr>df_cycles := df_cycles s @ [?c]\<rparr>)" (is "_ = Inr ?s'") and "is_cycle g ?c"
    using i by (simp_all add: dfs_close_def Let_def)
  moreover from this(2) inv have "dfs_inv g ?s'" by (auto simp: dfs_inv_def)
  moreover have "dfs_grows s ?s'" by (simp add: dfs_grows_def)
  moreover have "df_cycles ?s' \<noteq> []" by auto
  ultimately show thesis by (intro that [of ?s'])
qed

lemma dfs_leave_outcome:
  assumes inv: "dfs_inv g t" and st: "df_stack t = xs @ [n]"
    and succ: "df_cycles t = [] \<longrightarrow> set (g n) \<subseteq> df_visited t"
  obtains s' where "dfs_leave n t = Inr s'" and "dfs_inv g s'"
    and "df_stack s' = xs" and "df_visiting s' = df_visiting t - {n}"
    and "df_visited s' = insert n (df_visited t)" and "df_cycles s' = df_cycles t"
proof -
  define s' where "s' = t\<lparr>df_stack := xs, df_visiting := df_visiting t - {n},
    df_visited := insert n (df_visited t)\<rparr>"
  have n: "n \<in> df_visiting t" "n \<notin> df_visited t"
    using inv st by (auto simp: dfs_inv_def)
  then have leave: "dfs_leave n t = Inr s'" using st by (simp add: dfs_leave_def s'_def)
  have closed: "(\<forall>u \<in> df_visited s'. set (g u) \<subseteq> df_visited s') \<and>
      acyclic (seen_rel g (df_visited s'))" if nc: "df_cycles t = []"
  proof -
    have cl: "\<forall>u \<in> df_visited t. set (g u) \<subseteq> df_visited t"
      and ac: "acyclic (seen_rel g (df_visited t))" and sub: "set (g n) \<subseteq> df_visited t"
      using inv nc succ by (auto simp: dfs_inv_def)
    have "seen_rel g (df_visited s') = seen_rel g (df_visited t) \<union> {n} \<times> set (g n)"
      by (auto simp: seen_rel_def s'_def)
    moreover have "n \<notin> Range (seen_rel g (df_visited t))" "n \<notin> set (g n)"
      using cl sub n(2) by (auto simp: seen_rel_def)
    ultimately show ?thesis using acyclic_add_source [OF ac] cl sub by (auto simp: s'_def)
  qed
  have "dfs_inv g s'"
    using inv st closed by (auto simp: dfs_inv_def s'_def successively_append_iff)
  with leave show thesis by (rule that) (simp_all add: s'_def)
qed

subsection \<open>Every call keeps the invariant\<close>

text \<open>The states \<open>visit\<close> and its loop over successors may be called in, and what they return.\<close>

definition visit_pre :: "('a \<Rightarrow> 'a list) \<Rightarrow> 'a \<Rightarrow> 'a dfs \<Rightarrow> bool" where
  "visit_pre g n s \<longleftrightarrow> dfs_inv g s \<and> n \<notin> df_visiting s \<and> n \<notin> df_visited s \<and>
     (df_stack s = [] \<or> n \<in> set (g (last (df_stack s))))"

definition dests_pre :: "('a \<Rightarrow> 'a list) \<Rightarrow> 'a list \<Rightarrow> 'a dfs \<Rightarrow> bool" where
  "dests_pre g xs s \<longleftrightarrow> dfs_inv g s \<and> df_stack s \<noteq> [] \<and> set xs \<subseteq> set (g (last (df_stack s)))"

definition visit_post :: "('a \<Rightarrow> 'a list) \<Rightarrow> 'a dfs \<Rightarrow> 'a set \<Rightarrow> py_error + 'a dfs \<Rightarrow> bool" where
  "visit_post g s done r \<longleftrightarrow>
     (case r of
        Inl e \<Rightarrow> e = RecursionError
      | Inr s' \<Rightarrow> dfs_inv g s' \<and> dfs_grows s s' \<and> (df_cycles s' = [] \<longrightarrow> done \<subseteq> df_visited s'))"

lemma visit_post_Inl [simp]: "visit_post g s D (Inl e) \<longleftrightarrow> e = RecursionError"
  by (simp add: visit_post_def)

lemma visit_post_Inr [simp]:
  "visit_post g s D (Inr s') \<longleftrightarrow>
    dfs_inv g s' \<and> dfs_grows s s' \<and> (df_cycles s' = [] \<longrightarrow> D \<subseteq> df_visited s')"
  by (simp add: visit_post_def)

lemma dests_pre_grows:
  "dests_pre g (x # xs) s \<Longrightarrow> dfs_inv g s' \<Longrightarrow> dfs_grows s s' \<Longrightarrow> dests_pre g xs s'"
  by (auto simp: dests_pre_def dfs_grows_def)

lemma visit_post_step:
  assumes grows: "dfs_grows s t" and post: "visit_post g t D r"
    and here: "df_cycles t = [] \<Longrightarrow> D' \<subseteq> df_visited t"
  shows "visit_post g s (D' \<union> D) r"
proof (cases r)
  case (Inr s')
  with post have p: "dfs_inv g s'" "dfs_grows t s'" "df_cycles s' = [] \<longrightarrow> D \<subseteq> df_visited s'"
    by simp_all
  from p(2) here have "df_cycles s' = [] \<longrightarrow> D' \<subseteq> df_visited s'"
    by (metis dfs_grows_def dfs_grows_no_cycles subset_trans)
  with p grows show ?thesis using Inr by (auto intro: dfs_grows_trans)
qed (use post in simp)

lemma visit_leave:
  assumes pre: "visit_pre g n s" and t: "visit_post g (dfs_enter n s) (set (g n)) (Inr t)"
  shows "visit_post g s {n} (dfs_leave n t)"
proof -
  have st: "df_stack t = df_stack s @ [n]" "df_visiting t = insert n (df_visiting s)"
    "df_visited s \<subseteq> df_visited t" "\<exists>cs. df_cycles t = df_cycles s @ cs"
    using t by (auto simp: dfs_grows_def dfs_enter_def)
  from t have inv: "dfs_inv g t" and sub: "df_cycles t = [] \<longrightarrow> set (g n) \<subseteq> df_visited t"
    by simp_all
  from dfs_leave_outcome [OF inv st(1) sub] obtain s'
    where "dfs_leave n t = Inr s'" "dfs_inv g s'" "df_stack s' = df_stack s"
      "df_visiting s' = df_visiting t - {n}" "df_visited s' = insert n (df_visited t)"
      "df_cycles s' = df_cycles t" by blast
  with st pre show ?thesis by (auto simp: dfs_grows_def visit_pre_def)
qed

lemma visit_outcome:
  "visit_pre g n s \<Longrightarrow> visit_post g s {n} (visit d g n s)"
  "dests_pre g xs t \<Longrightarrow> visit_post g t (set xs) (visit_dests d g xs t)"
proof (induction d g n s and d g xs t rule: visit_visit_dests.induct)
  case (2 d g n s)
  then have "dests_pre g (g n) (dfs_enter n s)"
    using dfs_inv_enter by (fastforce simp: visit_pre_def dests_pre_def dfs_enter_def)
  from "2.IH" [OF this] have
    post: "visit_post g (dfs_enter n s) (set (g n)) (visit_dests d g (g n) (dfs_enter n s))" .
  show ?case
  proof (cases "visit_dests d g (g n) (dfs_enter n s)")
    case (Inl e)
    with post show ?thesis by simp
  next
    case (Inr t)
    with visit_leave [OF "2.prems", of t] post show ?thesis by simp
  qed
next
  case (3 d g t)
  then show ?case by (simp add: dests_pre_def)
next
  case (4 d g x xs t)
  from "4.prems" have inv: "dfs_inv g t" and st: "df_stack t \<noteq> []" "x \<in> set (g (last (df_stack t)))"
    by (auto simp: dests_pre_def)
  consider "x \<in> df_visiting t" | "x \<notin> df_visiting t" "x \<notin> df_visited t"
    | "x \<notin> df_visiting t" "x \<in> df_visited t" by blast
  then show ?case
  proof cases
    case 1
    from dfs_close_outcome [OF inv 1 st] obtain s'
      where s': "dfs_close x t = Inr s'" "dfs_inv g s'" "dfs_grows t s'" "df_cycles s' \<noteq> []" .
    from "4.IH"(1) [OF 1 s'(1) dests_pre_grows [OF "4.prems" s'(2,3)]]
      visit_post_step [OF s'(3), of g "set xs" _ "{x}"] s'(4)
    have "visit_post g t ({x} \<union> set xs) (visit_dests d g xs s')" by blast
    with 1 s'(1) show ?thesis by simp
  next
    case 2
    with inv st have "visit_pre g x t" by (simp add: visit_pre_def)
    from "4.IH"(2) [OF 2 this] have post: "visit_post g t {x} (visit d g x t)" .
    show ?thesis
    proof (cases "visit d g x t")
      case (Inl e)
      with post 2 show ?thesis by simp
    next
      case (Inr s')
      with post have s': "dfs_inv g s'" "dfs_grows t s'" "df_cycles s' = [] \<longrightarrow> {x} \<subseteq> df_visited s'"
        by simp_all
      from "4.IH"(3) [OF 2 Inr dests_pre_grows [OF "4.prems" s'(1,2)]]
      have "visit_post g t ({x} \<union> set xs) (visit_dests d g xs s')"
        using visit_post_step [OF s'(2)] s'(3) by blast
      with 2 Inr show ?thesis by simp
    qed
  next
    case 3
    from "4.IH"(4) 3 dests_pre_grows [OF "4.prems" inv dfs_grows_refl]
    have "visit_post g t (set xs) (visit_dests d g xs t)" by blast
    from visit_post_step [OF dfs_grows_refl this, of "{x}"] 3
    have "visit_post g t ({x} \<union> set xs) (visit_dests d g xs t)" by blast
    with 3 show ?thesis by simp
  qed
qed simp

lemma visit_roots_outcome:
  assumes "dfs_inv g s" and "df_stack s = []"
  shows "visit_post g s (set ns) (visit_roots d g ns s)"
  using assms
proof (induction ns arbitrary: s)
  case (Cons n ns)
  show ?case
  proof (cases "n \<in> df_visited s")
    case True
    with visit_post_step [OF dfs_grows_refl Cons.IH [OF Cons.prems], of "{n}"] show ?thesis by simp
  next
    case False
    with Cons.prems have "visit_pre g n s" by (auto simp: visit_pre_def dfs_inv_def)
    from visit_outcome(1) [OF this, of d] have post: "visit_post g s {n} (visit d g n s)" .
    show ?thesis
    proof (cases "visit d g n s")
      case (Inl e)
      with False post show ?thesis by simp
    next
      case (Inr s')
      with post have s': "dfs_inv g s'" "dfs_grows s s'" "df_cycles s' = [] \<Longrightarrow> {n} \<subseteq> df_visited s'"
        by simp_all
      moreover from this Cons.prems have "df_stack s' = []" by (simp add: dfs_grows_def)
      ultimately have "visit_post g s ({n} \<union> set ns) (visit_roots d g ns s')"
        using visit_post_step [OF s'(2) Cons.IH] by blast
      with False Inr show ?thesis by simp
    qed
  qed
qed simp

subsection \<open>The result\<close>

lemma dict_list_keys: "v \<in> set (dict_list d k) \<Longrightarrow> k \<in> set (dict_keys d)"
  by (cases "dict_get d k") (force simp: dict_list_def dest: map_of_SomeD)+

lemma find_cycles_result:
  assumes "find_cycles d edges = Inr cs"
  shows "\<forall>c \<in> set cs. is_cycle (dict_list edges) c"
    and "cs = [] \<longleftrightarrow> acyclic (graph_rel (dict_list edges))"
proof -
  let ?g = "dict_list edges"
  from assms obtain s where s: "visit_roots d ?g (dict_keys edges) dfs_init = Inr s"
    and cs: "cs = df_cycles s" by (auto simp: find_cycles_def split: sum.splits)
  from visit_roots_outcome [OF dfs_inv_init, of ?g "dict_keys edges" d] s
  have inv: "dfs_inv ?g s" and all: "df_cycles s = [] \<longrightarrow> set (dict_keys edges) \<subseteq> df_visited s"
    by (simp_all add: dfs_init_def)
  show cyc: "\<forall>c \<in> set cs. is_cycle ?g c" using inv cs by (simp add: dfs_inv_def)
  show "cs = [] \<longleftrightarrow> acyclic (graph_rel ?g)"
  proof
    assume nil: "cs = []"
    with all cs have "graph_rel ?g = seen_rel ?g (df_visited s)"
      using dict_list_keys [of _ edges] by (fastforce simp: seen_rel_def)
    with inv nil cs show "acyclic (graph_rel ?g)" by (simp add: dfs_inv_def)
  next
    assume "acyclic (graph_rel ?g)"
    with cyc is_cycle_not_acyclic show "cs = []" by (metis list.set_intros(1) neq_Nil_conv)
  qed
qed

lemma find_cycles_error: "find_cycles d edges = Inl e \<Longrightarrow> e = RecursionError"
  using visit_roots_outcome [OF dfs_inv_init, of "dict_list edges" "dict_keys edges" d]
  by (auto simp: find_cycles_def dfs_init_def split: sum.splits)

subsection \<open>Recursion depth\<close>

text \<open>Depth for every node not yet on the stack is enough: each nested call puts one there.\<close>

lemma visit_depth:
  assumes U: "finite U"
  shows "\<forall>u \<in> U. set (g u) \<subseteq> U \<Longrightarrow> visit_pre g n s \<Longrightarrow> n \<in> U \<Longrightarrow>
      df_visiting s \<subseteq> U \<Longrightarrow> card (U - df_visiting s) \<le> d \<Longrightarrow>
      \<exists>s'. visit d g n s = Inr s'"
    and "\<forall>u \<in> U. set (g u) \<subseteq> U \<Longrightarrow> dests_pre g xs t \<Longrightarrow> set xs \<subseteq> U \<Longrightarrow>
      df_visiting t \<subseteq> U \<Longrightarrow> card (U - df_visiting t) \<le> d \<Longrightarrow>
      \<exists>s'. visit_dests d g xs t = Inr s'"
proof (induction d g n s and d g xs t rule: visit_visit_dests.induct)
  case (1 g n s)
  then have "U \<subseteq> df_visiting s" using U by simp
  with 1 show ?case by (auto simp: visit_pre_def)
next
  case (2 d g n s)
  have pre: "dests_pre g (g n) (dfs_enter n s)"
    using "2.prems"(2) dfs_inv_enter by (fastforce simp: visit_pre_def dests_pre_def dfs_enter_def)
  have "n \<in> U - df_visiting s" using "2.prems" by (simp add: visit_pre_def)
  then have "card (U - insert n (df_visiting s)) < card (U - df_visiting s)"
    using U by (intro psubset_card_mono) auto
  with "2.prems"(5) have "card (U - df_visiting (dfs_enter n s)) \<le> d" by (simp add: dfs_enter_def)
  moreover have "df_visiting (dfs_enter n s) \<subseteq> U"
    using "2.prems" by (auto simp: dfs_enter_def)
  moreover have "set (g n) \<subseteq> U" using "2.prems"(1,3) by blast
  ultimately obtain t where t: "visit_dests d g (g n) (dfs_enter n s) = Inr t"
    using "2.IH" [OF "2.prems"(1) pre] by auto
  with visit_outcome(2) [OF pre, of d] visit_leave [OF "2.prems"(2), of t]
  have "visit_post g s {n} (dfs_leave n t)" by simp
  moreover have "dfs_leave n t \<noteq> Inl RecursionError" by (simp add: dfs_leave_def)
  ultimately show ?case using t by (cases "dfs_leave n t") auto
next
  case (4 d g x xs t)
  have inv: "dfs_inv g t" and st: "df_stack t \<noteq> []" "x \<in> set (g (last (df_stack t)))"
    using "4.prems"(2) by (auto simp: dests_pre_def)
  have xs: "set xs \<subseteq> U" "x \<in> U" using "4.prems"(3) by auto
  consider "x \<in> df_visiting t" | "x \<notin> df_visiting t" "x \<notin> df_visited t"
    | "x \<notin> df_visiting t" "x \<in> df_visited t" by blast
  then show ?case
  proof cases
    case 1
    from dfs_close_outcome [OF inv 1 st] obtain s'
      where s': "dfs_close x t = Inr s'" "dfs_inv g s'" "dfs_grows t s'" .
    have "\<exists>s''. visit_dests d g xs s' = Inr s''"
      using "4.IH"(1) [OF 1 s'(1) "4.prems"(1) dests_pre_grows [OF "4.prems"(2) s'(2,3)] xs(1)]
        "4.prems"(4,5) s'(3) by (simp add: dfs_grows_def)
    with 1 s'(1) show ?thesis by simp
  next
    case 2
    with inv st have pre: "visit_pre g x t" by (simp add: visit_pre_def)
    from "4.IH"(2) [OF 2 "4.prems"(1) pre xs(2) "4.prems"(4,5)] obtain s' where s': "visit d g x t = Inr s'" ..
    with visit_outcome(1) [OF pre, of d] have g: "dfs_inv g s'" "dfs_grows t s'" by simp_all
    have "\<exists>s''. visit_dests d g xs s' = Inr s''"
      using "4.IH"(3) [OF 2 s' "4.prems"(1) dests_pre_grows [OF "4.prems"(2) g] xs(1)]
        "4.prems"(4,5) g(2) by (simp add: dfs_grows_def)
    with 2 s' show ?thesis by simp
  next
    case 3
    with "4.IH"(4) "4.prems"(1) dests_pre_grows [OF "4.prems"(2) inv dfs_grows_refl] xs(1) "4.prems"(4,5)
    show ?thesis by simp
  qed
qed simp

lemma visit_roots_depth:
  assumes U: "finite U" "\<forall>u \<in> U. set (g u) \<subseteq> U" and "card U \<le> d"
    and "dfs_inv g s" and "df_stack s = []" and "set ns \<subseteq> U"
  shows "\<exists>s'. visit_roots d g ns s = Inr s'"
  using assms(4-)
proof (induction ns arbitrary: s)
  case (Cons n ns)
  show ?case
  proof (cases "n \<in> df_visited s")
    case False
    have nil: "df_visiting s = {}" using Cons.prems by (simp add: dfs_inv_def)
    with Cons.prems False have pre: "visit_pre g n s" by (simp add: visit_pre_def)
    obtain s' where s': "visit d g n s = Inr s'"
      using visit_depth(1) [OF U pre, of d] Cons.prems(3) nil assms(3) by auto
    with visit_outcome(1) [OF pre, of d] Cons.prems(2) have "dfs_inv g s'" "df_stack s' = []"
      by (simp_all add: dfs_grows_def)
    with Cons s' False show ?thesis by simp
  qed (use Cons in simp)
qed simp

definition graph_nodes :: "('a, 'a list) dict \<Rightarrow> 'a set" where
  "graph_nodes edges = set (dict_keys edges) \<union> (\<Union>ds \<in> set (dict_values edges). set ds)"

lemma dict_list_nodes: "set (dict_list edges u) \<subseteq> graph_nodes edges"
  by (cases "dict_get edges u") (force simp: dict_list_def graph_nodes_def dest: map_of_SomeD)+

lemma find_cycles_enough:
  fixes edges :: "('a, 'a list) dict"
  assumes "card (graph_nodes edges) \<le> d"
  shows "\<exists>cs. find_cycles d edges = Inr cs"
proof -
  have "finite (graph_nodes edges)" by (simp add: graph_nodes_def)
  moreover have "set (dict_keys edges) \<subseteq> graph_nodes edges" by (simp add: graph_nodes_def)
  moreover have init: "df_stack (dfs_init :: 'a dfs) = []" by (simp add: dfs_init_def)
  ultimately obtain s where "visit_roots d (dict_list edges) (dict_keys edges) dfs_init = Inr s"
    using visit_roots_depth [of "graph_nodes edges" "dict_list edges" d dfs_init "dict_keys edges"]
      dict_list_nodes [of edges] dfs_inv_init [of "dict_list edges"] assms init by blast
  then show ?thesis by (simp add: find_cycles_def)
qed

text \<open>A chain of dependencies as long as the limit exhausts it, though it has no cycle.\<close>

definition chain_edges :: "nat \<Rightarrow> (nat, nat list) dict" where
  "chain_edges k = map (\<lambda>i. (i, [Suc i])) [0..<k]"

lemma dict_list_chain: "dict_list (chain_edges k) i = (if i < k then [Suc i] else [])"
proof -
  have "dict_get (chain_edges k) i = (if i < k then Some [Suc i] else None)"
    by (simp add: chain_edges_def map_of_map_restrict)
  then show ?thesis by (simp add: dict_list_def)
qed

lemma visit_chain:
  assumes "\<And>i. g i = (if i < k then [Suc i] else [])"
  shows "i + d \<le> k \<Longrightarrow> df_visiting s \<subseteq> {..<i} \<Longrightarrow> df_visited s = {} \<Longrightarrow>
    visit d g i s = Inl RecursionError"
proof (induction d arbitrary: i s)
  case (Suc d)
  have "visit d g (Suc i) (dfs_enter i s) = Inl RecursionError"
    using Suc.prems by (intro Suc.IH) (auto simp: dfs_enter_def)
  moreover have "Suc i \<notin> df_visiting (dfs_enter i s)" "Suc i \<notin> df_visited (dfs_enter i s)"
    using Suc.prems by (auto simp: dfs_enter_def)
  moreover have "g i = [Suc i]" using assms [of i] Suc.prems(1) by simp
  ultimately show ?case by simp
qed simp

lemma find_cycles_chain:
  assumes "0 < k" and "d \<le> k"
  shows "find_cycles d (chain_edges k) = Inl RecursionError"
proof -
  have keys: "dict_keys (chain_edges k) = 0 # [1..<k]"
    using assms by (simp add: chain_edges_def o_def upt_conv_Cons)
  have "visit d (dict_list (chain_edges k)) 0 dfs_init = Inl RecursionError"
    using assms by (intro visit_chain [where k = k]) (simp_all add: dict_list_chain dfs_init_def)
  then show ?thesis by (simp add: find_cycles_def keys dfs_init_def)
qed

lemma chain_acyclic: "acyclic (graph_rel (dict_list (chain_edges k)))"
proof -
  have "graph_rel (dict_list (chain_edges k)) \<subseteq> (less_than)"
    by (auto simp: dict_list_chain split: if_splits)
  then show ?thesis using acyclic_subset wf_acyclic [OF wf_less_than] by blast
qed

end
