(* ===== verification/Dependency_Graph.thy ===== *)
theory Dependency_Graph
  imports Rank_Selection Event_Scan Cycle_Finder
begin

text \<open>
  The operation-level dependency graph of \<open>analyze\<close> in \<open>flightrecorder/analyzer.py\<close>: a record
  depends on the earlier waits of its stream, a wait on the record that last used its event id.
  Nodes are the texts the code builds. The code keeps the successors of a node in a set, whose
  iteration order is not specified: the model keeps them in order of insertion and reorders them
  by the parameter \<open>ord\<close> before the search. The graph is related to \<open>depends\<close>, an abstract
  dependency relation on typed operations.
\<close>

subsection \<open>Node names\<close>

definition record_node :: "int \<Rightarrow> int \<Rightarrow> int \<Rightarrow> string" where
  "record_node rank stream seq =
     ''r'' @ str_int rank @ '':s'' @ str_int stream @ '':record:'' @ str_int seq"

definition wait_node :: "int \<Rightarrow> int \<Rightarrow> int \<Rightarrow> string" where
  "wait_node rank stream seq =
     ''r'' @ str_int rank @ '':s'' @ str_int stream @ '':wait:'' @ str_int seq"

datatype op_node =
    Record (op_rank: int) (op_stream: int) (op_seq: int)
  | Wait (op_rank: int) (op_stream: int) (op_seq: int)

fun node_name :: "op_node \<Rightarrow> string" where
  "node_name (Record rank stream seq) = record_node rank stream seq"
| "node_name (Wait rank stream seq) = wait_node rank stream seq"

lemma node_name_inject [simp]: "node_name m = node_name n \<longleftrightarrow> m = n"
proof
  have cut: "a = a' \<and> b = b' \<and> tl = tl'"
    if "str_int a @ CHR '':'' # CHR ''s'' # str_int b @ CHR '':'' # tl =
        str_int a' @ CHR '':'' # CHR ''s'' # str_int b' @ CHR '':'' # tl'" for a a' b b' tl tl'
  proof -
    from cut_unique [OF that] have "a = a'" and
      eq: "str_int b @ CHR '':'' # tl = str_int b' @ CHR '':'' # tl'" by simp_all
    with cut_unique [OF eq] show ?thesis by simp
  qed
  assume "node_name m = node_name n"
  then show "m = n"
    by (cases m; cases n) (auto simp: record_node_def wait_node_def dest!: cut)
qed simp

subsection \<open>Building the edges\<close>

type_synonym edge_map = "(string, string list) dict"

text \<open>\<open>edges[a].add(b)\<close>.\<close>

definition edge_add :: "string \<Rightarrow> string \<Rightarrow> edge_map \<Rightarrow> edge_map" where
  "edge_add a b edges = (if b \<in> set (dict_list edges a) then edges else dict_append a b edges)"

definition record_edges :: "int \<Rightarrow> event \<Rightarrow> event list \<Rightarrow> edge_map \<Rightarrow> edge_map" where
  "record_edges rank e previous edges =
     fold (\<lambda>w. edge_add (record_node rank (ev_stream e) (ev_seq e))
                 (wait_node rank (ev_stream w) (ev_seq w))) previous edges"

fun rank_edge_step ::
  "int \<Rightarrow> event \<Rightarrow> (int, event list) dict \<times> edge_map \<Rightarrow> (int, event list) dict \<times> edge_map" where
  "rank_edge_step rank e (prior_waits, edges) =
     (if ev_type e = ''EVENT_WAIT'' then (dict_append (ev_stream e) e prior_waits, edges)
      else if ev_type e = ''EVENT_RECORD''
           then (prior_waits, record_edges rank e (dict_list prior_waits (ev_stream e)) edges)
      else (prior_waits, edges))"

definition rank_edges :: "int \<Rightarrow> event list \<Rightarrow> edge_map \<Rightarrow> edge_map" where
  "rank_edges rank ev edges = snd (fold (rank_edge_step rank) ev ([], edges))"

definition order_edges :: "rank_table \<Rightarrow> edge_map" where
  "order_edges ranks = fold (\<lambda>(rank, data). rank_edges rank (rd_events data)) ranks []"

record dependency =
  dp_rank :: int
  dp_event_id :: int
  dp_waiting_stream :: int
  dp_producer_stream :: "int option"
  dp_producer_observed :: bool

definition wait_producer :: "(int \<times> int, event) dict \<Rightarrow> event \<Rightarrow> event option" where
  "wait_producer producers w = dict_get producers (ev_rank w, ev_correlation_id w)"

definition dependency_item :: "(int \<times> int, event) dict \<Rightarrow> event \<Rightarrow> dependency" where
  "dependency_item producers w =
     (let producer = wait_producer producers w
      in \<lparr>dp_rank = ev_rank w, dp_event_id = ev_correlation_id w, dp_waiting_stream = ev_stream w,
          dp_producer_stream = map_option ev_stream producer,
          dp_producer_observed = (producer \<noteq> None)\<rparr>)"

fun wait_step ::
  "(int \<times> int, event) dict \<Rightarrow> event \<Rightarrow> dependency list \<times> edge_map \<Rightarrow> dependency list \<times> edge_map" where
  "wait_step producers w (deps, edges) =
     (deps @ [dependency_item producers w],
      case wait_producer producers w of
        None \<Rightarrow> edges
      | Some p \<Rightarrow> edge_add (wait_node (ev_rank w) (ev_stream w) (ev_seq w))
                           (record_node (ev_rank w) (ev_stream p) (ev_seq p)) edges)"

definition dependency_graph ::
  "rank_table \<Rightarrow> (int \<times> int, event) dict \<Rightarrow> event list \<Rightarrow> dependency list \<times> edge_map" where
  "dependency_graph ranks producers waits =
     fold (wait_step producers) waits ([], order_edges ranks)"

text \<open>The scan of all ranks in increasing order, and the cycle search on its graph.\<close>

definition scan_ranks :: "rank_table \<Rightarrow> scan" where
  "scan_ranks ranks = fold (\<lambda>(rank, data). scan_rank rank (rd_events data)) (sort_key fst ranks) scan_init"

definition stream_cycles ::
  "nat \<Rightarrow> (string list \<Rightarrow> string list) \<Rightarrow> rank_table \<Rightarrow> py_error + string list list" where
  "stream_cycles depth ord ranks =
     (let s = scan_ranks ranks
      in find_cycles depth (map (\<lambda>(k, ds). (k, ord ds))
           (snd (dependency_graph ranks (sc_producers s) (sc_waits s)))))"

subsection \<open>The edges of the graph\<close>

lemma edge_add_mem:
  "y \<in> set (dict_list (edge_add a b edges) x) \<longleftrightarrow> y \<in> set (dict_list edges x) \<or> (x, y) = (a, b)"
  by (auto simp: edge_add_def py_dict split: if_splits)

lemma record_edges_mem:
  "y \<in> set (dict_list (record_edges rank e previous edges) x) \<longleftrightarrow> y \<in> set (dict_list edges x) \<or>
    (\<exists>w \<in> set previous. x = record_node rank (ev_stream e) (ev_seq e) \<and>
       y = wait_node rank (ev_stream w) (ev_seq w))"
  unfolding record_edges_def
  by (induction previous arbitrary: edges) (auto simp: edge_add_mem)

text \<open>\<open>e\<close> is a record that some wait \<open>w\<close> of its stream precedes in \<open>ev\<close>.\<close>

definition ordered_after :: "event list \<Rightarrow> event \<Rightarrow> event \<Rightarrow> bool" where
  "ordered_after ev e w \<longleftrightarrow> ev_type e = ''EVENT_RECORD'' \<and> ev_type w = ''EVENT_WAIT'' \<and>
     ev_stream w = ev_stream e \<and> (\<exists>pre post. ev = pre @ e # post \<and> w \<in> set pre)"

lemma ordered_afterD:
  assumes "ordered_after ev e w"
  shows "ev_type e = ''EVENT_RECORD''" "ev_type w = ''EVENT_WAIT''" "ev_stream w = ev_stream e"
    "e \<in> set ev" "w \<in> set ev"
  using assms by (auto simp: ordered_after_def)

lemma ordered_after_snoc:
  "ordered_after (ev @ [x]) e w \<longleftrightarrow> ordered_after ev e w \<or>
    (e = x \<and> ev_type x = ''EVENT_RECORD'' \<and> ev_type w = ''EVENT_WAIT'' \<and>
     ev_stream w = ev_stream x \<and> w \<in> set ev)"
proof -
  have "(\<exists>pre post. ev @ [x] = pre @ e # post \<and> w \<in> set pre) \<longleftrightarrow>
      (\<exists>pre post. ev = pre @ e # post \<and> w \<in> set pre) \<or> (e = x \<and> w \<in> set ev)" (is "?L \<longleftrightarrow> ?R")
  proof
    assume ?L
    then obtain pre post where "ev @ [x] = pre @ e # post" "w \<in> set pre" by blast
    then show ?R by (cases post rule: rev_cases) auto
  next
    assume ?R
    then show ?L
    proof
      assume "\<exists>pre post. ev = pre @ e # post \<and> w \<in> set pre"
      then obtain pre post where "ev @ [x] = pre @ e # (post @ [x])" "w \<in> set pre" by auto
      then show ?L by blast
    qed blast
  qed
  then show ?thesis by (auto simp: ordered_after_def)
qed

lemma prior_waits_list:
  "dict_list (fst (fold (rank_edge_step rank) ev ([], edges))) k =
    filter (\<lambda>w. ev_type w = ''EVENT_WAIT'' \<and> ev_stream w = k) ev"
proof (induction ev rule: rev_induct)
  case (snoc e ev)
  then show ?case
    by (cases "fold (rank_edge_step rank) ev ([], edges)") (auto simp: py_dict)
qed (simp add: dict_list_def)

text \<open>The edges from records to earlier waits that the events of one rank give.\<close>

definition order_edge :: "int \<Rightarrow> event list \<Rightarrow> string \<Rightarrow> string \<Rightarrow> bool" where
  "order_edge rank ev x y \<longleftrightarrow> (\<exists>e w. ordered_after ev e w \<and>
     x = record_node rank (ev_stream e) (ev_seq e) \<and> y = wait_node rank (ev_stream w) (ev_seq w))"

lemma order_edge_snoc:
  "order_edge rank (ev @ [e]) x y \<longleftrightarrow> order_edge rank ev x y \<or> (ev_type e = ''EVENT_RECORD'' \<and>
     (\<exists>w \<in> set (filter (\<lambda>w. ev_type w = ''EVENT_WAIT'' \<and> ev_stream w = ev_stream e) ev).
        x = record_node rank (ev_stream e) (ev_seq e) \<and> y = wait_node rank (ev_stream w) (ev_seq w)))"
  unfolding order_edge_def ordered_after_snoc conj_disj_distribR ex_disj_distrib by auto

lemma rank_edges_mem:
  "y \<in> set (dict_list (rank_edges rank ev edges) x) \<longleftrightarrow>
    y \<in> set (dict_list edges x) \<or> order_edge rank ev x y"
proof (induction ev rule: rev_induct)
  case Nil
  then show ?case by (simp add: rank_edges_def order_edge_def ordered_after_def)
next
  case (snoc e ev)
  obtain prior es where f: "fold (rank_edge_step rank) ev ([], edges) = (prior, es)" by force
  have prior: "dict_list prior k = filter (\<lambda>w. ev_type w = ''EVENT_WAIT'' \<and> ev_stream w = k) ev" for k
    using prior_waits_list [of rank ev edges k] f by simp
  have "rank_edges rank (ev @ [e]) edges =
      (if ev_type e = ''EVENT_RECORD''
       then record_edges rank e (dict_list prior (ev_stream e)) (rank_edges rank ev edges)
       else rank_edges rank ev edges)"
    by (simp add: rank_edges_def f)
  then show ?case
    using snoc.IH by (simp add: record_edges_mem prior order_edge_snoc disj_assoc)
qed

lemma fold_rank_edges_mem:
  "y \<in> set (dict_list (fold (\<lambda>(rank, data). rank_edges rank (rd_events data)) ranks edges) x) \<longleftrightarrow>
     y \<in> set (dict_list edges x) \<or> (\<exists>(rank, data) \<in> set ranks. order_edge rank (rd_events data) x y)"
proof (induction ranks arbitrary: edges)
  case (Cons r ranks)
  then show ?case by (cases r) (auto simp: rank_edges_mem)
qed simp

lemma order_edges_mem:
  "y \<in> set (dict_list (order_edges ranks) x) \<longleftrightarrow>
    (\<exists>(rank, data) \<in> set ranks. order_edge rank (rd_events data) x y)"
  unfolding order_edges_def fold_rank_edges_mem by (simp add: dict_list_def)

lemma wait_fold:
  "fst (fold (wait_step producers) ws (deps, edges)) = deps @ map (dependency_item producers) ws"
  "y \<in> set (dict_list (snd (fold (wait_step producers) ws (deps, edges))) x) \<longleftrightarrow>
     y \<in> set (dict_list edges x) \<or>
     (\<exists>w \<in> set ws. \<exists>p. wait_producer producers w = Some p \<and>
        x = wait_node (ev_rank w) (ev_stream w) (ev_seq w) \<and>
        y = record_node (ev_rank w) (ev_stream p) (ev_seq p))"
  by (induction ws arbitrary: deps edges)
    (auto simp: edge_add_mem split: option.splits)

subsection \<open>What the scan of all ranks holds\<close>

definition rank_blocks :: "rank_table \<Rightarrow> (int \<times> event list) list" where
  "rank_blocks ranks = map (\<lambda>(rank, data). (rank, rd_events data)) (sort_key fst ranks)"

lemma map_of_sort_key: "distinct (dict_keys d) \<Longrightarrow> map_of (sort_key fst d) = dict_get d"
proof -
  assume "distinct (dict_keys d)"
  then have "distinct (dict_keys (sort_key fst d))" by (simp add: distinct_map)
  then show ?thesis using \<open>distinct (dict_keys d)\<close> by (intro map_of_inject_set [THEN iffD2]) simp_all
qed

lemma rank_blocks_get:
  assumes "distinct (dict_keys ranks)"
  shows "distinct (map fst (rank_blocks ranks))"
    "map_of (rank_blocks ranks) r = map_option rd_events (dict_get ranks r)"
proof -
  have "map fst (rank_blocks ranks) = map fst (sort_key fst ranks)"
    by (auto simp: rank_blocks_def)
  with assms show "distinct (map fst (rank_blocks ranks))" by (simp add: distinct_map)
  show "map_of (rank_blocks ranks) r = map_option rd_events (dict_get ranks r)"
    using map_of_map [of rd_events "sort_key fst ranks"] map_of_sort_key [OF assms]
    by (simp add: rank_blocks_def)
qed

lemma fold_scan_ranks:
  "sc_producers (fold (\<lambda>(rank, data). scan_rank rank (rd_events data)) rs s) =
     fold (\<lambda>(r, es). fold producer_step (map (Pair r) es))
       (map (\<lambda>(rank, data). (rank, rd_events data)) rs) (sc_producers s)"
  "sc_groups (fold (\<lambda>(rank, data). scan_rank rank (rd_events data)) rs s) =
     fold (\<lambda>(r, es). fold group_step (map (Pair r) es))
       (map (\<lambda>(rank, data). (rank, rd_events data)) rs) (sc_groups s)"
  "sc_waits (fold (\<lambda>(rank, data). scan_rank rank (rd_events data)) rs s) =
     sc_waits s @ concat (map (\<lambda>(rank, data). filter (\<lambda>e. ev_type e = ''EVENT_WAIT'') (rd_events data)) rs)"
  by (induction rs arbitrary: s) (auto simp: scan_rank_fields)

lemma scan_ranks_producers:
  assumes "distinct (dict_keys ranks)"
  shows "dict_get (sc_producers (scan_ranks ranks)) (r, k) =
    (case dict_get ranks r of None \<Rightarrow> None
     | Some d \<Rightarrow> dict_get (fold producer_step (map (Pair r) (rd_events d)) []) (r, k))"
  using producers.get_fold_blocks [OF rank_blocks_get(1) [OF assms], of "[]" "(r, k)"]
  by (simp add: scan_ranks_def fold_scan_ranks scan_init_def rank_blocks_get(2) [OF assms]
      flip: rank_blocks_def split: option.splits)

lemma scan_ranks_groups:
  assumes "distinct (dict_keys ranks)"
  shows "group_get (sc_groups (scan_ranks ranks)) (comm, op_id, r) =
    (case dict_get ranks r of None \<Rightarrow> None
     | Some d \<Rightarrow> group_get (fold group_step (map (Pair r) (rd_events d)) []) (comm, op_id, r))"
  using entries.get_fold_blocks [OF rank_blocks_get(1) [OF assms], of "[]" "(comm, op_id, r)"]
  by (simp add: scan_ranks_def fold_scan_ranks scan_init_def rank_blocks_get(2) [OF assms]
      group_get_def flip: rank_blocks_def split: option.splits)

lemma scan_ranks_waits:
  "w \<in> set (sc_waits (scan_ranks ranks)) \<longleftrightarrow>
    (\<exists>(rank, data) \<in> set ranks. w \<in> set (rd_events data) \<and> ev_type w = ''EVENT_WAIT'')"
  by (force simp: scan_ranks_def fold_scan_ranks scan_init_def)

subsection \<open>The abstract dependency relation\<close>

text \<open>\<open>p\<close> is the last record of event \<open>k\<close> that the kept file of rank \<open>r\<close> holds.\<close>

definition last_record :: "rank_table \<Rightarrow> int \<Rightarrow> int \<Rightarrow> event \<Rightarrow> bool" where
  "last_record ranks r k p \<longleftrightarrow> (\<exists>d pre post. dict_get ranks r = Some d \<and> rd_events d = pre @ p # post \<and>
     ev_type p = ''EVENT_RECORD'' \<and> ev_correlation_id p = k \<and>
     (\<forall>x \<in> set post. ev_type x = ''EVENT_RECORD'' \<longrightarrow> ev_correlation_id x \<noteq> k))"

lemma last_recordI:
  assumes "dict_get ranks r = Some d" and "rd_events d = pre @ p # post"
    and "ev_type p = ''EVENT_RECORD''" and "ev_correlation_id p = k"
    and "\<forall>x \<in> set post. ev_type x = ''EVENT_RECORD'' \<longrightarrow> ev_correlation_id x \<noteq> k"
  shows "last_record ranks r k p"
  using assms unfolding last_record_def by blast

lemma map_Pair_split:
  "map (Pair r) ev = pre @ x # post \<longleftrightarrow>
    (\<exists>pre' y post'. ev = pre' @ y # post' \<and> pre = map (Pair r) pre' \<and> x = (r, y) \<and>
       post = map (Pair r) post')"
  by (fastforce simp: map_eq_append_conv map_eq_Cons_conv)

lemma producer_fold_iff:
  "dict_get (fold producer_step (map (Pair r) ev) []) (r, k) = Some p \<longleftrightarrow>
    (\<exists>pre post. ev = pre @ p # post \<and> ev_type p = ''EVENT_RECORD'' \<and> ev_correlation_id p = k \<and>
       (\<forall>x \<in> set post. ev_type x = ''EVENT_RECORD'' \<longrightarrow> ev_correlation_id x \<noteq> k))"
proof -
  have hit: "producer_eff (r, y) (r, k) = Some (Some p) \<longleftrightarrow>
      y = p \<and> ev_type p = ''EVENT_RECORD'' \<and> ev_correlation_id p = k" for y
    by (auto simp: producer_eff_def)
  have miss: "producer_eff (r, y) (r, k) = None \<longleftrightarrow>
      (ev_type y = ''EVENT_RECORD'' \<longrightarrow> ev_correlation_id y \<noteq> k)" for y
    by (auto simp: producer_eff_def)
  note iff = producers.get_fold_Some_iff [of "[]" "(r, k)" "map (Pair r) ev" p]
  show ?thesis (is "?L \<longleftrightarrow> ?R")
  proof
    assume ?L
    with iff obtain pre x post where "map (Pair r) ev = pre @ x # post"
      and x: "producer_eff x (r, k) = Some (Some p)" and post: "\<forall>x \<in> set post. producer_eff x (r, k) = None"
      by auto
    then obtain pre' y post' where ev: "ev = pre' @ y # post'" and "x = (r, y)" "post = map (Pair r) post'"
      unfolding map_Pair_split by blast
    with x post show ?R
      by (intro exI [of _ pre'] exI [of _ post']) (simp add: hit miss)
  next
    assume ?R
    then obtain pre post where "ev = pre @ p # post"
      and p: "ev_type p = ''EVENT_RECORD''" "ev_correlation_id p = k"
      and post: "\<forall>x \<in> set post. ev_type x = ''EVENT_RECORD'' \<longrightarrow> ev_correlation_id x \<noteq> k"
      by blast
    moreover have "producer_eff (r, p) (r, k) = Some (Some p)" using p hit by simp
    moreover have "\<forall>x \<in> set (map (Pair r) post). producer_eff x (r, k) = None"
      using post by (simp add: miss)
    ultimately show ?L
      using producers.get_fold_last [of "(r, p)" "(r, k)" "Some p" "map (Pair r) post" "map (Pair r) pre"]
      by simp
  qed
qed

lemma scan_producer_iff:
  assumes "distinct (dict_keys ranks)"
  shows "dict_get (sc_producers (scan_ranks ranks)) (r, k) = Some p \<longleftrightarrow> last_record ranks r k p"
  by (simp add: scan_ranks_producers [OF assms] last_record_def producer_fold_iff split: option.split)

definition depends :: "rank_table \<Rightarrow> (op_node \<times> op_node) set" where
  "depends ranks =
     {(Record r (ev_stream e) (ev_seq e), Wait r (ev_stream w) (ev_seq w)) | r d e w.
        (r, d) \<in> set ranks \<and> ordered_after (rd_events d) e w} \<union>
     {(Wait (ev_rank w) (ev_stream w) (ev_seq w), Record (ev_rank w) (ev_stream p) (ev_seq p)) | r d w p.
        (r, d) \<in> set ranks \<and> w \<in> set (rd_events d) \<and> ev_type w = ''EVENT_WAIT'' \<and>
        last_record ranks (ev_rank w) (ev_correlation_id w) p}"

lemma dependsE:
  assumes "(m, n) \<in> depends ranks"
  obtains r d e w where "(r, d) \<in> set ranks" and "ordered_after (rd_events d) e w"
      and "m = Record r (ev_stream e) (ev_seq e)" and "n = Wait r (ev_stream w) (ev_seq w)"
  | r d w p where "(r, d) \<in> set ranks" and "w \<in> set (rd_events d)" and "ev_type w = ''EVENT_WAIT''"
      and "last_record ranks (ev_rank w) (ev_correlation_id w) p"
      and "m = Wait (ev_rank w) (ev_stream w) (ev_seq w)"
      and "n = Record (ev_rank w) (ev_stream p) (ev_seq p)"
  using assms by (auto simp: depends_def)

lemma depends_order:
  "(r, d) \<in> set ranks \<Longrightarrow> ordered_after (rd_events d) e w \<Longrightarrow>
    (Record r (ev_stream e) (ev_seq e), Wait r (ev_stream w) (ev_seq w)) \<in> depends ranks"
  by (auto simp: depends_def)

lemma depends_wait:
  "(r, d) \<in> set ranks \<Longrightarrow> w \<in> set (rd_events d) \<Longrightarrow> ev_type w = ''EVENT_WAIT'' \<Longrightarrow>
    last_record ranks (ev_rank w) (ev_correlation_id w) p \<Longrightarrow>
    (Wait (ev_rank w) (ev_stream w) (ev_seq w), Record (ev_rank w) (ev_stream p) (ev_seq p)) \<in> depends ranks"
  by (auto simp: depends_def)

text \<open>The graph the code searches, as one dictionary.\<close>

definition search_graph :: "(string list \<Rightarrow> string list) \<Rightarrow> rank_table \<Rightarrow> edge_map" where
  "search_graph ord ranks = map (\<lambda>(k, ds). (k, ord ds))
     (snd (dependency_graph ranks (sc_producers (scan_ranks ranks)) (sc_waits (scan_ranks ranks))))"

lemma dict_list_map_ord:
  assumes "\<forall>xs. set (ord xs) = set xs"
  shows "set (dict_list (map (\<lambda>(k, ds). (k, ord ds)) d) x) = set (dict_list d x)"
  using assms by (simp add: dict_list_def map_of_map split: option.split)

lemma graph_edge_iff:
  assumes "distinct (dict_keys ranks)" and "\<forall>xs. set (ord xs) = set xs"
  shows "y \<in> set (dict_list (search_graph ord ranks) x) \<longleftrightarrow>
    (\<exists>(rank, data) \<in> set ranks. order_edge rank (rd_events data) x y) \<or>
    (\<exists>w. (\<exists>(rank, data) \<in> set ranks. w \<in> set (rd_events data) \<and> ev_type w = ''EVENT_WAIT'') \<and>
      (\<exists>p. last_record ranks (ev_rank w) (ev_correlation_id w) p \<and>
        x = wait_node (ev_rank w) (ev_stream w) (ev_seq w) \<and>
        y = record_node (ev_rank w) (ev_stream p) (ev_seq p)))"
  unfolding search_graph_def dict_list_map_ord [OF assms(2)] dependency_graph_def wait_fold(2)
    order_edges_mem wait_producer_def scan_producer_iff [OF assms(1)] Bex_def scan_ranks_waits
  by blast

lemma search_graph_edges:
  assumes "distinct (dict_keys ranks)" and "\<forall>xs. set (ord xs) = set xs"
  shows "graph_rel (dict_list (search_graph ord ranks)) = map_prod node_name node_name ` depends ranks"
proof (intro subset_antisym subrelI)
  fix x y assume "(x, y) \<in> graph_rel (dict_list (search_graph ord ranks))"
  then have edge: "y \<in> set (dict_list (search_graph ord ranks) x)" by simp
  from edge [unfolded graph_edge_iff [OF assms]]
  have "\<exists>m n. (m, n) \<in> depends ranks \<and> x = node_name m \<and> y = node_name n"
  proof (elim disjE bexE exE conjE)
    fix b assume "b \<in> set ranks" and "case b of (rank, data) \<Rightarrow> order_edge rank (rd_events data) x y"
    then obtain r d e w where "(r, d) \<in> set ranks" "ordered_after (rd_events d) e w"
      "x = record_node r (ev_stream e) (ev_seq e)" "y = wait_node r (ev_stream w) (ev_seq w)"
      by (auto simp: order_edge_def)
    then have "(Record r (ev_stream e) (ev_seq e), Wait r (ev_stream w) (ev_seq w)) \<in> depends ranks \<and>
        x = node_name (Record r (ev_stream e) (ev_seq e)) \<and>
        y = node_name (Wait r (ev_stream w) (ev_seq w))"
      by (simp add: depends_order)
    then show ?thesis by blast
  next
    fix w p b assume b: "b \<in> set ranks"
      "case b of (rank, data) \<Rightarrow> w \<in> set (rd_events data) \<and> ev_type w = ''EVENT_WAIT''"
      "last_record ranks (ev_rank w) (ev_correlation_id w) p"
      "x = wait_node (ev_rank w) (ev_stream w) (ev_seq w)"
      "y = record_node (ev_rank w) (ev_stream p) (ev_seq p)"
    obtain r d where "b = (r, d)" by force
    with b have "(Wait (ev_rank w) (ev_stream w) (ev_seq w), Record (ev_rank w) (ev_stream p) (ev_seq p))
          \<in> depends ranks \<and>
        x = node_name (Wait (ev_rank w) (ev_stream w) (ev_seq w)) \<and>
        y = node_name (Record (ev_rank w) (ev_stream p) (ev_seq p))"
      by (simp add: depends_wait [of r d])
    then show ?thesis by blast
  qed
  then show "(x, y) \<in> map_prod node_name node_name ` depends ranks" by force
next
  fix x y assume "(x, y) \<in> map_prod node_name node_name ` depends ranks"
  then obtain m n where mn: "(m, n) \<in> depends ranks" and xy: "x = node_name m" "y = node_name n" by auto
  from mn have "y \<in> set (dict_list (search_graph ord ranks) x)"
  proof (cases rule: dependsE)
    case (1 r d e w)
    then have "order_edge r (rd_events d) x y" unfolding xy order_edge_def by auto
    with 1(1) show ?thesis unfolding graph_edge_iff [OF assms] by blast
  next
    case (2 r d w p)
    with xy show ?thesis unfolding graph_edge_iff [OF assms] by fastforce
  qed
  then show "(x, y) \<in> graph_rel (dict_list (search_graph ord ranks))" by simp
qed

lemma trancl_image:
  assumes "inj f"
  shows "(map_prod f f ` R)\<^sup>+ = map_prod f f ` R\<^sup>+"
proof (intro subset_antisym subrelI)
  fix x y assume "(x, y) \<in> (map_prod f f ` R)\<^sup>+"
  then show "(x, y) \<in> map_prod f f ` R\<^sup>+"
  proof (induction rule: trancl_induct)
    case (step y z)
    then obtain a b b' c where "x = f a" "y = f b" "(a, b) \<in> R\<^sup>+" "y = f b'" "z = f c" "(b', c) \<in> R"
      by auto
    with assms have "(a, c) \<in> R\<^sup>+" by (auto dest: injD intro: trancl_into_trancl)
    with \<open>x = f a\<close> \<open>z = f c\<close> show ?case by auto
  qed auto
next
  have "(f a, f b) \<in> (map_prod f f ` R)\<^sup>+" if "(a, b) \<in> R\<^sup>+" for a b
    using that
  proof (induction rule: trancl_induct)
    case (step b c)
    then have "(f b, f c) \<in> map_prod f f ` R" by force
    with step.IH show ?case by (rule trancl_into_trancl)
  qed force
  then show "(x, y) \<in> map_prod f f ` R\<^sup>+ \<Longrightarrow> (x, y) \<in> (map_prod f f ` R)\<^sup>+" for x y
    by auto
qed

lemma acyclic_image: "inj f \<Longrightarrow> acyclic (map_prod f f ` R) \<longleftrightarrow> acyclic R"
  unfolding acyclic_def trancl_image by (auto dest: injD)

text \<open>A reported cycle, read back as operations.\<close>

definition dependency_cycle :: "rank_table \<Rightarrow> op_node list \<Rightarrow> bool" where
  "dependency_cycle ranks ns \<longleftrightarrow> 2 \<le> length ns \<and> hd ns = last ns \<and> distinct (butlast ns) \<and>
     successively (\<lambda>m n. (m, n) \<in> depends ranks) ns"

lemma successively_names:
  assumes "successively (\<lambda>u v. (u, v) \<in> map_prod node_name node_name ` R) c" and "2 \<le> length c"
  shows "\<exists>ns. c = map node_name ns \<and> successively (\<lambda>m n. (m, n) \<in> R) ns"
  using assms
proof (induction c)
  case (Cons x c)
  note IH = Cons.IH
  from Cons.prems obtain y c' where c: "c = y # c'" by (cases c) auto
  with Cons.prems(1) obtain m n where mn: "(m, n) \<in> R" "x = node_name m" "y = node_name n" by auto
  show ?case
  proof (cases c')
    case Nil
    with c mn show ?thesis by (intro exI [of _ "[m, n]"]) simp
  next
    case (Cons z c'')
    with c Cons.prems(1) have "successively (\<lambda>u v. (u, v) \<in> map_prod node_name node_name ` R) c" "2 \<le> length c"
      by simp_all
    then obtain ns where ns: "c = map node_name ns"
      "successively (\<lambda>m n. (m, n) \<in> R) ns" using IH by blast
    then obtain ns' where "ns = n # ns'" using c mn(3) by (cases ns) auto
    with ns mn show ?thesis by (intro exI [of _ "m # ns"]) simp
  qed
qed simp

lemma stream_cycles_search:
  "stream_cycles depth ord ranks = find_cycles depth (search_graph ord ranks)"
  by (simp add: stream_cycles_def search_graph_def Let_def)

lemma stream_cycles_outcome:
  assumes "distinct (dict_keys ranks)" and "\<forall>xs. set (ord xs) = set xs"
    and "stream_cycles depth ord ranks = Inr cs"
  shows "cs = [] \<longleftrightarrow> acyclic (depends ranks)"
    and "c \<in> set cs \<Longrightarrow> \<exists>ns. c = map node_name ns \<and> dependency_cycle ranks ns"
proof -
  let ?g = "dict_list (search_graph ord ranks)"
  have g: "graph_rel ?g = map_prod node_name node_name ` depends ranks"
    by (rule search_graph_edges [OF assms(1,2)])
  have r: "(\<forall>c \<in> set cs. is_cycle ?g c) \<and> (cs = [] \<longleftrightarrow> acyclic (graph_rel ?g))"
    using find_cycles_result assms(3) unfolding stream_cycles_search by blast
  moreover have "inj node_name" by (rule injI) simp
  ultimately show "cs = [] \<longleftrightarrow> acyclic (depends ranks)" by (simp add: g acyclic_image)
  assume "c \<in> set cs"
  with r have "is_cycle ?g c" by blast
  then have c: "2 \<le> length c" "hd c = last c" "distinct (butlast c)"
    and "successively (\<lambda>u v. (u, v) \<in> graph_rel ?g) c"
    by (simp_all add: is_cycle_def)
  with successively_names [of "depends ranks" c] obtain ns where ns: "c = map node_name ns"
    "successively (\<lambda>m n. (m, n) \<in> depends ranks) ns" by (auto simp: g)
  with c have "2 \<le> length ns" "distinct (butlast ns)"
    by (simp_all add: map_butlast [symmetric] distinct_map)
  moreover from this(1) ns c(2) have "hd ns = last ns"
    by (cases ns) (auto simp: last_map split: if_splits)
  ultimately have "2 \<le> length ns" "distinct (butlast ns)" "hd ns = last ns" by blast+
  with ns show "\<exists>ns. c = map node_name ns \<and> dependency_cycle ranks ns"
    unfolding dependency_cycle_def by blast
qed

subsection \<open>Orderly handoffs and crossed waits\<close>

text \<open>
  Sequence numbers grow along the events of a rank, and every wait comes after the record that
  last used its event: no cycle.
\<close>

definition seq_ordered :: "rank_table \<Rightarrow> bool" where
  "seq_ordered ranks \<longleftrightarrow> (\<forall>(r, d) \<in> set ranks. sorted_wrt (<) (map ev_seq (rd_events d)))"

definition handoffs_ordered :: "rank_table \<Rightarrow> bool" where
  "handoffs_ordered ranks \<longleftrightarrow> (\<forall>(r, d) \<in> set ranks. \<forall>w \<in> set (rd_events d). ev_type w = ''EVENT_WAIT'' \<longrightarrow>
     (\<forall>p. last_record ranks (ev_rank w) (ev_correlation_id w) p \<longrightarrow> ev_seq p < ev_seq w))"

lemma acyclic_decreasing: "(\<And>x y. (x, y) \<in> R \<Longrightarrow> f y < (f x :: int)) \<Longrightarrow> acyclic R"
proof -
  assume dec: "\<And>x y. (x, y) \<in> R \<Longrightarrow> f y < f x"
  have "f y < f x" if "(x, y) \<in> R\<^sup>+" for x y
    using that by (induction rule: trancl_induct) (auto dest: dec)
  then show ?thesis by (force simp: acyclic_def)
qed

lemma handoffs_acyclic:
  assumes "seq_ordered ranks" and "handoffs_ordered ranks"
  shows "acyclic (depends ranks)"
proof (rule acyclic_decreasing [where f = op_seq])
  fix m n assume "(m, n) \<in> depends ranks"
  then show "op_seq n < op_seq m"
  proof (cases rule: dependsE)
    case (1 r d e w)
    then obtain pre post where "rd_events d = pre @ e # post" "w \<in> set pre"
      by (auto simp: ordered_after_def)
    moreover have "sorted_wrt (<) (map ev_seq (rd_events d))"
      using assms(1) 1(1) by (auto simp: seq_ordered_def)
    ultimately show ?thesis using 1 by (auto simp: sorted_wrt_append)
  next
    case (2 r d w p)
    with assms(2) show ?thesis by (fastforce simp: handoffs_ordered_def)
  qed
qed

text \<open>Two waits of a rank, each before the record that would release the other.\<close>

definition crossed_waits :: "rank_table \<Rightarrow> bool" where
  "crossed_waits ranks \<longleftrightarrow> (\<exists>r d w1 p1 w2 p2. (r, d) \<in> set ranks \<and>
     ordered_after (rd_events d) p1 w1 \<and> ordered_after (rd_events d) p2 w2 \<and>
     ev_rank w1 = r \<and> ev_rank w2 = r \<and>
     last_record ranks r (ev_correlation_id w1) p2 \<and> last_record ranks r (ev_correlation_id w2) p1)"

lemma crossed_cyclic:
  assumes "crossed_waits ranks"
  shows "\<not> acyclic (depends ranks)"
proof -
  from assms obtain r d w1 p1 w2 p2 where rd: "(r, d) \<in> set ranks"
    and o: "ordered_after (rd_events d) p1 w1" "ordered_after (rd_events d) p2 w2"
    and rk: "ev_rank w1 = r" "ev_rank w2 = r"
    and l: "last_record ranks r (ev_correlation_id w1) p2" "last_record ranks r (ev_correlation_id w2) p1"
    by (auto simp: crossed_waits_def)
  let ?w1 = "Wait r (ev_stream w1) (ev_seq w1)" and ?p1 = "Record r (ev_stream p1) (ev_seq p1)"
  let ?w2 = "Wait r (ev_stream w2) (ev_seq w2)" and ?p2 = "Record r (ev_stream p2) (ev_seq p2)"
  have w: "w1 \<in> set (rd_events d)" "w2 \<in> set (rd_events d)"
    "ev_type w1 = ''EVENT_WAIT''" "ev_type w2 = ''EVENT_WAIT''"
    using ordered_afterD o by blast+
  have "(?w1, ?p2) \<in> depends ranks" "(?w2, ?p1) \<in> depends ranks"
    using depends_wait [OF rd w(1,3), of p2] depends_wait [OF rd w(2,4), of p1] rk l by simp_all
  moreover have "(?p1, ?w1) \<in> depends ranks" "(?p2, ?w2) \<in> depends ranks"
    using depends_order [OF rd] o by blast+
  ultimately have "(?w1, ?w1) \<in> (depends ranks)\<^sup>+"
    by (meson trancl.r_into_trancl trancl_into_trancl)
  then show ?thesis by (auto simp: acyclic_def)
qed

subsection \<open>Depth that is enough\<close>

definition sync_nodes :: "int \<Rightarrow> event list \<Rightarrow> op_node list" where
  "sync_nodes r ev = map (\<lambda>e. if ev_type e = ''EVENT_WAIT'' then Wait r (ev_stream e) (ev_seq e)
                              else Record r (ev_stream e) (ev_seq e))
     (filter (\<lambda>e. ev_type e = ''EVENT_WAIT'' \<or> ev_type e = ''EVENT_RECORD'') ev)"

definition all_sync_nodes :: "rank_table \<Rightarrow> op_node list" where
  "all_sync_nodes ranks = concat (map (\<lambda>(r, d). sync_nodes r (rd_events d)) ranks)"

definition well_ranked :: "rank_table \<Rightarrow> bool" where
  "well_ranked ranks \<longleftrightarrow> (\<forall>(r, d) \<in> set ranks. \<forall>e \<in> set (rd_events d). ev_rank e = r)"

lemma sync_nodes_mem:
  "e \<in> set ev \<Longrightarrow> ev_type e = ''EVENT_WAIT'' \<Longrightarrow> Wait r (ev_stream e) (ev_seq e) \<in> set (sync_nodes r ev)"
  "e \<in> set ev \<Longrightarrow> ev_type e = ''EVENT_RECORD'' \<Longrightarrow> Record r (ev_stream e) (ev_seq e) \<in> set (sync_nodes r ev)"
  by (force simp: sync_nodes_def)+

lemma sync_nodes_append: "sync_nodes r (es @ es') = sync_nodes r es @ sync_nodes r es'"
  by (simp add: sync_nodes_def)

definition edges_in :: "string set \<Rightarrow> edge_map \<Rightarrow> bool" where
  "edges_in N es \<longleftrightarrow> distinct (dict_keys es) \<and> fst ` set es \<subseteq> N \<and> (\<forall>x. set (dict_list es x) \<subseteq> N)"

lemma edges_in_nodes: "edges_in N es \<Longrightarrow> graph_nodes es \<subseteq> N"
proof -
  assume es: "edges_in N es"
  have "set ds \<subseteq> N" if "(x, ds) \<in> set es" for x ds
  proof -
    from that es have "dict_list es x = ds" by (simp add: edges_in_def dict_list_def)
    with es show ?thesis by (auto simp: edges_in_def)
  qed
  with es show ?thesis by (force simp: graph_nodes_def edges_in_def)
qed

lemma edge_add_in: "edges_in N es \<Longrightarrow> a \<in> N \<Longrightarrow> b \<in> N \<Longrightarrow> edges_in N (edge_add a b es)"
  by (auto simp: edges_in_def edge_add_def py_dict)

lemma record_edges_in:
  "edges_in N es \<Longrightarrow> record_node r (ev_stream e) (ev_seq e) \<in> N \<Longrightarrow>
    \<forall>w \<in> set previous. wait_node r (ev_stream w) (ev_seq w) \<in> N \<Longrightarrow>
    edges_in N (record_edges r e previous es)"
  unfolding record_edges_def by (induction previous arbitrary: es) (simp_all add: edge_add_in)

lemma rank_edges_in:
  "edges_in N es \<Longrightarrow> node_name ` set (sync_nodes r ev) \<subseteq> N \<Longrightarrow> edges_in N (rank_edges r ev es)"
proof (induction ev rule: rev_induct)
  case Nil
  then show ?case by (simp add: rank_edges_def)
next
  case (snoc e ev)
  obtain prior es' where f: "fold (rank_edge_step r) ev ([], es) = (prior, es')" by force
  have prior: "dict_list prior k = filter (\<lambda>w. ev_type w = ''EVENT_WAIT'' \<and> ev_stream w = k) ev" for k
    using prior_waits_list [of r ev es k] f by simp
  have N: "node_name n \<in> N" if "n \<in> set (sync_nodes r (ev @ [e]))" for n
    using snoc.prems(2) that by blast
  have es': "edges_in N es'"
  proof -
    have "node_name ` set (sync_nodes r ev) \<subseteq> N"
      using snoc.prems(2) by (simp add: sync_nodes_append image_Un)
    from snoc.IH [OF snoc.prems(1) this] show ?thesis by (simp add: rank_edges_def f)
  qed
  have "edges_in N (record_edges r e (dict_list prior (ev_stream e)) es')"
    if e: "ev_type e = ''EVENT_RECORD''"
  proof (rule record_edges_in [OF es'])
    show "record_node r (ev_stream e) (ev_seq e) \<in> N"
      using N [OF sync_nodes_mem(2)] e by simp
    have "wait_node r (ev_stream w) (ev_seq w) \<in> N" if "w \<in> set ev" "ev_type w = ''EVENT_WAIT''" for w
      using N [OF sync_nodes_mem(1)] that by simp
    then show "\<forall>w \<in> set (dict_list prior (ev_stream e)). wait_node r (ev_stream w) (ev_seq w) \<in> N"
      unfolding prior set_filter by blast
  qed
  with es' show ?case by (simp add: rank_edges_def f)
qed

lemma fold_rank_edges_in:
  "edges_in N es \<Longrightarrow> node_name ` set (all_sync_nodes rs) \<subseteq> N \<Longrightarrow>
    edges_in N (fold (\<lambda>(rank, data). rank_edges rank (rd_events data)) rs es)"
proof (induction rs arbitrary: es)
  case (Cons x rs)
  then show ?case by (cases x) (simp add: rank_edges_in all_sync_nodes_def image_Un)
qed simp

lemma order_edges_in: "edges_in (node_name ` set (all_sync_nodes ranks)) (order_edges ranks)"
  unfolding order_edges_def
  by (rule fold_rank_edges_in) (simp_all add: edges_in_def dict_list_def)

lemma wait_fold_in:
  assumes "edges_in N es"
    and "\<forall>w \<in> set ws. \<forall>p. wait_producer producers w = Some p \<longrightarrow>
      wait_node (ev_rank w) (ev_stream w) (ev_seq w) \<in> N \<and>
      record_node (ev_rank w) (ev_stream p) (ev_seq p) \<in> N"
  shows "edges_in N (snd (fold (wait_step producers) ws (deps, es)))"
  using assms by (induction ws arbitrary: deps es) (auto simp: edge_add_in split: option.split)

lemma stream_cycles_enough:
  assumes "distinct (dict_keys ranks)" and "\<forall>xs. set (ord xs) = set xs" and "well_ranked ranks"
    and "length (all_sync_nodes ranks) \<le> depth"
  shows "\<exists>cs. stream_cycles depth ord ranks = Inr cs"
proof -
  let ?N = "node_name ` set (all_sync_nodes ranks)"
  let ?es = "snd (dependency_graph ranks (sc_producers (scan_ranks ranks)) (sc_waits (scan_ranks ranks)))"
  have "edges_in ?N ?es"
    unfolding dependency_graph_def
  proof (rule wait_fold_in [OF order_edges_in], intro ballI allI impI)
    fix w p assume w: "w \<in> set (sc_waits (scan_ranks ranks))"
      and "wait_producer (sc_producers (scan_ranks ranks)) w = Some p"
    then have p: "last_record ranks (ev_rank w) (ev_correlation_id w) p"
      by (simp add: wait_producer_def scan_producer_iff [OF assms(1)])
    from w obtain r d where rd: "(r, d) \<in> set ranks" "w \<in> set (rd_events d)" "ev_type w = ''EVENT_WAIT''"
      by (auto simp: scan_ranks_waits)
    with assms(3) have "ev_rank w = r" by (auto simp: well_ranked_def)
    with rd have "Wait (ev_rank w) (ev_stream w) (ev_seq w) \<in> set (all_sync_nodes ranks)"
      using sync_nodes_mem(1) by (fastforce simp: all_sync_nodes_def)
    moreover from p obtain d' where "dict_get ranks (ev_rank w) = Some d'" "p \<in> set (rd_events d')"
      "ev_type p = ''EVENT_RECORD''" by (auto simp: last_record_def)
    then have "Record (ev_rank w) (ev_stream p) (ev_seq p) \<in> set (all_sync_nodes ranks)"
      using sync_nodes_mem(2) map_of_SomeD by (fastforce simp: all_sync_nodes_def)
    ultimately show "wait_node (ev_rank w) (ev_stream w) (ev_seq w) \<in> ?N \<and>
        record_node (ev_rank w) (ev_stream p) (ev_seq p) \<in> ?N"
      by (metis image_eqI node_name.simps)
  qed
  then have "edges_in ?N (search_graph ord ranks)"
    unfolding edges_in_def search_graph_def dict_list_map_ord [OF assms(2)]
    by (simp add: case_prod_beta o_def image_image)
  then have "card (graph_nodes (search_graph ord ranks)) \<le> card ?N"
    by (intro card_mono edges_in_nodes) simp_all
  also have "\<dots> \<le> length (all_sync_nodes ranks)"
    using card_image_le card_length le_trans by blast
  finally show ?thesis
    unfolding stream_cycles_search using assms(4) by (intro find_cycles_enough) linarith
qed

end
