(* ===== verification/Analyzer.thy ===== *)
theory Analyzer
  imports Checkpoint_Progress Dependency_Graph
begin

text \<open>
  \<open>analyze\<close> and the checks of \<open>main\<close> in \<open>flightrecorder/analyzer.py\<close>, composed from the file
  selection, the event loop, the checkpoint progress and the dependency graph: the report of a
  rank, the table of collectives, and the whole report. \<open>depth\<close> is the recursion depth left to
  the cycle search and \<open>ord\<close> the iteration order of its sets.
\<close>

subsection \<open>The report of a rank\<close>

record rank_report =
  rr_pid :: int
  rr_last_sequence :: int
  rr_last_event :: "event option"
  rr_last_host_event :: "event option"
  rr_last_device_confirmation :: "event option"
  rr_outstanding_host_scopes :: "event list"
  rr_last_events :: "event list"
  rr_ring_wrap_or_loss :: bool
  rr_device_checkpoint_progress :: "(int, stream_progress) dict"
  rr_checkpoint_warnings :: "event list"
  rr_stale_or_unmatched_confirmations :: "event list"
  rr_checkpoint_coverage_warning :: bool

definition is_host_event :: "event \<Rightarrow> bool" where
  "is_host_event e \<longleftrightarrow> \<not> (ev_type e = ''DEVICE_CONFIRMED'' \<or>
     (ev_type e = ''CHECKPOINT'' \<and> \<not> has_flag e CHECKPOINT_SUBMITTED))"

definition coverage_warning :: "(scope_key, event) dict \<Rightarrow> (int, stream_progress) dict \<Rightarrow> bool" where
  "coverage_warning pending progress \<longleftrightarrow>
     (\<exists>e \<in> set (dict_values pending). ev_type e = ''DEVICE_SYNC_BEGIN'') \<and>
     progress \<noteq> [] \<and> (\<forall>p \<in> set (dict_values progress). pr_unconfirmed_count p = 0)"

text \<open>\<open>s\<close> is the state of the scan after the events of this rank.\<close>

definition rank_report_of :: "rank_data \<Rightarrow> scan \<Rightarrow> rank_report" where
  "rank_report_of data s =
     (let ev = rd_events data;
          progress = rank_progress (sc_submitted s) (sc_confirmed s) (sc_not_ready s)
      in \<lparr>rr_pid = hd_pid (rd_header data),
          rr_last_sequence = (case last_opt ev of None \<Rightarrow> 0 | Some e \<Rightarrow> ev_seq e),
          rr_last_event = last_opt ev,
          rr_last_host_event = last_opt (filter is_host_event ev),
          rr_last_device_confirmation = last_opt (sc_confirmed s),
          rr_outstanding_host_scopes = dict_values (sc_pending s),
          rr_last_events = take_last 20 ev,
          rr_ring_wrap_or_loss = (hd_write_seq (rd_header data) > int (length ev)),
          rr_device_checkpoint_progress = progress,
          rr_checkpoint_warnings = sc_warnings s,
          rr_stale_or_unmatched_confirmations = stale_confirmations (sc_submitted s) (sc_confirmed s),
          rr_checkpoint_coverage_warning = coverage_warning (sc_pending s) progress\<rparr>)"

definition report_step ::
  "int \<times> rank_data \<Rightarrow> scan \<times> (int, rank_report) dict \<Rightarrow> scan \<times> (int, rank_report) dict" where
  "report_step = (\<lambda>(rank, data) (s, reports).
     let s' = scan_rank rank (rd_events data) s
     in (s', dict_set rank (rank_report_of data s') reports))"

definition scan_reports :: "rank_table \<Rightarrow> scan \<times> (int, rank_report) dict" where
  "scan_reports ranks = fold report_step (sort_key fst ranks) (scan_init, [])"

subsection \<open>Collectives\<close>

record collective =
  co_communicator_id :: int
  co_operation_id :: int
  co_entered :: "int list"
  co_missing_expected :: "int list"
  co_types :: "int list"
  co_type_mismatch :: bool
  co_end_observed :: "int list"

text \<open>\<open>sorted\<close> of a set given by a list that may repeat elements.\<close>

definition sorted_set :: "int list \<Rightarrow> int list" where
  "sorted_set xs = sort (remdups xs)"

definition end_observed :: "rank_table \<Rightarrow> int \<Rightarrow> int \<Rightarrow> int list" where
  "end_observed ranks comm op_id = sort (map fst (filter (\<lambda>(r, d). \<exists>e \<in> set (rd_events d).
     ev_type e = ''HCCL_END'' \<and> ev_arg0 e = comm \<and> ev_correlation_id e = op_id) ranks))"

definition collective_entry ::
  "rank_table \<Rightarrow> int list option \<Rightarrow> (int \<times> int) \<times> (int, event) dict \<Rightarrow> collective" where
  "collective_entry ranks expected_ranks = (\<lambda>((comm, op_id), entered).
     let expected = (case expected_ranks of Some rs \<Rightarrow> rs | None \<Rightarrow> dict_keys ranks);
         types = remdups (map ev_arg1 (dict_values entered))
     in \<lparr>co_communicator_id = comm, co_operation_id = op_id,
         co_entered = sort (dict_keys entered),
         co_missing_expected =
           (if expected_ranks \<noteq> None
            then sorted_set (filter (\<lambda>r. r \<notin> set (dict_keys entered)) expected) else []),
         co_types = sort types, co_type_mismatch = (length types > 1),
         co_end_observed = end_observed ranks comm op_id\<rparr>)"

definition collectives ::
  "rank_table \<Rightarrow> int list option \<Rightarrow> int option \<Rightarrow>
    (int \<times> int, (int, event) dict) dict \<Rightarrow> collective list" where
  "collectives ranks expected_ranks communicator_id groups =
     map (collective_entry ranks expected_ranks)
       (filter (\<lambda>((comm, op_id), entered). \<not> (communicator_id \<noteq> None \<and> communicator_id \<noteq> Some comm))
          (sort_key fst groups))"

subsection \<open>The whole report\<close>

record report =
  rp_ranks :: "(int, rank_report) dict"
  rp_collectives :: "collective list"
  rp_dependencies :: "dependency list"
  rp_stream_cycles_candidate :: "string list list"
  rp_errors :: "string list"
  rp_limitations :: "string list"

definition limitations :: "string list" where
  "limitations =
    [''All events are host observations unless DEVICE_CONFIRMED is explicitly emitted after a verified device completion.'',
     ''A stream dependency cycle is a candidate only; EventRecord placement and device completion require validation.'',
     ''A missing collective requires explicit expected ranks and a shared communicator/operation id.'']"

definition analyze ::
  "file_reads \<Rightarrow> (string list \<Rightarrow> string list) \<Rightarrow> nat \<Rightarrow> path list \<Rightarrow> int list option \<Rightarrow> int option \<Rightarrow>
    py_error + report" where
  "analyze fs ord depth paths expected_ranks communicator_id =
     (case select_ranks fs paths of
        Inl e \<Rightarrow> Inl e
      | Inr (ranks, errors) \<Rightarrow>
          (let (s, reports) = scan_reports ranks;
               (dependencies, edges) = dependency_graph ranks (sc_producers s) (sc_waits s);
               collective = collectives ranks expected_ranks communicator_id (sc_groups s)
           in case find_cycles depth (map (\<lambda>(k, ds). (k, ord ds)) edges) of
                Inl e \<Rightarrow> Inl e
              | Inr cycles \<Rightarrow> Inr
                  \<lparr>rp_ranks = reports, rp_collectives = collective, rp_dependencies = dependencies,
                   rp_stream_cycles_candidate = cycles, rp_errors = errors,
                   rp_limitations = limitations\<rparr>))"

subsection \<open>The command line\<close>

text \<open>
  \<open>int(text)\<close> on ASCII text: surrounding white space, a sign, digits with single underscores
  between them.
\<close>

fun digits_value :: "nat \<Rightarrow> string \<Rightarrow> nat option" where
  "digits_value n [] = Some n"
| "digits_value n (c # cs) =
     (if is_digit c then digits_value (10 * n + digit_val c) cs
      else if c = CHR ''_'' then
        (case cs of d # ds \<Rightarrow> if is_digit d then digits_value (10 * n + digit_val d) ds else None
         | [] \<Rightarrow> None)
      else None)"

definition unsigned_value :: "string \<Rightarrow> nat option" where
  "unsigned_value s = (case s of c # cs \<Rightarrow> if is_digit c then digits_value (digit_val c) cs else None
                       | [] \<Rightarrow> None)"

definition parse_int :: "string \<Rightarrow> py_error + int" where
  "parse_int text =
     (let s = str_strip text;
          r = (case s of
                 CHR ''-'' # cs \<Rightarrow> map_option (\<lambda>n. - int n) (unsigned_value cs)
               | CHR ''+'' # cs \<Rightarrow> map_option int (unsigned_value cs)
               | _ \<Rightarrow> map_option int (unsigned_value s))
      in case r of
           None \<Rightarrow> Inl (ValueError (''invalid literal for int() with base 10: '' @ text))
         | Some n \<Rightarrow> Inr n)"

fun str_split :: "char \<Rightarrow> string \<Rightarrow> string list" where
  "str_split sep [] = [[]]"
| "str_split sep (c # cs) =
     (if c = sep then [] # str_split sep cs
      else (case str_split sep cs of w # ws \<Rightarrow> (c # w) # ws | [] \<Rightarrow> [[c]]))"

fun parse_ints :: "string list \<Rightarrow> py_error + int list" where
  "parse_ints [] = Inr []"
| "parse_ints (w # ws) =
     (case parse_int w of Inl e \<Rightarrow> Inl e
      | Inr n \<Rightarrow> (case parse_ints ws of Inl e \<Rightarrow> Inl e | Inr ns \<Rightarrow> Inr (n # ns)))"

datatype stop = Usage string | Raised py_error

text \<open>
  \<open>main\<close> up to the report: \<open>tree\<close> lists the entries below the snapshot directory, \<open>Usage\<close> is
  \<open>p.error\<close>.
\<close>

definition main_analyze ::
  "file_reads \<Rightarrow> (string list \<Rightarrow> string list) \<Rightarrow> nat \<Rightarrow> path list \<Rightarrow> string option \<Rightarrow> int option \<Rightarrow>
    stop + report" where
  "main_analyze fs ord depth tree expected_text communicator_id =
     (let parsed = (case expected_text of
                      Some t \<Rightarrow> if t \<noteq> [] then map_sum id Some (parse_ints (str_split (CHR '','') t))
                                else Inr None
                    | None \<Rightarrow> Inr None)
      in case parsed of
           Inl e \<Rightarrow> Inl (Raised e)
         | Inr expected \<Rightarrow>
             (let files = sort (filter (\<lambda>p. str_endswith (path_name p) ''.flight'') tree)
              in if files = [] then Inl (Usage ''no .flight files found'')
                 else if expected \<noteq> None \<and> communicator_id = None
                 then Inl (Usage ''--expected-ranks requires --communicator-id to avoid false missing-rank reports across groups'')
                 else map_sum Raised id (analyze fs ord depth files expected communicator_id)))"

subsection \<open>Reports, rank by rank\<close>

text \<open>The report of a rank depends on its own events only.\<close>

definition report_for :: "rank_data \<Rightarrow> rank_report" where
  "report_for d = rank_report_of d (scan_rank (rd_rank d) (rd_events d) scan_init)"

lemma rank_report_of_scan:
  "rank_report_of d (scan_rank r ev s) = rank_report_of d (scan_rank r' ev s')"
  by (simp add: rank_report_of_def scan_rank_fields)

lemma fold_report_step:
  "fold report_step rs (s, reports) =
    (fold (\<lambda>(rank, data). scan_rank rank (rd_events data)) rs s,
     fold (\<lambda>(rank, data). dict_set rank (report_for data)) rs reports)"
proof (induction rs arbitrary: s reports)
  case (Cons x rs)
  obtain r d where "x = (r, d)" by force
  with Cons show ?case
    by (simp add: report_step_def Let_def report_for_def rank_report_of_scan [of d r _ s "rd_rank d" scan_init])
qed simp

lemma scan_reports_fst: "fst (scan_reports ranks) = scan_ranks ranks"
  by (simp add: scan_reports_def scan_ranks_def fold_report_step)

lemma fold_dict_set_get:
  "distinct (map fst rs) \<Longrightarrow>
    dict_get (fold (\<lambda>(k, v). dict_set k (f v)) rs d) x =
      (case map_of rs x of None \<Rightarrow> dict_get d x | Some v \<Rightarrow> Some (f v))"
proof (induction rs arbitrary: d)
  case (Cons y rs)
  obtain k v where y: "y = (k, v)" by force
  show ?case
  proof (cases "x = k")
    case True
    with Cons.prems y have "map_of rs x = None" by (simp add: map_of_eq_None_iff)
    with Cons y True show ?thesis by (simp add: py_dict)
  next
    case False
    with Cons y show ?thesis by (simp add: py_dict split: option.split)
  qed
qed simp

lemma distinct_sort_key: "distinct (dict_keys d) \<Longrightarrow> distinct (map fst (sort_key fst d))"
  by (simp add: distinct_map)

lemma scan_reports_get:
  "distinct (dict_keys ranks) \<Longrightarrow>
    dict_get (snd (scan_reports ranks)) r = map_option report_for (dict_get ranks r)"
  by (simp add: scan_reports_def fold_report_step fold_dict_set_get [OF distinct_sort_key]
      map_of_sort_key split: option.split)

lemma scan_reports_keys: "map fst (snd (scan_reports ranks)) = sort (dict_keys ranks)"
  if "distinct (dict_keys ranks)"
proof -
  have "map fst (fold (\<lambda>(k, v). dict_set k (report_for v)) rs d) = map fst d @ map fst rs"
    if "distinct (map fst d @ map fst rs)" for rs :: rank_table and d
    using that
  proof (induction rs arbitrary: d)
    case (Cons y rs)
    obtain k v where y: "y = (k, v)" by force
    with Cons.prems have k: "k \<notin> fst ` set d" by simp
    then have "dict_set k (report_for v) d = d @ [(k, report_for v)]"
      by (induction d) auto
    with Cons y show ?case by simp
  qed simp
  from this [of "[]" "sort_key fst ranks"] that distinct_sort_key [OF that]
  have "map fst (snd (scan_reports ranks)) = map fst (sort_key fst ranks)"
    by (simp add: scan_reports_def fold_report_step)
  also have "\<dots> = sort (dict_keys ranks)"
    using that by (intro sorted_distinct_set_unique) (simp_all add: distinct_map)
  finally show ?thesis .
qed

text \<open>\<open>kept fs paths r d\<close>: the analysis of rank \<open>r\<close> rests on the reading \<open>d\<close>.\<close>

definition kept :: "file_reads \<Rightarrow> path list \<Rightarrow> int \<Rightarrow> rank_data \<Rightarrow> bool" where
  "kept fs paths r d \<longleftrightarrow> rd_rank d = r \<and> newest_of (readings fs paths) d"

lemma newest_of_unique:
  assumes "newest_of ds d" and "newest_of ds d'" and "rd_rank d = rd_rank d'"
  shows "d = d'"
proof -
  from assms(1) obtain pre post where d: "ds = pre @ d # post"
    and lt: "\<forall>x \<in> set pre. rd_rank x = rd_rank d \<longrightarrow> rd_seq x < rd_seq d" by (auto simp: newest_of_def)
  from assms(2) obtain pre' post' where d': "ds = pre' @ d' # post'"
    and lt': "\<forall>x \<in> set pre'. rd_rank x = rd_rank d' \<longrightarrow> rd_seq x < rd_seq d'" by (auto simp: newest_of_def)
  have eq: "rd_seq d = rd_seq d'"
    using newest_of_max assms newest_of_mem by (metis antisym)
  have "d' \<notin> set pre" "d \<notin> set pre'" using lt lt' eq assms(3) by fastforce+
  with d d' show ?thesis by (auto simp: append_eq_append_conv2 Cons_eq_append_conv append_eq_Cons_conv)
qed

lemma table_kept:
  assumes "table_ok (readings fs paths) ranks"
  shows "dict_get ranks r = Some d \<longleftrightarrow> kept fs paths r d"
proof
  assume g: "dict_get ranks r = Some d"
  with table_ok_entry [OF assms, of r d] show "kept fs paths r d"
    by (simp add: kept_def map_of_SomeD)
next
  assume k: "kept fs paths r d"
  then have "r \<in> rd_rank ` set (readings fs paths)" by (auto simp: kept_def dest: newest_of_mem)
  with table_ok_ranks [OF assms] obtain d' where d': "(r, d') \<in> set ranks" by force
  with table_ok_entry [OF assms d'] k have "d' = d"
    by (auto simp: kept_def intro: newest_of_unique)
  with table_ok_entry(3) [OF assms d'] show "dict_get ranks r = Some d" by simp
qed

lemma kept_read: "kept fs paths r d \<Longrightarrow> \<exists>p \<in> set paths. read_events fs p = Inr (rd_header d, rd_events d)"
  by (auto simp: kept_def readings_iff dest!: newest_of_mem)

lemma table_distinct: "table_ok ds ranks \<Longrightarrow> distinct (dict_keys ranks)"
  by (simp add: table_ok_def)

lemma analyze_eq:
  assumes sel: "select_ranks fs paths = Inr (ranks, errors)"
  shows "analyze fs ord depth paths expected comm =
      (case stream_cycles depth ord ranks of
         Inl e \<Rightarrow> Inl e
       | Inr cycles \<Rightarrow> Inr
           \<lparr>rp_ranks = snd (scan_reports ranks),
            rp_collectives = collectives ranks expected comm (sc_groups (scan_ranks ranks)),
            rp_dependencies = map (dependency_item (sc_producers (scan_ranks ranks))) (sc_waits (scan_ranks ranks)),
            rp_stream_cycles_candidate = cycles, rp_errors = errors, rp_limitations = limitations\<rparr>)"
proof -
  let ?s = "scan_ranks ranks"
  have s: "scan_reports ranks = (?s, snd (scan_reports ranks))"
    using scan_reports_fst [of ranks] by (metis prod.collapse)
  have g: "dependency_graph ranks (sc_producers ?s) (sc_waits ?s) =
      (map (dependency_item (sc_producers ?s)) (sc_waits ?s),
       snd (dependency_graph ranks (sc_producers ?s) (sc_waits ?s)))"
    using wait_fold(1) [of "sc_producers ?s" "sc_waits ?s" "[]" "order_edges ranks"]
    unfolding dependency_graph_def by (metis append_Nil prod.collapse)
  show ?thesis
    by (unfold analyze_def sel sum.case prod.case, subst s, unfold Let_def prod.case,
        subst g, unfold prod.case, simp add: stream_cycles_def Let_def)
qed

text \<open>\<open>kept_table fs paths\<close>: the table of ranks and readings the analysis works on.\<close>

definition kept_table :: "file_reads \<Rightarrow> path list \<Rightarrow> rank_table" where
  "kept_table fs paths = fold (\<lambda>d. keep_newest (rd_header d) (rd_events d)) (readings fs paths) []"

lemma select_kept_table: "select_ranks fs paths = Inr (kept_table fs paths, read_failures fs paths)"
  by (simp add: select_ranks_fold kept_table_def)

lemma kept_table_ok: "table_ok (readings fs paths) (kept_table fs paths)"
  unfolding kept_table_def by (rule table_ok_fold)

lemma analyze_Inr:
  assumes "analyze fs ord depth paths expected comm = Inr rep"
  shows "stream_cycles depth ord (kept_table fs paths) = Inr (rp_stream_cycles_candidate rep)"
    and "rp_ranks rep = snd (scan_reports (kept_table fs paths))"
    and "rp_collectives rep =
      collectives (kept_table fs paths) expected comm (sc_groups (scan_ranks (kept_table fs paths)))"
    and "rp_dependencies rep = map (dependency_item (sc_producers (scan_ranks (kept_table fs paths))))
      (sc_waits (scan_ranks (kept_table fs paths)))"
    and "rp_errors rep = read_failures fs paths"
proof -
  note eq = analyze_eq [OF select_kept_table [of fs paths], of ord depth expected comm]
  obtain cycles where c: "stream_cycles depth ord (kept_table fs paths) = Inr cycles"
    using assms unfolding eq by (cases "stream_cycles depth ord (kept_table fs paths)") simp_all
  show "stream_cycles depth ord (kept_table fs paths) = Inr (rp_stream_cycles_candidate rep)"
    "rp_ranks rep = snd (scan_reports (kept_table fs paths))"
    "rp_collectives rep =
      collectives (kept_table fs paths) expected comm (sc_groups (scan_ranks (kept_table fs paths)))"
    "rp_dependencies rep = map (dependency_item (sc_producers (scan_ranks (kept_table fs paths))))
      (sc_waits (scan_ranks (kept_table fs paths)))"
    "rp_errors rep = read_failures fs paths"
    using assms [unfolded eq c sum.case] c by auto
qed

lemma analyze_rank_iff:
  assumes "analyze fs ord depth paths expected comm = Inr rep"
  shows "dict_get (rp_ranks rep) r = Some rr \<longleftrightarrow> (\<exists>d. kept fs paths r d \<and> rr = report_for d)"
proof -
  show ?thesis
    using table_kept [OF kept_table_ok, of fs paths r]
    unfolding analyze_Inr(2) [OF assms] scan_reports_get [OF table_distinct [OF kept_table_ok]] by auto
qed

subsection \<open>Who entered a collective\<close>

definition begins :: "int \<Rightarrow> int \<Rightarrow> event \<Rightarrow> bool" where
  "begins comm op_id e \<longleftrightarrow>
     ev_type e = ''HCCL_BEGIN'' \<and> ev_arg0 e = comm \<and> ev_correlation_id e = op_id"

text \<open>The last entry of the events \<open>ev\<close> into a collective.\<close>

definition last_begin :: "event list \<Rightarrow> int \<Rightarrow> int \<Rightarrow> event \<Rightarrow> bool" where
  "last_begin ev comm op_id e \<longleftrightarrow> (\<exists>pre post. ev = pre @ e # post \<and> begins comm op_id e \<and>
     (\<forall>x \<in> set post. \<not> begins comm op_id x))"

lemma last_begin_ex: "(\<exists>e. last_begin ev comm op_id e) \<longleftrightarrow> (\<exists>e \<in> set ev. begins comm op_id e)"
proof
  assume "\<exists>e \<in> set ev. begins comm op_id e"
  from split_list_last_prop [OF this] show "\<exists>e. last_begin ev comm op_id e"
    unfolding last_begin_def by blast
qed (auto simp: last_begin_def)

lemma group_fold_iff:
  "group_get (fold group_step (map (Pair r) ev) []) (comm, op_id, r) = Some e \<longleftrightarrow>
    last_begin ev comm op_id e"
proof -
  have hit: "group_eff (r, y) (comm, op_id, r) = Some (Some e) \<longleftrightarrow> y = e \<and> begins comm op_id e" for y
    by (auto simp: group_eff_def begins_def)
  have miss: "group_eff (r, y) (comm, op_id, r) = None \<longleftrightarrow> \<not> begins comm op_id y" for y
    by (auto simp: group_eff_def begins_def)
  have empty: "group_get [] (comm, op_id, r) = None" by (simp add: group_get_def)
  note iff = entries.get_fold_Some_iff [OF empty, of "map (Pair r) ev" e]
  show ?thesis (is "?L \<longleftrightarrow> ?R")
  proof
    assume ?L
    with iff obtain pre x post where "map (Pair r) ev = pre @ x # post"
      and x: "group_eff x (comm, op_id, r) = Some (Some e)"
      and post: "\<forall>x \<in> set post. group_eff x (comm, op_id, r) = None"
      by auto
    then obtain pre' y post' where "ev = pre' @ y # post'" and "x = (r, y)" "post = map (Pair r) post'"
      unfolding map_Pair_split by blast
    with x post show ?R
      unfolding last_begin_def by (intro exI [of _ pre'] exI [of _ post']) (simp add: hit miss)
  next
    assume ?R
    then obtain pre post where "ev = pre @ e # post" and e: "begins comm op_id e"
      and post: "\<forall>x \<in> set post. \<not> begins comm op_id x" by (auto simp: last_begin_def)
    moreover have "group_eff (r, e) (comm, op_id, r) = Some (Some e)" using e hit by simp
    moreover have "\<forall>x \<in> set (map (Pair r) post). group_eff x (comm, op_id, r) = None"
      using post by (simp add: miss)
    ultimately show ?L
      using entries.get_fold_last [of "(r, e)" "(comm, op_id, r)" "Some e" "map (Pair r) post" "map (Pair r) pre"]
      by simp
  qed
qed

lemma group_entry_iff:
  assumes "table_ok (readings fs paths) ranks"
  shows "group_get (sc_groups (scan_ranks ranks)) (comm, op_id, r) = Some e \<longleftrightarrow>
    (\<exists>d. kept fs paths r d \<and> last_begin (rd_events d) comm op_id e)"
proof (cases "dict_get ranks r")
  case None
  with table_kept [OF assms, of r] have "\<not> kept fs paths r d" for d by (metis option.distinct(1))
  with None show ?thesis by (simp add: scan_ranks_groups [OF table_distinct [OF assms]])
next
  case (Some d)
  with table_kept [OF assms, of r] have "kept fs paths r d' \<longleftrightarrow> d' = d" for d'
    by (metis option.inject)
  with Some show ?thesis
    by (simp add: scan_ranks_groups [OF table_distinct [OF assms]] group_fold_iff)
qed

text \<open>The table of groups: keys once each, every group entered by someone, each rank once.\<close>

definition groups_ok :: "(int \<times> int, (int, event) dict) dict \<Rightarrow> bool" where
  "groups_ok groups \<longleftrightarrow> distinct (dict_keys groups) \<and>
     (\<forall>k d. dict_get groups k = Some d \<longrightarrow> d \<noteq> [] \<and> distinct (dict_keys d))"

lemma dict_set_nonempty [simp]: "dict_set k v d \<noteq> []"
  by (induction d) auto

lemma groups_ok_set:
  assumes ok: "groups_ok groups" and new: "d' \<noteq> []" "distinct (dict_keys d')"
  shows "groups_ok (dict_set key d' groups)"
proof -
  have A: "distinct (dict_keys (dict_set key d' groups))"
    using ok unfolding groups_ok_def by (intro distinct_update) blast
  have B: "d \<noteq> [] \<and> distinct (dict_keys d)" if "dict_get (dict_set key d' groups) k = Some d" for k d
  proof (cases "k = key")
    case True
    with that new show ?thesis by (simp add: dict_get_set)
  next
    case False
    with that have "dict_get groups k = Some d" by (simp add: dict_get_set)
    with ok show ?thesis unfolding groups_ok_def by blast
  qed
  from A B show ?thesis unfolding groups_ok_def by blast
qed

lemma group_step_ok: "groups_ok groups \<Longrightarrow> groups_ok (group_step x groups)"
proof -
  assume ok: "groups_ok groups"
  obtain r e where x: "x = (r, e)" by force
  have "distinct (dict_keys (case dict_get groups key of None \<Rightarrow> [] | Some d \<Rightarrow> d))" for key
    using ok unfolding groups_ok_def by (cases "dict_get groups key") (simp, metis option.simps(5))
  then show ?thesis
    using ok by (simp add: x group_step_def Let_def groups_ok_set distinct_update)
qed

lemma groups_ok_fold: "groups_ok groups \<Longrightarrow> groups_ok (fold group_step xs groups)"
  by (induction xs arbitrary: groups) (simp_all add: group_step_ok)

lemma groups_ok_scan: "groups_ok (sc_groups (scan_ranks ranks))"
proof -
  have gen: "groups_ok (fold (\<lambda>(r, es). fold group_step (map (Pair r) es)) blocks groups)"
    if "groups_ok groups" for blocks groups
    using that
  proof (induction blocks arbitrary: groups)
    case (Cons b blocks)
    then show ?case by (cases b) (simp add: groups_ok_fold)
  qed simp
  show ?thesis
    unfolding scan_ranks_def fold_scan_ranks by (rule gen) (simp add: scan_init_def groups_ok_def)
qed

lemma groups_ok_entry:
  assumes "groups_ok groups" and "((comm, op_id), d) \<in> set groups"
  shows "dict_get groups (comm, op_id) = Some d" "d \<noteq> []" "distinct (dict_keys d)"
    "dict_get d r = group_get groups (comm, op_id, r)"
proof -
  from assms show g: "dict_get groups (comm, op_id) = Some d" unfolding groups_ok_def by simp
  with assms(1) show "d \<noteq> []" "distinct (dict_keys d)" unfolding groups_ok_def by blast+
  from g show "dict_get d r = group_get groups (comm, op_id, r)" by (simp add: group_get_def)
qed

lemma sorted_set_simps [simp]: "set (sorted_set xs) = set xs" "sorted (sorted_set xs)" "distinct (sorted_set xs)"
  by (simp_all add: sorted_set_def)

definition has_begun :: "file_reads \<Rightarrow> path list \<Rightarrow> int \<Rightarrow> int \<Rightarrow> int \<Rightarrow> bool" where
  "has_begun fs paths comm op_id r \<longleftrightarrow> (\<exists>d. kept fs paths r d \<and> (\<exists>e \<in> set (rd_events d). begins comm op_id e))"

text \<open>\<open>e\<close> is the last begin of the collective in the file kept for rank \<open>r\<close>.\<close>

definition entered_with :: "file_reads \<Rightarrow> path list \<Rightarrow> int \<Rightarrow> int \<Rightarrow> int \<Rightarrow> event \<Rightarrow> bool" where
  "entered_with fs paths comm op_id r e \<longleftrightarrow>
     (\<exists>d. kept fs paths r d \<and> last_begin (rd_events d) comm op_id e)"

lemma collective_inE:
  assumes "analyze fs ord depth paths expected comm_id = Inr rep" and "c \<in> set (rp_collectives rep)"
  obtains comm op_id entered where "c = collective_entry (kept_table fs paths) expected ((comm, op_id), entered)"
    and "comm_id = None \<or> comm_id = Some comm"
    and "entered \<noteq> []" and "distinct (dict_keys entered)"
    and "\<forall>r e. dict_get entered r = Some e \<longleftrightarrow> entered_with fs paths comm op_id r e"
    and "set (dict_keys entered) = {r. has_begun fs paths comm op_id r}"
proof -
  from assms(2) obtain comm op_id entered
    where c: "c = collective_entry (kept_table fs paths) expected ((comm, op_id), entered)"
    and mem: "((comm, op_id), entered) \<in> set (sc_groups (scan_ranks (kept_table fs paths)))"
    and cid: "comm_id = None \<or> comm_id = Some comm"
    unfolding analyze_Inr(3) [OF assms(1)] by (auto simp: collectives_def)
  note entry = groups_ok_entry [OF groups_ok_scan mem]
  have get: "dict_get entered r = Some e \<longleftrightarrow> entered_with fs paths comm op_id r e" for r e
    using group_entry_iff [OF kept_table_ok] entry(4) by (simp add: entered_with_def)
  have "r \<in> set (dict_keys entered) \<longleftrightarrow> has_begun fs paths comm op_id r" for r
  proof -
    have "r \<in> set (dict_keys entered) \<longleftrightarrow> (\<exists>e. dict_get entered r = Some e)"
      by (metis map_of_eq_None_iff not_None_eq set_map)
    then show ?thesis unfolding get entered_with_def has_begun_def using last_begin_ex by blast
  qed
  then have "set (dict_keys entered) = {r. has_begun fs paths comm op_id r}" by blast
  with c cid entry(2,3) get show thesis by (intro that) blast+
qed

end
