(* ===== verification/Sample_Runs.thy ===== *)
theory Sample_Runs
  imports Flight_Writer Analyzer
begin

text \<open>
  Concrete recorder runs for the witnesses: the files of two ranks as \<open>flight_record\<close> writes them,
  and what the analyzer reads from them. Rank 0 enters a collective, hands stream 1 over to stream
  2, submits two checkpoints of which one is confirmed, and stays in a device synchronisation;
  rank 1 only opens a request.
\<close>

definition sample_ring :: "u16 \<Rightarrow> shm" where
  "sample_ring rank =
     \<lparr>sh_magic = 0x31524647534e4341, sh_version = 1, sh_event_size = 64, sh_capacity = 8,
      sh_pid = 77, sh_rank = rank, sh_device = rank, sh_write_seq = 0, sh_last_ns = 0,
      sh_started_wall_ns = 0, sh_started_mono_ns = 0, sh_slots = replicate 8 zero_event\<rparr>"

definition sample_call :: "u16 \<Rightarrow> u32 \<Rightarrow> u64 \<Rightarrow> u64 \<Rightarrow> u64 \<Rightarrow> u16 \<Rightarrow> record_call" where
  "sample_call kind stream corr a0 a1 fl =
     \<lparr>rc_type = kind, rc_stream = stream, rc_correlation = corr, rc_arg0 = a0, rc_arg1 = a1,
      rc_flags = fl, rc_now = 5, rc_tid = 3\<rparr>"

definition sample_calls :: "u16 \<Rightarrow> record_call list" where
  "sample_calls rank =
     (if rank = 0 then
        [sample_call 15 0 7 100 1 0, sample_call 17 1 5 0 0 0, sample_call 18 2 5 0 0 0,
         sample_call 23 1 9 1 1 1, sample_call 23 1 10 2 1 1, sample_call 24 1 9 1 1 0,
         sample_call 21 0 0 0 0 0]
      else [sample_call 1 0 4 0 0 0])"

definition sample_path :: "u16 \<Rightarrow> path" where
  "sample_path rank = Path [''snap'', (if rank = 0 then ''rank0.flight'' else ''rank1.flight'')]"

definition sample_image :: "u16 \<Rightarrow> byte list" where
  "sample_image rank = file_image (fold store_event (sample_calls rank) (sample_ring rank))"

definition sample_fs :: file_reads where
  "sample_fs p k = (if p = sample_path 0 then Inr (sample_image 0)
                    else if p = sample_path 1 then Inr (sample_image 1)
                    else Inl ''no such file'')"

abbreviation sample_paths :: "path list" where
  "sample_paths \<equiv> [sample_path 0, sample_path 1]"

definition sample_event :: "int \<Rightarrow> int \<Rightarrow> string \<Rightarrow> int \<Rightarrow> int \<Rightarrow> int \<Rightarrow> int \<Rightarrow> int \<Rightarrow> event" where
  "sample_event rank seq kind stream corr a0 a1 fl =
     \<lparr>ev_timestamp_ns = 5, ev_seq = seq, ev_pid = 77, ev_tid = 3, ev_device = rank, ev_rank = rank,
      ev_stream = stream, ev_type = kind, ev_flags = fl, ev_correlation_id = corr, ev_arg0 = a0,
      ev_arg1 = a1\<rparr>"

definition sample_events :: "int \<Rightarrow> event list" where
  "sample_events rank =
     (if rank = 0 then
        [sample_event 0 1 ''HCCL_BEGIN'' 0 7 100 1 0, sample_event 0 2 ''EVENT_RECORD'' 1 5 0 0 0,
         sample_event 0 3 ''EVENT_WAIT'' 2 5 0 0 0, sample_event 0 4 ''CHECKPOINT'' 1 9 1 1 1,
         sample_event 0 5 ''CHECKPOINT'' 1 10 2 1 1, sample_event 0 6 ''DEVICE_CONFIRMED'' 1 9 1 1 0,
         sample_event 0 7 ''DEVICE_SYNC_BEGIN'' 0 0 0 0 0]
      else [sample_event 1 1 ''REQUEST_BEGIN'' 0 4 0 0 0])"

definition sample_header :: "int \<Rightarrow> header" where
  "sample_header rank =
     \<lparr>hd_path = sample_path (word_of_int rank), hd_capacity = 8, hd_pid = 77, hd_rank = rank,
      hd_device = rank, hd_write_seq = (if rank = 0 then 7 else 1), hd_last_ns = 5,
      hd_started_wall_ns = 0, hd_started_mono_ns = 0\<rparr>"

lemma sample_fresh: "fresh_ring (sample_ring rank)"
  by (simp add: fresh_ring_def shm_ok_def sample_ring_def)

lemma sample_history:
  "history (sample_ring 0) (sample_calls 0) = sample_events 0"
  "history (sample_ring 1) (sample_calls 1) = sample_events 1"
  by code_simp+

lemma sample_header_view:
  "header_view (sample_path 0) (fold store_event (sample_calls 0) (sample_ring 0)) = sample_header 0"
  "header_view (sample_path 1) (fold store_event (sample_calls 1) (sample_ring 1)) = sample_header 1"
  by code_simp+

lemma sample_read:
  "read_events sample_fs (sample_path 0) = Inr (sample_header 0, sample_events 0)"
  "read_events sample_fs (sample_path 1) = Inr (sample_header 1, sample_events 1)"
proof -
  have neq: "sample_path 1 \<noteq> sample_path 0" by (simp add: sample_path_def)
  have short: "length (sample_calls rank) < 2 ^ 64" and slots: "length (sh_slots (sample_ring rank)) = 8" for rank
    by (simp_all add: sample_calls_def sample_ring_def)
  have all: "take_last 8 (sample_events rank) = sample_events rank" for rank
    by (simp add: take_last_def sample_events_def)
  show "read_events sample_fs (sample_path 0) = Inr (sample_header 0, sample_events 0)"
    using read_run [OF sample_fresh short, of sample_fs "sample_path 0" 0 0]
    by (simp add: sample_fs_def sample_image_def sample_header_view sample_history slots all)
  show "read_events sample_fs (sample_path 1) = Inr (sample_header 1, sample_events 1)"
    using read_run [OF sample_fresh short, of sample_fs "sample_path 1" 1 1] neq
    by (simp add: sample_fs_def sample_image_def sample_header_view sample_history slots all)
qed

definition sample_data :: "int \<Rightarrow> rank_data" where
  "sample_data rank = \<lparr>rd_header = sample_header rank, rd_events = sample_events rank\<rparr>"

lemma sample_readings: "readings sample_fs sample_paths = [sample_data 0, sample_data 1]"
  by (simp add: readings_def List.map_filter_simps sample_read sample_data_def)

definition sample_ranks :: rank_table where
  "sample_ranks = [(0, sample_data 0), (1, sample_data 1)]"

lemma sample_table: "kept_table sample_fs sample_paths = sample_ranks"
  by (simp add: kept_table_def sample_readings keep_newest_def sample_data_def sample_header_def
      sample_ranks_def)

lemma sample_failures: "read_failures sample_fs sample_paths = []"
  by (simp add: read_failures_def List.map_filter_simps sample_read)

lemma sample_kept: "kept sample_fs sample_paths 0 (sample_data 0)" "kept sample_fs sample_paths 1 (sample_data 1)"
  by (rule iffD1 [OF table_kept [OF kept_table_ok]], simp add: sample_table sample_ranks_def)+

lemma sample_cycles: "stream_cycles 10 (\<lambda>xs. xs) sample_ranks = Inr []"
  by code_simp

definition sample_collective :: collective where
  "sample_collective =
     \<lparr>co_communicator_id = 100, co_operation_id = 7, co_entered = [0], co_missing_expected = [1],
      co_types = [1], co_type_mismatch = False, co_end_observed = []\<rparr>"

lemma sample_collectives:
  "collectives sample_ranks (Some [0, 1]) (Some 100) (sc_groups (scan_ranks sample_ranks)) =
    [sample_collective]"
  by code_simp

definition sample_dependency :: dependency where
  "sample_dependency =
     \<lparr>dp_rank = 0, dp_event_id = 5, dp_waiting_stream = 2, dp_producer_stream = Some 1,
      dp_producer_observed = True\<rparr>"

definition sample_report :: report where
  "sample_report =
     \<lparr>rp_ranks = snd (scan_reports sample_ranks), rp_collectives = [sample_collective],
      rp_dependencies = [sample_dependency],
      rp_stream_cycles_candidate = [], rp_errors = [], rp_limitations = limitations\<rparr>"

lemma sample_dependencies:
  "map (dependency_item (sc_producers (scan_ranks sample_ranks))) (sc_waits (scan_ranks sample_ranks)) =
    [sample_dependency]"
  by code_simp

lemma sample_analyze:
  "analyze sample_fs (\<lambda>xs. xs) 10 sample_paths (Some [0, 1]) (Some 100) = Inr sample_report"
  using sample_dependencies
  unfolding analyze_eq [OF select_kept_table] sample_table sample_failures sample_cycles sample_collectives
  by (simp add: sample_report_def)

subsection \<open>Event handoffs\<close>

text \<open>
  Two runs of one rank. In \<open>crossed_calls\<close> streams 1 and 2 each wait for what the other records
  later. In \<open>reused_calls\<close> they hand over in turn, and the first event is recorded a second time
  for the next round.
\<close>

definition crossed_calls :: "record_call list" where
  "crossed_calls =
     [sample_call 18 1 5 0 0 0, sample_call 17 1 6 0 0 0, sample_call 18 2 6 0 0 0,
      sample_call 17 2 5 0 0 0]"

definition reused_calls :: "record_call list" where
  "reused_calls =
     [sample_call 17 1 5 0 0 0, sample_call 18 2 5 0 0 0, sample_call 17 2 6 0 0 0,
      sample_call 18 1 6 0 0 0, sample_call 17 1 5 0 0 0]"

definition calls_fs :: "record_call list \<Rightarrow> file_reads" where
  "calls_fs cs p k = Inr (file_image (fold store_event cs (sample_ring 0)))"

definition crossed_events :: "event list" where
  "crossed_events =
     [sample_event 0 1 ''EVENT_WAIT'' 1 5 0 0 0, sample_event 0 2 ''EVENT_RECORD'' 1 6 0 0 0,
      sample_event 0 3 ''EVENT_WAIT'' 2 6 0 0 0, sample_event 0 4 ''EVENT_RECORD'' 2 5 0 0 0]"

definition reused_events :: "event list" where
  "reused_events =
     [sample_event 0 1 ''EVENT_RECORD'' 1 5 0 0 0, sample_event 0 2 ''EVENT_WAIT'' 2 5 0 0 0,
      sample_event 0 3 ''EVENT_RECORD'' 2 6 0 0 0, sample_event 0 4 ''EVENT_WAIT'' 1 6 0 0 0,
      sample_event 0 5 ''EVENT_RECORD'' 1 5 0 0 0]"

lemma calls_history:
  "history (sample_ring 0) crossed_calls = crossed_events"
  "history (sample_ring 0) reused_calls = reused_events"
  by code_simp+

lemma header_view_rank: "hd_rank (header_view p (fold store_event cs (sample_ring 0))) = 0"
proof -
  have "sh_rank (fold store_event cs m) = sh_rank m" for m
    by (induction cs arbitrary: m) (simp_all add: store_event_def Let_def)
  then show ?thesis by (simp add: header_view_def sample_ring_def)
qed

lemma calls_table:
  assumes "length cs \<le> 8"
  shows "\<exists>h. kept_table (calls_fs cs) [sample_path 0] =
    [(0, \<lparr>rd_header = h, rd_events = history (sample_ring 0) cs\<rparr>)]"
proof -
  have slots: "length (sh_slots (sample_ring 0)) = 8" by (simp add: sample_ring_def)
  have "length (history (sample_ring 0) cs) = length cs" by (simp add: history_def)
  with assms have all: "take_last 8 (history (sample_ring 0) cs) = history (sample_ring 0) cs"
    by (simp add: take_last_def)
  have "read_events (calls_fs cs) (sample_path 0) =
      Inr (header_view (sample_path 0) (fold store_event cs (sample_ring 0)), history (sample_ring 0) cs)"
    using read_run [OF sample_fresh, of cs "calls_fs cs" "sample_path 0" 0] assms
    by (simp add: calls_fs_def slots all)
  then show ?thesis
    by (simp add: kept_table_def readings_def List.map_filter_simps keep_newest_def header_view_rank)
qed

lemma handoff_tables:
  "\<exists>h. kept_table (calls_fs crossed_calls) [sample_path 0] =
    [(0, \<lparr>rd_header = h, rd_events = crossed_events\<rparr>)]"
  "\<exists>h. kept_table (calls_fs reused_calls) [sample_path 0] =
    [(0, \<lparr>rd_header = h, rd_events = reused_events\<rparr>)]"
proof -
  have "length crossed_calls \<le> 8" "length reused_calls \<le> 8"
    by (simp_all add: crossed_calls_def reused_calls_def)
  from calls_table [OF this(1), unfolded calls_history] calls_table [OF this(2), unfolded calls_history]
  show "\<exists>h. kept_table (calls_fs crossed_calls) [sample_path 0] =
      [(0, \<lparr>rd_header = h, rd_events = crossed_events\<rparr>)]"
    "\<exists>h. kept_table (calls_fs reused_calls) [sample_path 0] =
      [(0, \<lparr>rd_header = h, rd_events = reused_events\<rparr>)]" .
qed

end
