(* ===== verification/Report_Properties.thy ===== *)
theory Report_Properties
  imports Sample_Runs
begin

text \<open>
  What the report of \<open>analyze\<close> says about the events of the snapshot files: one theorem per part
  of the report, each over the whole pipeline from file bytes. The witnesses apply them to the
  files of \<open>Sample_Runs\<close>.
\<close>

subsection \<open>The fields of a rank's report\<close>

definition submitted_in :: "event list \<Rightarrow> event list" where
  "submitted_in ev = filter (\<lambda>e. ev_type e = ''CHECKPOINT'' \<and> has_flag e CHECKPOINT_SUBMITTED) ev"

definition confirmed_in :: "event list \<Rightarrow> event list" where
  "confirmed_in ev = filter (\<lambda>e. ev_type e = ''DEVICE_CONFIRMED'') ev"

definition not_ready_in :: "event list \<Rightarrow> event list" where
  "not_ready_in ev = filter (\<lambda>e. ev_type e = ''CHECKPOINT'' \<and> has_flag e CHECKPOINT_NOT_READY) ev"

definition progress_in :: "event list \<Rightarrow> (int, stream_progress) dict" where
  "progress_in ev = rank_progress (submitted_in ev) (confirmed_in ev) (not_ready_in ev)"

lemma report_for_fields:
  "rr_pid (report_for d) = hd_pid (rd_header d)"
  "rr_last_event (report_for d) = last_opt (rd_events d)"
  "rr_last_host_event (report_for d) = last_opt (filter is_host_event (rd_events d))"
  "rr_last_device_confirmation (report_for d) = last_opt (confirmed_in (rd_events d))"
  "rr_outstanding_host_scopes (report_for d) =
     dict_values (sc_pending (scan_rank (rd_rank d) (rd_events d) scan_init))"
  "rr_ring_wrap_or_loss (report_for d) \<longleftrightarrow> rd_seq d > int (length (rd_events d))"
  "rr_device_checkpoint_progress (report_for d) = progress_in (rd_events d)"
  "rr_stale_or_unmatched_confirmations (report_for d) =
     stale_confirmations (submitted_in (rd_events d)) (confirmed_in (rd_events d))"
  "rr_checkpoint_coverage_warning (report_for d) =
     coverage_warning (sc_pending (scan_rank (rd_rank d) (rd_events d) scan_init)) (progress_in (rd_events d))"
  by (simp_all add: report_for_def rank_report_of_def Let_def scan_rank_fields progress_in_def
      submitted_in_def confirmed_in_def not_ready_in_def)

text \<open>In a list ordered by sequence number, positions and sequence numbers say the same.\<close>

lemma ordered_split_iff:
  assumes "sorted_wrt (<) (map ev_seq ev)"
  shows "(\<exists>pre post. ev = pre @ e # post \<and> (\<forall>x \<in> set post. Q x)) \<longleftrightarrow>
    e \<in> set ev \<and> (\<forall>x \<in> set ev. ev_seq e < ev_seq x \<longrightarrow> Q x)"
proof
  assume "\<exists>pre post. ev = pre @ e # post \<and> (\<forall>x \<in> set post. Q x)"
  then obtain pre post where ev: "ev = pre @ e # post" and post: "\<forall>x \<in> set post. Q x" by blast
  have "Q x" if "x \<in> set ev" "ev_seq e < ev_seq x" for x
    using that assms post unfolding ev by (auto simp: sorted_wrt_append)
  then show "e \<in> set ev \<and> (\<forall>x \<in> set ev. ev_seq e < ev_seq x \<longrightarrow> Q x)" using ev by simp
next
  assume r: "e \<in> set ev \<and> (\<forall>x \<in> set ev. ev_seq e < ev_seq x \<longrightarrow> Q x)"
  then obtain pre post where ev: "ev = pre @ e # post" by (meson split_list)
  with assms r have "\<forall>x \<in> set post. Q x" by (auto simp: sorted_wrt_append)
  with ev show "\<exists>pre post. ev = pre @ e # post \<and> (\<forall>x \<in> set post. Q x)" by blast
qed

lemma last_opt_filter_iff:
  assumes "sorted_wrt (<) (map ev_seq ev)"
  shows "last_opt (filter P ev) = Some e \<longleftrightarrow>
    e \<in> set ev \<and> P e \<and> (\<forall>x \<in> set ev. P x \<longrightarrow> ev_seq x \<le> ev_seq e)"
proof -
  have "last_opt (filter P ev) = Some e \<longleftrightarrow>
      (\<exists>pre post. ev = pre @ e # post \<and> (\<forall>x \<in> set post. \<not> P x)) \<and> P e"
  proof (induction ev rule: rev_induct)
    case (snoc x ev)
    show ?case
    proof (cases "P x")
      case True
      have "(\<exists>pre post. ev @ [x] = pre @ e # post \<and> (\<forall>y \<in> set post. \<not> P y)) \<longleftrightarrow> e = x"
      proof
        assume "\<exists>pre post. ev @ [x] = pre @ e # post \<and> (\<forall>y \<in> set post. \<not> P y)"
        then obtain pre post where "ev @ [x] = pre @ e # post" "\<forall>y \<in> set post. \<not> P y" by blast
        with True show "e = x" by (cases post rule: rev_cases) auto
      next
        assume "e = x"
        then show "\<exists>pre post. ev @ [x] = pre @ e # post \<and> (\<forall>y \<in> set post. \<not> P y)"
          by (intro exI [of _ ev] exI [of _ "[]"]) simp
      qed
      with True show ?thesis by auto
    next
      case False
      have "(\<exists>pre post. ev @ [x] = pre @ e # post \<and> (\<forall>y \<in> set post. \<not> P y)) \<and> P e \<longleftrightarrow>
          (\<exists>pre post. ev = pre @ e # post \<and> (\<forall>y \<in> set post. \<not> P y)) \<and> P e" (is "?A \<longleftrightarrow> ?B")
      proof
        assume ?A
        then obtain pre post where "ev @ [x] = pre @ e # post" "\<forall>y \<in> set post. \<not> P y" "P e" by blast
        with False show ?B by (cases post rule: rev_cases) auto
      next
        assume ?B
        then obtain pre post where "ev @ [x] = pre @ e # (post @ [x])" "\<forall>y \<in> set (post @ [x]). \<not> P y" "P e"
          using False by auto
        then show ?A by blast
      qed
      with False snoc.IH show ?thesis by simp
    qed
  qed simp
  also have "\<dots> \<longleftrightarrow> e \<in> set ev \<and> P e \<and> (\<forall>x \<in> set ev. P x \<longrightarrow> ev_seq x \<le> ev_seq e)"
    unfolding ordered_split_iff [OF assms] by (auto simp: not_less)
  finally show ?thesis .
qed

lemma stream_checkpoints_sorted:
  assumes "sorted_wrt (<) (map ev_seq ev)"
  shows "stream_checkpoints (submitted_in ev) k = filter (\<lambda>e. ev_stream e = k) (submitted_in ev)"
proof -
  have "sorted (map ev_seq ev)" using assms by (simp add: strict_sorted_iff)
  then have "sorted (map ev_seq (filter (\<lambda>e. ev_stream e = k) (submitted_in ev)))"
    by (simp add: submitted_in_def sorted_filter)
  then show ?thesis unfolding stream_checkpoints_def by (rule sort_key_id_if_sorted)
qed

lemma progress_in_keys: "fst ` set (progress_in ev) = ev_stream ` set (submitted_in ev)"
  using keys_by_stream [of "submitted_in ev"]
  by (force simp: progress_in_def rank_progress_def Let_def image_image case_prod_beta)

lemma progress_in_empty: "progress_in ev = [] \<longleftrightarrow> submitted_in ev = []"
  using progress_in_keys [of ev] by (metis image_is_empty set_empty)

text \<open>A stream has nothing unconfirmed when its newest submitted checkpoint is confirmed.\<close>

lemma stream_confirmed_iff:
  assumes ord: "sorted_wrt (<) (map ev_seq ev)" and p: "(k, p) \<in> set (progress_in ev)"
  shows "pr_unconfirmed_count p = 0 \<longleftrightarrow>
    (\<forall>c \<in> set (submitted_in ev). ev_stream c = k \<and>
       (\<forall>x \<in> set (submitted_in ev). ev_stream x = k \<longrightarrow> ev_seq x \<le> ev_seq c) \<longrightarrow>
       confirmed_by (confirmed_in ev) c)"
proof -
  let ?cps = "filter (\<lambda>e. ev_stream e = k) (submitted_in ev)"
  obtain before after where split: "?cps = before @ after"
    and conf: "before \<noteq> [] \<longrightarrow> confirmed_by (confirmed_in ev) (last before)"
    and unconf: "\<forall>e \<in> set after. \<not> confirmed_by (confirmed_in ev) e"
    and cnt: "pr_unconfirmed_count p = int (length after)"
    using progress_watermark [OF p [unfolded progress_in_def]]
    unfolding stream_checkpoints_sorted [OF ord] by metis
  have ne: "?cps \<noteq> []"
    using rank_progress_entry(2) [OF p [unfolded progress_in_def]]
    unfolding stream_checkpoints_sorted [OF ord] .
  have last: "last_opt ?cps = Some c \<longleftrightarrow> c \<in> set (submitted_in ev) \<and> ev_stream c = k \<and>
      (\<forall>x \<in> set (submitted_in ev). ev_stream x = k \<longrightarrow> ev_seq x \<le> ev_seq c)" for c
    using last_opt_filter_iff [OF ord, of "\<lambda>e. ev_stream e = k \<and> ev_type e = ''CHECKPOINT'' \<and>
        has_flag e CHECKPOINT_SUBMITTED" c]
    by (auto simp: submitted_in_def filter_filter conj_commute)
  have "pr_unconfirmed_count p = 0 \<longleftrightarrow> confirmed_by (confirmed_in ev) (last ?cps)"
  proof (cases "after = []")
    case True
    with split ne have "before \<noteq> []" "last before = last ?cps" by auto
    with True cnt conf show ?thesis by simp
  next
    case False
    with split have "last ?cps = last after" "last after \<in> set after" by simp_all
    with unconf False cnt show ?thesis by simp
  qed
  moreover have "last_opt ?cps = Some (last ?cps)" using ne by (simp add: last_opt_def)
  ultimately have "pr_unconfirmed_count p = 0 \<longleftrightarrow> (\<forall>c. last_opt ?cps = Some c \<longrightarrow>
      confirmed_by (confirmed_in ev) c)" by simp
  then show ?thesis unfolding last by blast
qed

lemma coverage_warning_iff:
  assumes ord: "sorted_wrt (<) (map ev_seq ev)"
  shows "coverage_warning pending (progress_in ev) \<longleftrightarrow>
    (\<exists>e \<in> set (dict_values pending). ev_type e = ''DEVICE_SYNC_BEGIN'') \<and> submitted_in ev \<noteq> [] \<and>
    (\<forall>c \<in> set (submitted_in ev).
       (\<forall>x \<in> set (submitted_in ev). ev_stream x = ev_stream c \<longrightarrow> ev_seq x \<le> ev_seq c) \<longrightarrow>
       confirmed_by (confirmed_in ev) c)"
proof -
  have "(\<forall>p \<in> set (dict_values (progress_in ev)). pr_unconfirmed_count p = 0) \<longleftrightarrow>
      (\<forall>(k, p) \<in> set (progress_in ev). pr_unconfirmed_count p = 0)" by auto
  also have "\<dots> \<longleftrightarrow> (\<forall>(k, p) \<in> set (progress_in ev). \<forall>c \<in> set (submitted_in ev). ev_stream c = k \<and>
       (\<forall>x \<in> set (submitted_in ev). ev_stream x = k \<longrightarrow> ev_seq x \<le> ev_seq c) \<longrightarrow>
       confirmed_by (confirmed_in ev) c)"
  proof (rule ball_cong [OF refl])
    fix x assume "x \<in> set (progress_in ev)"
    then show "(case x of (k, p) \<Rightarrow> pr_unconfirmed_count p = 0) \<longleftrightarrow>
        (case x of (k, p) \<Rightarrow> \<forall>c \<in> set (submitted_in ev). ev_stream c = k \<and>
           (\<forall>x \<in> set (submitted_in ev). ev_stream x = k \<longrightarrow> ev_seq x \<le> ev_seq c) \<longrightarrow>
           confirmed_by (confirmed_in ev) c)"
      using stream_confirmed_iff [OF ord, of "fst x" "snd x"] by (simp add: case_prod_beta)
  qed
  also have "\<dots> \<longleftrightarrow> (\<forall>k \<in> fst ` set (progress_in ev). \<forall>c \<in> set (submitted_in ev). ev_stream c = k \<and>
       (\<forall>x \<in> set (submitted_in ev). ev_stream x = k \<longrightarrow> ev_seq x \<le> ev_seq c) \<longrightarrow>
       confirmed_by (confirmed_in ev) c)"
    by (simp add: case_prod_beta)
  finally show ?thesis
    unfolding coverage_warning_def progress_in_empty progress_in_keys by auto
qed

subsection \<open>The whole analysis\<close>

text \<open>C6: \<open>analyze\<close> never lets an unreadable file stop it: whatever the files hold, it returns a
  report whose \<open>errors\<close> are the messages of the unreadable files in order, unless the cycle search
  runs out of recursion depth; no other exception escapes.\<close>

theorem analyze_outcome:
  "analyze fs ord depth paths expected comm = Inl RecursionError \<or>
   (\<exists>rep. analyze fs ord depth paths expected comm = Inr rep \<and> rp_errors rep = read_failures fs paths)"
proof (cases "stream_cycles depth ord (kept_table fs paths)")
  case (Inl e)
  then show ?thesis
    using find_cycles_error by (auto simp: analyze_eq [OF select_kept_table] stream_cycles_search)
qed (simp add: analyze_eq [OF select_kept_table])

lemma sum_list_set_le: "sum f (set xs) \<le> sum_list (map (f :: 'a \<Rightarrow> nat) xs)"
proof (induction xs)
  case (Cons x xs)
  then show ?case by (cases "x \<in> set xs") (simp_all add: insert_absorb)
qed simp

lemma length_sync_nodes: "length (sync_nodes r ev) \<le> length ev"
  by (simp add: sync_nodes_def)

lemma table_events_bound:
  assumes ok: "table_ok ds ranks"
  shows "length (all_sync_nodes ranks) \<le> sum_list (map (\<lambda>d. length (rd_events d)) ds)"
proof -
  let ?f = "\<lambda>d. length (rd_events d)"
  have "length (all_sync_nodes ranks) \<le> sum_list (map ?f (map snd ranks))"
    unfolding all_sync_nodes_def
  proof (induction ranks)
    case (Cons x ranks)
    then show ?case using length_sync_nodes by (cases x) (auto intro: add_mono)
  qed simp
  also have "\<dots> = sum ?f (set (map snd ranks))"
  proof (rule sum_list_distinct_conv_sum_set)
    have "map rd_rank (map snd ranks) = map fst ranks"
      using table_ok_entry(1) [OF ok] by auto
    then show "distinct (map snd ranks)" using table_distinct [OF ok] by (metis distinct_map)
  qed
  also have "\<dots> \<le> sum ?f (set ds)"
  proof (rule sum_mono2)
    show "set (map snd ranks) \<subseteq> set ds"
      using table_ok_entry(2) [OF ok] newest_of_mem by force
  qed simp_all
  also have "\<dots> \<le> sum_list (map ?f ds)" by (rule sum_list_set_le)
  finally show ?thesis .
qed

lemma analyze_enough:
  assumes "\<forall>xs. set (ord xs) = set xs"
    and "\<forall>d \<in> set (readings fs paths). \<forall>e \<in> set (rd_events d). ev_rank e = rd_rank d"
    and "sum_list (map (\<lambda>d. length (rd_events d)) (readings fs paths)) \<le> depth"
  shows "\<exists>rep. analyze fs ord depth paths expected comm = Inr rep"
proof -
  note ok = kept_table_ok [of fs paths]
  have "well_ranked (kept_table fs paths)"
    using table_ok_entry(1,2) [OF ok] assms(2) newest_of_mem by (fastforce simp: well_ranked_def)
  moreover have "length (all_sync_nodes (kept_table fs paths)) \<le> depth"
    using table_events_bound [OF ok] assms(3) by linarith
  ultimately obtain cs where "stream_cycles depth ord (kept_table fs paths) = Inr cs"
    using stream_cycles_enough [OF table_distinct [OF ok] assms(1)] by blast
  then show ?thesis by (simp add: analyze_eq [OF select_kept_table])
qed

text \<open>C7: When the event fields name the rank of their file and the recursion limit is at least the
  number of events read, \<open>analyze\<close> returns a report.\<close>

theorem analyze_returns:
  assumes "\<forall>xs. set (ord xs) = set xs"
    and "\<forall>d \<in> set (readings fs paths). \<forall>e \<in> set (rd_events d). ev_rank e = rd_rank d"
    and "sum_list (map (\<lambda>d. length (rd_events d)) (readings fs paths)) \<le> depth"
  shows "\<exists>rep. analyze fs ord depth paths expected comm = Inr rep"
  by (rule analyze_enough [OF assms])

theorem analyze_returns_witness:
  "\<exists>rep. analyze sample_fs (\<lambda>xs. xs) 8 sample_paths None None = Inr rep"
proof (rule analyze_returns)
  show "\<forall>d \<in> set (readings sample_fs sample_paths). \<forall>e \<in> set (rd_events d). ev_rank e = rd_rank d"
    unfolding sample_readings by code_simp
  show "sum_list (map (\<lambda>d. length (rd_events d)) (readings sample_fs sample_paths)) \<le> 8"
    unfolding sample_readings by code_simp
qed simp

text \<open>C5: The report has one entry per rank that some file names, in increasing order, and it
  describes the file of that rank with the largest write sequence, the first one listed among equals.\<close>

theorem analyze_ranks:
  assumes "analyze fs ord depth paths expected comm = Inr rep"
  shows "map fst (rp_ranks rep) = sort (remdups (map rd_rank (readings fs paths))) \<and>
    (dict_get (rp_ranks rep) r = Some rr \<longleftrightarrow> (\<exists>d pre post. rr = report_for d \<and>
      readings fs paths = pre @ d # post \<and> rd_rank d = r \<and>
      (\<forall>x \<in> set pre. rd_rank x = r \<longrightarrow> rd_seq x < rd_seq d) \<and>
      (\<forall>x \<in> set post. rd_rank x = r \<longrightarrow> rd_seq x \<le> rd_seq d)))"
proof -
  note ok = kept_table_ok [of fs paths]
  have "map fst (rp_ranks rep) = sort (dict_keys (kept_table fs paths))"
    unfolding analyze_Inr(2) [OF assms] by (rule scan_reports_keys [OF table_distinct [OF ok]])
  also have "\<dots> = sort (remdups (map rd_rank (readings fs paths)))"
    using table_distinct [OF ok] table_ok_ranks [OF ok]
    by (intro sorted_distinct_set_unique) simp_all
  finally have "map fst (rp_ranks rep) = sort (remdups (map rd_rank (readings fs paths)))" .
  moreover have "dict_get (rp_ranks rep) r = Some rr \<longleftrightarrow> (\<exists>d pre post. rr = report_for d \<and>
      readings fs paths = pre @ d # post \<and> rd_rank d = r \<and>
      (\<forall>x \<in> set pre. rd_rank x = r \<longrightarrow> rd_seq x < rd_seq d) \<and>
      (\<forall>x \<in> set post. rd_rank x = r \<longrightarrow> rd_seq x \<le> rd_seq d))"
    unfolding analyze_rank_iff [OF assms] kept_def newest_of_def by auto
  ultimately show ?thesis by blast
qed

theorem analyze_ranks_witness:
  "map fst (rp_ranks sample_report) = [0, 1] \<and>
   dict_get (rp_ranks sample_report) 1 = Some (report_for (sample_data 1))"
proof
  show "map fst (rp_ranks sample_report) = [0, 1]"
    using analyze_ranks [OF sample_analyze, of 0]
    by (simp add: sample_readings sample_data_def sample_header_def)
  show "dict_get (rp_ranks sample_report) 1 = Some (report_for (sample_data 1))"
    unfolding analyze_ranks [OF sample_analyze, THEN conjunct2] sample_readings
    by (intro exI [of _ "sample_data 1"] exI [of _ "[sample_data 0]"] exI [of _ "[]"])
      (simp add: sample_data_def sample_header_def)
qed

subsection \<open>What a rank's report says about its events\<close>

text \<open>C4: The outstanding host scopes are the begin events after which the same stream and
  correlation id saw neither the matching end event nor another begin of the same type.\<close>

theorem outstanding_scopes_iff:
  assumes "read_events fs p = Inr (h, ev)"
  shows "e \<in> set (rr_outstanding_host_scopes (report_for \<lparr>rd_header = h, rd_events = ev\<rparr>)) \<longleftrightarrow>
    e \<in> set ev \<and> ev_type e \<in> set (dict_keys PAIRS) \<and>
    (\<forall>x \<in> set ev. ev_seq e < ev_seq x \<longrightarrow>
       \<not> (ev_correlation_id x = ev_correlation_id e \<and> ev_stream x = ev_stream e \<and>
          (ev_type x = ev_type e \<or> dict_get PAIRS (ev_type e) = Some (ev_type x))))"
proof -
  have "\<forall>x \<in> set ev. decoded_type (ev_type x)" using read_events_decoded [OF assms] by blast
  from open_scopes_iff [OF this, of e "hd_rank h" scan_init]
  show ?thesis
    using ordered_split_iff [OF flight.src_strict [OF assms], of e "\<lambda>x. \<not> supersedes x e"]
    unfolding report_for_fields rank_data.simps supersedes_def by blast
qed

theorem outstanding_scopes_iff_witness:
  "sample_event 0 1 ''HCCL_BEGIN'' 0 7 100 1 0 \<in>
    set (rr_outstanding_host_scopes (report_for (sample_data 0)))"
  using outstanding_scopes_iff [OF sample_read(1), of "sample_event 0 1 ''HCCL_BEGIN'' 0 7 100 1 0"]
  by (simp add: sample_data_def sample_events_def sample_event_def PAIRS_def)

text \<open>The coverage warning appears exactly when a device synchronisation is open, checkpoints
  were submitted, and on every stream the newest submitted one is confirmed.\<close>

lemma coverage_warning_spec:
  assumes "read_events fs p = Inr (h, ev)"
  shows "rr_checkpoint_coverage_warning (report_for \<lparr>rd_header = h, rd_events = ev\<rparr>) \<longleftrightarrow>
    (\<exists>e \<in> set (rr_outstanding_host_scopes (report_for \<lparr>rd_header = h, rd_events = ev\<rparr>)).
       ev_type e = ''DEVICE_SYNC_BEGIN'') \<and>
    submitted_in ev \<noteq> [] \<and>
    (\<forall>c \<in> set (submitted_in ev).
       (\<forall>x \<in> set (submitted_in ev). ev_stream x = ev_stream c \<longrightarrow> ev_seq x \<le> ev_seq c) \<longrightarrow>
       confirmed_by (confirmed_in ev) c)"
  using coverage_warning_iff [OF flight.src_strict [OF assms]] by (simp add: report_for_fields)

text \<open>C3: On every stream the submitted checkpoints split into a confirmed prefix and an unconfirmed
  rest: the watermark \<open>confirmed_through\<close> is the last checkpoint with an exact confirmation, every
  later one has none, and \<open>completed_seq\<close>, \<open>first_unconfirmed\<close>, \<open>last_unconfirmed\<close> and
  \<open>unconfirmed_count\<close> describe that split.\<close>

theorem progress_split:
  assumes "read_events fs p = Inr (h, ev)"
    and "(k, pr) \<in> set (rr_device_checkpoint_progress (report_for \<lparr>rd_header = h, rd_events = ev\<rparr>))"
  shows "\<exists>before after. filter (\<lambda>e. ev_stream e = k) (submitted_in ev) = before @ after \<and>
    (before \<noteq> [] \<longrightarrow> confirmed_by (confirmed_in ev) (last before)) \<and>
    (\<forall>e \<in> set after. \<not> confirmed_by (confirmed_in ev) e) \<and>
    pr_completed_seq pr = (if before = [] then 0 else ev_arg0 (last before)) \<and>
    pr_confirmed_through pr = last_opt before \<and>
    pr_first_unconfirmed pr = (if after = [] then None else Some (hd after)) \<and>
    pr_last_unconfirmed pr = last_opt after \<and>
    pr_unconfirmed_count pr = int (length after)"
proof -
  from assms(2) have "(k, pr) \<in> set (rank_progress (submitted_in ev) (confirmed_in ev) (not_ready_in ev))"
    by (simp add: report_for_fields progress_in_def)
  then show ?thesis
    by (rule progress_watermark)
      (unfold stream_checkpoints_sorted [OF flight.src_strict [OF assms(1)]], blast)
qed

theorem progress_split_witness:
  "\<exists>pr before. (1, pr) \<in> set (rr_device_checkpoint_progress (report_for (sample_data 0))) \<and>
     pr_confirmed_through pr = last_opt before \<and>
     confirmed_by (confirmed_in (sample_events 0)) (last before)"
proof -
  have "dict_get (progress_in (sample_events 0)) 1 \<noteq> None \<and>
      map_option pr_completed_seq (dict_get (progress_in (sample_events 0)) 1) = Some 1"
    by code_simp
  then obtain pr where pr: "(1, pr) \<in> set (rr_device_checkpoint_progress (report_for (sample_data 0)))"
    and one: "pr_completed_seq pr = 1"
    by (auto simp: report_for_fields sample_data_def dest: map_of_SomeD)
  from progress_split [OF sample_read(1) pr [unfolded sample_data_def]] obtain before
    where "before \<noteq> [] \<longrightarrow> confirmed_by (confirmed_in (sample_events 0)) (last before)"
      "pr_completed_seq pr = (if before = [] then 0 else ev_arg0 (last before))"
      "pr_confirmed_through pr = last_opt before" by blast
  with pr one show ?thesis by (cases "before = []") auto
qed

lemma ex_later_iff:
  assumes "xs = before @ c # after"
  shows "(\<exists>j. length before < j \<and> j < length xs \<and> P (xs ! j)) \<longleftrightarrow> (\<exists>x \<in> set after. P x)"
proof
  assume "\<exists>j. length before < j \<and> j < length xs \<and> P (xs ! j)"
  then obtain j where "length before < j" "j < length xs" "P (xs ! j)" by blast
  moreover from this have "xs ! j = after ! (j - Suc (length before))" "j - Suc (length before) < length after"
    by (auto simp: assms nth_append nth_Cons')
  ultimately show "\<exists>x \<in> set after. P x" by (metis nth_mem)
next
  assume "\<exists>x \<in> set after. P x"
  then obtain i where "i < length after" "P (after ! i)" by (auto simp: in_set_conv_nth)
  then show "\<exists>j. length before < j \<and> j < length xs \<and> P (xs ! j)"
    by (intro exI [of _ "Suc (length before) + i"]) (simp add: assms nth_append)
qed

subsection \<open>Collectives\<close>

lemma remdups_longer: "1 < length (remdups xs) \<longleftrightarrow> (\<exists>x \<in> set xs. \<exists>y \<in> set xs. x \<noteq> y)"
proof
  assume "1 < length (remdups xs)"
  then obtain x y zs where "remdups xs = x # y # zs"
    by (cases "remdups xs"; cases "tl (remdups xs)") auto
  moreover from this have "x \<noteq> y" using distinct_remdups [of xs] by simp
  ultimately show "\<exists>x \<in> set xs. \<exists>y \<in> set xs. x \<noteq> y"
    by (metis list.set_intros set_remdups)
next
  assume "\<exists>x \<in> set xs. \<exists>y \<in> set xs. x \<noteq> y"
  then obtain x y where "{x, y} \<subseteq> set xs" "x \<noteq> y" by blast
  then have "card {x, y} \<le> card (set xs)" by (intro card_mono) simp_all
  with \<open>x \<noteq> y\<close> show "1 < length (remdups xs)" by (simp add: length_remdups_card_conv)
qed

text \<open>C1: With expected ranks given, a listed collective shows exactly the ranks whose kept file has a
  begin event of it as entered, and exactly the expected ranks without one as missing.\<close>

theorem collective_missing:
  assumes "analyze fs ord depth paths (Some expected) comm_id = Inr rep"
    and "c \<in> set (rp_collectives rep)"
  shows "set (co_entered c) = {r. has_begun fs paths (co_communicator_id c) (co_operation_id c) r} \<and>
    set (co_missing_expected c) =
      {r \<in> set expected. \<not> has_begun fs paths (co_communicator_id c) (co_operation_id c) r} \<and>
    sorted (co_missing_expected c) \<and> distinct (co_missing_expected c)"
  using assms by (rule collective_inE) (auto simp: collective_entry_def Let_def)

theorem collective_missing_witness:
  "{r. has_begun sample_fs sample_paths 100 7 r} = {0} \<and>
   {r \<in> {0, 1}. \<not> has_begun sample_fs sample_paths 100 7 r} = {1}"
  using collective_missing [OF sample_analyze, of sample_collective]
  by (auto simp: sample_report_def sample_collective_def)

lemma ex_regroup:
  "(\<exists>e. (\<exists>k. P k e) \<and> (\<exists>e'. (\<exists>k. P k e') \<and> N e e')) \<longleftrightarrow> (\<exists>r r' e e'. P r e \<and> P r' e' \<and> N e e')"
  by blast

text \<open>The command reports missing ranks for the communicator the user named, and only for it:
  without \<open>--communicator-id\<close> no rank is ever reported missing.\<close>

lemma main_missing_needs_communicator:
  assumes "main_analyze fs ord depth tree text comm_id = Inr rep"
    and "c \<in> set (rp_collectives rep)" and "co_missing_expected c \<noteq> []"
  shows "comm_id = Some (co_communicator_id c)"
proof -
  from assms(1) obtain files expected
    where a: "analyze fs ord depth files expected comm_id = Inr rep"
    and e: "expected \<noteq> None \<longrightarrow> comm_id \<noteq> None"
    by (auto simp: main_analyze_def Let_def map_sum_def split: sum.splits if_splits option.splits)
  from a assms(2) obtain comm op_id entered
    where c: "c = collective_entry (kept_table fs files) expected ((comm, op_id), entered)"
    and cid: "comm_id = None \<or> comm_id = Some comm" by (rule collective_inE)
  from assms(3) have "expected \<noteq> None"
    unfolding c by (cases expected) (simp_all add: collective_entry_def Let_def)
  with e cid have "comm_id = Some comm" by auto
  then show ?thesis by (simp add: c collective_entry_def Let_def)
qed

lemma sample_main:
  "main_analyze sample_fs (\<lambda>xs. xs) 10 [sample_path 1, Path [''snap'', ''notes.txt''], sample_path 0]
     (Some ''0, 1'') (Some 100) = Inr sample_report"
proof -
  have parse: "(if ''0, 1'' \<noteq> [] then map_sum id Some (parse_ints (str_split (CHR '','') ''0, 1''))
      else Inr None) = Inr (Some [0, 1])" by code_simp
  have files: "sort (filter (\<lambda>p. str_endswith (path_name p) ''.flight'')
      [sample_path 1, Path [''snap'', ''notes.txt''], sample_path 0]) = sample_paths"
    by code_simp
  show ?thesis
    unfolding main_analyze_def Let_def files option.case parse sum.case by (simp add: sample_analyze)
qed

subsection \<open>Stream dependencies\<close>

text \<open>C2: The candidate cycles are sound and complete for the operation-level dependencies: every
  listed cycle is a closed chain of dependencies through distinct operations, and none is listed
  exactly when the dependency relation is acyclic.\<close>

theorem candidate_cycles_exact:
  assumes "\<forall>xs. set (ord xs) = set xs"
    and "analyze fs ord depth paths expected comm = Inr rep"
  shows "(\<forall>c \<in> set (rp_stream_cycles_candidate rep).
      \<exists>ns. c = map node_name ns \<and> dependency_cycle (kept_table fs paths) ns) \<and>
    (rp_stream_cycles_candidate rep = [] \<longleftrightarrow> acyclic (depends (kept_table fs paths)))"
  using stream_cycles_outcome [OF table_distinct [OF kept_table_ok] assms(1) analyze_Inr(1) [OF assms(2)]]
  by blast

theorem candidate_cycles_exact_witness: "acyclic (depends (kept_table sample_fs sample_paths))"
  using candidate_cycles_exact [OF _ sample_analyze] by (simp add: sample_report_def)

lemma kept_table_ordered: "seq_ordered (kept_table fs paths)"
proof -
  have "sorted_wrt (<) (map ev_seq (rd_events d))" if "(r, d) \<in> set (kept_table fs paths)" for r d
  proof -
    have "d \<in> set (readings fs paths)"
      using table_ok_entry(2) [OF kept_table_ok that] by (rule newest_of_mem)
    then obtain p where "read_events fs p = Inr (rd_header d, rd_events d)" by (auto simp: readings_iff)
    then show ?thesis by (rule flight.src_strict)
  qed
  then show ?thesis by (auto simp: seq_ordered_def)
qed

text \<open>C10: A snapshot in which every wait comes after the record that last used its event, as in a
  handoff from stream A to B and back, gives no candidate cycle.\<close>

theorem ordered_handoffs_no_cycle:
  assumes "\<forall>xs. set (ord xs) = set xs" and "handoffs_ordered (kept_table fs paths)"
    and "analyze fs ord depth paths expected comm = Inr rep"
  shows "rp_stream_cycles_candidate rep = []"
  using stream_cycles_outcome(1) [OF table_distinct [OF kept_table_ok] assms(1) analyze_Inr(1) [OF assms(3)]]
    handoffs_acyclic [OF kept_table_ordered assms(2)] by blast

lemma sample_handoffs: "handoffs_ordered sample_ranks"
proof -
  have "last_record sample_ranks 0 5 p \<Longrightarrow> ev_seq p < 3" for p
  proof -
    assume "last_record sample_ranks 0 5 p"
    then have "p \<in> set (sample_events 0)" "ev_type p = ''EVENT_RECORD''"
      by (auto simp: last_record_def sample_ranks_def sample_data_def)
    then show "ev_seq p < 3" by (auto simp: sample_events_def sample_event_def)
  qed
  then show ?thesis
    by (auto simp: handoffs_ordered_def sample_ranks_def sample_data_def sample_events_def sample_event_def)
qed

theorem ordered_handoffs_no_cycle_witness: "rp_stream_cycles_candidate sample_report = []"
  by (rule ordered_handoffs_no_cycle [OF _ _ sample_analyze]) (simp_all add: sample_table sample_handoffs)

text \<open>Two streams of a rank that each wait for an event the other records only afterwards are
  reported: the candidate cycles are not empty.\<close>

lemma crossed_waits_reported:
  assumes "\<forall>xs. set (ord xs) = set xs" and "crossed_waits (kept_table fs paths)"
    and "analyze fs ord depth paths expected comm = Inr rep"
  shows "rp_stream_cycles_candidate rep \<noteq> []"
  using stream_cycles_outcome(1) [OF table_distinct [OF kept_table_ok] assms(1) analyze_Inr(1) [OF assms(3)]]
    crossed_cyclic [OF assms(2)] by blast

text \<open>C11: An event handle used again makes a normal handoff look like a deadlock: stream 1 records
  event 5, stream 2 waits for it and records event 6, stream 1 waits for that and records event 5
  again. Every wait has an earlier record of its event, and still a cycle is reported, because the
  wait is matched with the last record of its event instead of the last one before the wait.\<close>

theorem reused_event_false_cycle:
  "filter (\<lambda>w. ev_type w = ''EVENT_WAIT'' \<and>
      \<not> list_ex (\<lambda>x. ev_type x = ''EVENT_RECORD'' \<and> ev_correlation_id x = ev_correlation_id w \<and>
                ev_seq x < ev_seq w) reused_events) reused_events = [] \<and>
   (\<exists>rep. analyze (calls_fs reused_calls) (\<lambda>xs. xs) 5 [sample_path 0] None None = Inr rep \<and>
      rp_stream_cycles_candidate rep =
        [[''r0:s2:record:3'', ''r0:s2:wait:2'', ''r0:s1:record:5'', ''r0:s1:wait:4'', ''r0:s2:record:3'']])"
proof
  show "filter (\<lambda>w. ev_type w = ''EVENT_WAIT'' \<and>
      \<not> list_ex (\<lambda>x. ev_type x = ''EVENT_RECORD'' \<and> ev_correlation_id x = ev_correlation_id w \<and>
                ev_seq x < ev_seq w) reused_events) reused_events = []"
    by code_simp
  obtain h where t: "kept_table (calls_fs reused_calls) [sample_path 0] =
      [(0, \<lparr>rd_header = h, rd_events = reused_events\<rparr>)]"
    using handoff_tables(2) by blast
  have "stream_cycles 5 (\<lambda>xs. xs) [(0, \<lparr>rd_header = h, rd_events = reused_events\<rparr>)] =
      Inr [[''r0:s2:record:3'', ''r0:s2:wait:2'', ''r0:s1:record:5'', ''r0:s1:wait:4'', ''r0:s2:record:3'']]"
    by code_simp
  then show "\<exists>rep. analyze (calls_fs reused_calls) (\<lambda>xs. xs) 5 [sample_path 0] None None = Inr rep \<and>
      rp_stream_cycles_candidate rep =
        [[''r0:s2:record:3'', ''r0:s2:wait:2'', ''r0:s1:record:5'', ''r0:s1:wait:4'', ''r0:s2:record:3'']]"
    by (simp add: t analyze_eq [OF select_kept_table])
qed

end
