(* ===== verification/Format_Properties.thy ===== *)
theory Format_Properties
  imports Sample_Runs
begin

text \<open>
  What the flight file format promises: the reader's errors, the order and window of the events it
  returns, the header check, the round trip from the C++ recorder, and the cycle search on its own.
\<close>

subsection \<open>The reader\<close>

text \<open>Whatever bytes the two reads of a file yield, \<open>read_events\<close> ends with an \<open>OSError\<close>, a
  \<open>ValueError\<close> or a result: no \<open>struct.error\<close> can escape, even when the file shrinks between the
  reads or the header claims more slots than there are.\<close>

lemma read_events_total:
  "(\<exists>m. read_events fs p = Inl (OSError m)) \<or> (\<exists>m. read_events fs p = Inl (ValueError m)) \<or>
   (\<exists>h ev. read_events fs p = Inr (h, ev))"
proof (cases "read_events fs p")
  case (Inl e)
  with read_events_only_os_or_value_error show ?thesis by blast
next
  case (Inr r)
  then show ?thesis by (cases r) simp
qed

text \<open>C9: The events read are strictly ordered by sequence number, all inside the window of the
  newest \<open>capacity\<close> records that the header announces, and at most \<open>capacity\<close> many.\<close>

theorem read_events_ordered:
  assumes "read_events fs p = Inr (h, ev)"
  shows "sorted_wrt (<) (map ev_seq ev) \<and>
    (\<forall>e \<in> set ev. 1 \<le> ev_seq e \<and> hd_write_seq h - hd_capacity h < ev_seq e \<and> ev_seq e \<le> hd_write_seq h) \<and>
    int (length ev) \<le> hd_capacity h"
proof -
  have win: "1 \<le> ev_seq e \<and> hd_write_seq h - hd_capacity h < ev_seq e \<and> ev_seq e \<le> hd_write_seq h"
    if "e \<in> set ev" for e
    using read_events_window [OF assms that] by simp
  then have "set (map ev_seq ev) \<subseteq> {hd_write_seq h - hd_capacity h + 1..hd_write_seq h}" by force
  then have "card (set (map ev_seq ev)) \<le> card {hd_write_seq h - hd_capacity h + 1..hd_write_seq h}"
    by (intro card_mono) simp_all
  moreover have "2 \<le> hd_capacity h"
    using assms by (auto elim!: read_events_InrE dest: read_header_capacity)
  ultimately have "int (length ev) \<le> hd_capacity h"
    using distinct_card [OF flight.src_distinct [OF assms]] by simp
  with win flight.src_strict [OF assms] show ?thesis by blast
qed

theorem read_events_ordered_witness:
  "sorted_wrt (<) (map ev_seq (sample_events 0)) \<and> length (sample_events 0) \<le> 8"
  using read_events_ordered [OF sample_read(1)] by (simp add: sample_header_def)

text \<open>C19: Reading is well typed: whatever the bytes of the file, every field of the header and of the
  events is in the range of its C type and every event kind is a text of the table or its fallback.\<close>

theorem read_events_typed:
  assumes "read_events fs p = Inr (h, ev)"
  shows "header_typed h \<and> (\<forall>e \<in> set ev. event_typed e)"
proof -
  from assms obtain raw evs where h: "read_header fs p = Inr h"
    and c: "collect (read_slot h raw) [0..<nat (slot_count h raw)] = Inr evs" "ev = sort_key ev_seq evs"
    by (rule read_events_InrE)
  from h have "header_typed h" by (auto simp: read_header_def split: sum.splits dest: parse_header_typed)
  moreover have "\<forall>e \<in> set ev. event_typed e"
    using c by (auto simp: collect_Inr_set dest: read_slot_typed)
  ultimately show ?thesis ..
qed

theorem read_events_typed_witness: "header_typed (sample_header 0) \<and> event_typed (last (sample_events 0))"
  using read_events_typed [OF sample_read(1)] by (simp add: sample_events_def)

subsection \<open>The recorder\<close>

lemma record_all_store:
  "fold (\<lambda>c cur. snd (flight_record cur True c)) cs (Some m) = Some (fold store_event cs m)"
  by (induction cs arbitrary: m) (simp_all add: flight_record_def)

text \<open>What the recorder writes is what the analyzer reads: after \<open>flight_init\<close> and fewer than
  \<open>2 ^ 64\<close> calls of \<open>flight_record\<close>, reading the file yields its header and exactly the newest
  \<open>capacity\<close> records, in order, with every field as it was passed.\<close>

lemma recorder_roundtrip:
  assumes "flight_init None path_given os pid w t rank device capacity = (0, Some m)"
    and "length cs < 2 ^ 64"
    and "fold (\<lambda>c cur. snd (flight_record cur True c)) cs (Some m) = Some m'"
    and "fs p 0 = Inr (file_image m')" and "fs p 1 = Inr (file_image m')"
  shows "read_events fs p =
    Inr (header_view p m', take_last (unat capacity)
      (map (\<lambda>i. event_view (filled_event m (cs ! i) (of_nat (Suc i)))) [0..<length cs]))"
proof -
  have m': "m' = fold store_event cs m" using assms(3) by (simp add: record_all_store)
  have fresh: "fresh_ring m" by (rule flight_init_fresh [OF assms(1)]) simp
  have "length (sh_slots m) = unat capacity"
    using assms(1) by (auto simp: flight_init_def EINVAL_def EOVERFLOW_def split: if_splits option.splits)
  with read_run [OF fresh assms(2), of fs p] assms(4,5) show ?thesis
    by (simp add: m' history_def del: of_nat_Suc)
qed

subsection \<open>The cycle search\<close>

text \<open>A chain of dependencies at least as long as the recursion limit makes \<open>find_cycles\<close>
  raise \<open>RecursionError\<close>, although the chain has no cycle.\<close>

lemma find_cycles_recursion_error:
  assumes "0 < k" and "d \<le> k"
  shows "acyclic (graph_rel (dict_list (chain_edges k))) \<and>
    find_cycles d (chain_edges k) = Inl RecursionError"
  using chain_acyclic find_cycles_chain [OF assms] by blast

end
