(* ===== verification/Py_Float.thy ===== *)
theory Py_Float
  imports Flight_Prelude Complex_Main
begin

text \<open>
  What the Python code does with floats: divide two integers, compare with a command line number,
  and print with a fixed number of decimals. A float is the rational number it denotes;
  \<open>to_double\<close> rounds to the nearest 53 bit number, ties to even. The values of the program are
  quotients of 64 bit integers, far from overflow and from the subnormal range, which are not
  modelled.
\<close>

subsection \<open>Rounding\<close>

definition round_even :: "rat \<Rightarrow> int" where
  "round_even x = (let f = \<lfloor>x\<rfloor>; r = x - of_int f
     in if r < 1 / 2 then f else if r > 1 / 2 then f + 1 else if even f then f else f + 1)"

fun nat_log2 :: "nat \<Rightarrow> nat" where
  "nat_log2 n = (if n < 2 then 0 else Suc (nat_log2 (n div 2)))"

declare nat_log2.simps [simp del]

text \<open>\<open>binade x\<close> is the exponent of the power of two at or below \<open>\<bar>x\<bar>\<close>.\<close>

definition binade :: "rat \<Rightarrow> int" where
  "binade x = (case quotient_of \<bar>x\<bar> of (p, q) \<Rightarrow>
     (let e = int (nat_log2 (nat p)) - int (nat_log2 (nat q)) in if 2 powi e \<le> \<bar>x\<bar> then e else e - 1))"

definition to_double :: "rat \<Rightarrow> rat" where
  "to_double x =
     (if x = 0 then 0 else of_int (round_even (x * 2 powi (52 - binade x))) * 2 powi (binade x - 52))"

text \<open>\<open>a / b\<close> of two integers, and of an integer and a float.\<close>

definition int_div :: "int \<Rightarrow> int \<Rightarrow> rat" where
  "int_div a b = to_double (of_int a / of_int b)"

definition float_div :: "int \<Rightarrow> rat \<Rightarrow> rat" where
  "float_div a b = to_double (to_double (of_int a) / b)"

text \<open>\<open>format(x, ".kf")\<close>.\<close>

definition format_fixed :: "nat \<Rightarrow> rat \<Rightarrow> string" where
  "format_fixed k x =
     (let n = nat (round_even (\<bar>x\<bar> * 10 ^ k)); s = str_nat (n mod 10 ^ k)
      in (if x < 0 then ''-'' else []) @ str_nat (n div 10 ^ k) @
         (if k = 0 then [] else ''.'' @ replicate (k - length s) (CHR ''0'') @ s))"

subsection \<open>Rounding to an integer\<close>

lemma round_even_of_int [simp]: "round_even (of_int n) = n"
  by (simp add: round_even_def)

lemma round_even_simps [simp]: "round_even 0 = 0" "round_even (numeral k) = numeral k"
  using round_even_of_int [of 0] round_even_of_int [of "numeral k"] by simp_all

lemma round_even_error: "\<bar>of_int (round_even x) - x\<bar> \<le> 1 / 2"
proof -
  have "of_int \<lfloor>x\<rfloor> \<le> x" "x < of_int \<lfloor>x\<rfloor> + 1" by linarith+
  then show ?thesis by (auto simp: round_even_def Let_def abs_le_iff)
qed

lemma round_even_mono:
  assumes "x \<le> y"
  shows "round_even x \<le> round_even y"
proof (cases "\<lfloor>x\<rfloor> = \<lfloor>y\<rfloor>")
  case True
  with assms show ?thesis by (auto simp: round_even_def Let_def)
next
  case False
  with assms have "\<lfloor>x\<rfloor> + 1 \<le> \<lfloor>y\<rfloor>" using floor_mono [OF assms] by linarith
  moreover have "round_even x \<le> \<lfloor>x\<rfloor> + 1" "\<lfloor>y\<rfloor> \<le> round_even y"
    by (simp_all add: round_even_def Let_def)
  ultimately show ?thesis by linarith
qed

subsection \<open>The binade\<close>

lemma nat_log2_bounds: "0 < n \<Longrightarrow> 2 ^ nat_log2 n \<le> n \<and> n < 2 ^ Suc (nat_log2 n)"
proof (induction n rule: nat_log2.induct)
  case (1 n)
  show ?case
  proof (cases "n < 2")
    case True
    with 1 show ?thesis by (simp add: nat_log2.simps)
  next
    case False
    then have "2 ^ nat_log2 (n div 2) \<le> n div 2 \<and> n div 2 < 2 ^ Suc (nat_log2 (n div 2))"
      using 1(1) by simp
    moreover have "nat_log2 n = Suc (nat_log2 (n div 2))" using False by (simp add: nat_log2.simps)
    ultimately show ?thesis by simp linarith
  qed
qed

lemma powi_split: "(2 :: rat) powi (a + b) = 2 powi a * 2 powi b"
  by (simp add: power_int_add)

lemma powi_pos [simp]: "0 < (2 :: rat) powi e"
  by (simp add: zero_less_power_int)

lemma powi_nat: "(2 :: rat) powi (int n) = 2 ^ n"
  by simp

lemma powi_le_iff [simp]: "(2 :: rat) powi a \<le> 2 powi b \<longleftrightarrow> a \<le> b"
  by (metis (no_types) not_less one_less_numeral_iff order.strict_iff_order power_int_strict_increasing
      power_int_increasing semiring_norm(76) less_imp_le)

lemma powi_less_iff [simp]: "(2 :: rat) powi a < 2 powi b \<longleftrightarrow> a < b"
  by (metis powi_le_iff not_less)

lemma binade_bounds:
  assumes "0 < x"
  shows "2 powi binade x \<le> x" and "x < 2 powi (binade x + 1)"
proof -
  obtain p q where pq: "quotient_of x = (p, q)" by fastforce
  then have q: "0 < q" and x: "x = of_int p / of_int q"
    by (auto simp: quotient_of_denom_pos quotient_of_div)
  from x q assms have p: "0 < p" by (simp add: zero_less_divide_iff)
  let ?a = "nat_log2 (nat p)" and ?b = "nat_log2 (nat q)"
  have "2 ^ ?a \<le> nat p" "nat p < 2 ^ Suc ?a" "2 ^ ?b \<le> nat q" "nat q < 2 ^ Suc ?b"
    using nat_log2_bounds [of "nat p"] nat_log2_bounds [of "nat q"] p q by simp_all
  then have "int (2 ^ ?a) \<le> int (nat p)" "int (nat p) < int (2 ^ Suc ?a)"
    "int (2 ^ ?b) \<le> int (nat q)" "int (nat q) < int (2 ^ Suc ?b)" by linarith+
  then have "2 ^ ?a \<le> p" "p < 2 ^ Suc ?a" "2 ^ ?b \<le> q" "q < 2 ^ Suc ?b" using p q by simp_all
  then have "(of_int (2 ^ ?a) :: rat) \<le> of_int p" "(of_int p :: rat) < of_int (2 ^ Suc ?a)"
    "(of_int (2 ^ ?b) :: rat) \<le> of_int q" "(of_int q :: rat) < of_int (2 ^ Suc ?b)"
    by (simp_all only: of_int_le_iff of_int_less_iff)
  then have P: "(2 :: rat) ^ ?a \<le> of_int p" "(of_int p :: rat) < 2 ^ Suc ?a"
    "(2 :: rat) ^ ?b \<le> of_int q" "(of_int q :: rat) < 2 ^ Suc ?b" by simp_all
  let ?e = "int ?a - int ?b"
  have pw: "(2 :: rat) powi (?e + c) = 2 powi c * 2 ^ ?a / 2 ^ ?b" for c
    by (simp add: power_int_add power_int_diff)
  have qp: "(0 :: rat) < of_int q" using q by simp
  have hi: "x < 2 powi (?e + 1)"
  proof -
    have "of_int p * 2 ^ ?b < (2 * 2 ^ ?a) * (of_int q :: rat)"
      using P qp p by (intro mult_less_le_imp_less) simp_all
    then show ?thesis unfolding pw x using qp by (simp add: field_simps)
  qed
  have lo: "2 powi (?e - 1) \<le> x"
  proof -
    have "2 ^ ?a * (of_int q :: rat) \<le> of_int p * (2 * 2 ^ ?b)"
      using P qp p by (intro mult_mono) simp_all
    moreover have "(2 :: rat) powi (?e - 1) = 2 ^ ?a / (2 * 2 ^ ?b)"
      using pw [of "-1"] by (simp add: power_int_minus)
    moreover have "2 powi (?e - 1) * of_int q * (2 * 2 ^ ?b) = 2 ^ ?a * (of_int q :: rat)"
      using calculation(2) by simp
    ultimately have "2 powi (?e - 1) * of_int q * (2 * 2 ^ ?b) \<le> (of_int p :: rat) * (2 * 2 ^ ?b)" by linarith
    then show ?thesis unfolding x using qp by (simp add: pos_le_divide_eq)
  qed
  show "2 powi binade x \<le> x" "x < 2 powi (binade x + 1)"
    using hi lo assms pq by (auto simp: binade_def Let_def)
qed

lemma binade_unique:
  assumes "0 < x" and "2 powi e \<le> x" and "x < 2 powi (e + 1)"
  shows "binade x = e"
proof -
  have "(2 :: rat) powi e < 2 powi (binade x + 1)" "(2 :: rat) powi binade x < 2 powi (e + 1)"
    using binade_bounds [OF assms(1)] assms(2,3) by (simp_all only: order_le_less_trans)
  then show ?thesis by simp
qed

lemma binade_mono:
  assumes "0 < x" and "x \<le> y"
  shows "binade x \<le> binade y"
proof -
  have "(2 :: rat) powi binade x < 2 powi (binade y + 1)"
    using binade_bounds(1) [OF assms(1)] binade_bounds(2) [of y] assms by linarith
  then show ?thesis by simp
qed

subsection \<open>Doubles\<close>

lemma to_double_0 [simp]: "to_double 0 = 0"
  by (simp add: to_double_def)

lemma scale_back: "x * 2 powi (52 - e) * 2 powi (e - 52) = (x :: rat)"
  by (simp add: mult.assoc powi_split [symmetric])

lemma to_double_error:
  assumes "0 < x"
  shows "\<bar>to_double x - x\<bar> \<le> x / 2 ^ 53"
proof -
  let ?e = "binade x"
  let ?y = "x * 2 powi (52 - ?e)"
  have "to_double x - x = (of_int (round_even ?y) - ?y) * 2 powi (?e - 52)"
    using assms by (simp add: to_double_def left_diff_distrib scale_back)
  then have "\<bar>to_double x - x\<bar> = \<bar>of_int (round_even ?y) - ?y\<bar> * 2 powi (?e - 52)"
    by (simp add: abs_mult)
  also have "\<dots> \<le> 1 / 2 * 2 powi (?e - 52)"
    using round_even_error by (intro mult_right_mono) simp_all
  also have "\<dots> = 2 powi ?e / 2 ^ 53" by (simp add: power_int_diff)
  also have "\<dots> \<le> x / 2 ^ 53" using binade_bounds(1) [OF assms] by (simp add: divide_right_mono)
  finally show ?thesis .
qed

lemma to_double_le_powi:
  assumes "0 < x"
  shows "2 powi binade x \<le> to_double x" and "to_double x \<le> 2 powi (binade x + 1)"
proof -
  let ?e = "binade x"
  have pw: "(2 :: rat) powi (?e + k) * 2 powi (52 - ?e) = of_int (2 ^ nat (52 + k))" if "0 \<le> 52 + k" for k
  proof -
    have "?e + k + (52 - ?e) = int (nat (52 + k))" using that by simp
    then show ?thesis unfolding powi_split [symmetric] by (simp only: powi_nat of_int_power of_int_numeral)
  qed
  have "2 powi ?e * 2 powi (52 - ?e) \<le> x * 2 powi (52 - ?e)"
    using binade_bounds(1) [OF assms] by (intro mult_right_mono) simp_all
  moreover have "(2 :: rat) powi ?e * 2 powi (52 - ?e) = of_int (2 ^ 52)" using pw [of 0] by simp
  ultimately have "of_int (2 ^ 52) \<le> x * 2 powi (52 - ?e)" by simp
  from round_even_mono [OF this] have lo: "2 ^ 52 \<le> round_even (x * 2 powi (52 - ?e))"
    unfolding round_even_of_int .
  have "x * 2 powi (52 - ?e) \<le> 2 powi (?e + 1) * 2 powi (52 - ?e)"
    using binade_bounds(2) [OF assms] by (intro mult_right_mono) simp_all
  moreover have "(2 :: rat) powi (?e + 1) * 2 powi (52 - ?e) = of_int (2 ^ 53)" using pw [of 1] by simp
  ultimately have "x * 2 powi (52 - ?e) \<le> of_int (2 ^ 53)" by simp
  from round_even_mono [OF this] have hi: "round_even (x * 2 powi (52 - ?e)) \<le> 2 ^ 53"
    unfolding round_even_of_int .
  have rescale: "of_int (2 ^ nat (52 + k)) * (2 :: rat) powi (?e - 52) = 2 powi (?e + k)" if "0 \<le> 52 + k" for k
  proof -
    have "int (nat (52 + k)) + (?e - 52) = ?e + k" using that by simp
    then show ?thesis by (metis of_int_numeral of_int_power powi_nat powi_split)
  qed
  have "of_int (2 ^ 52) * 2 powi (?e - 52) \<le> to_double x"
    using lo assms by (simp add: to_double_def del: of_int_power)
  then show "2 powi ?e \<le> to_double x" using rescale [of 0] by simp
  have "to_double x \<le> of_int (2 ^ 53) * 2 powi (?e - 52)"
    using hi assms by (simp add: to_double_def del: of_int_power)
  then show "to_double x \<le> 2 powi (?e + 1)" using rescale [of 1] by simp
qed

lemma to_double_nonpos: "x \<le> 0 \<Longrightarrow> to_double x \<le> 0"
proof -
  assume "x \<le> 0"
  then have "round_even (x * 2 powi (52 - binade x)) \<le> round_even (of_int 0)"
    by (intro round_even_mono) (simp add: mult_nonpos_nonneg)
  then show ?thesis by (simp add: to_double_def mult_le_0_iff)
qed

lemma to_double_pos: "0 < x \<Longrightarrow> 0 < to_double x"
  using to_double_le_powi(1) [of x] powi_pos [of "binade x"] by linarith

lemma to_double_mono:
  assumes "0 \<le> x" and "x \<le> y"
  shows "to_double x \<le> to_double y"
proof (cases "x = 0")
  case True
  with assms to_double_pos [of y] show ?thesis by (cases "y = 0") (simp_all add: order.strict_iff_order)
next
  case False
  with assms have x: "0 < x" and y: "0 < y" by simp_all
  show ?thesis
  proof (cases "binade x = binade y")
    case True
    have "round_even (x * 2 powi (52 - binade x)) \<le> round_even (y * 2 powi (52 - binade x))"
      using assms by (intro round_even_mono mult_right_mono) simp_all
    with True x y show ?thesis by (simp add: to_double_def)
  next
    case False
    with binade_mono [OF x assms(2)] have "(2 :: rat) powi (binade x + 1) \<le> 2 powi binade y" by simp
    with to_double_le_powi [OF x] to_double_le_powi [OF y] show ?thesis by linarith
  qed
qed

lemma to_double_of_int:
  assumes "0 \<le> n" and "n < 2 ^ 53"
  shows "to_double (of_int n) = of_int n"
proof (cases "n = 0")
  case False
  with assms have n: "(0 :: rat) < of_int n" by simp
  let ?e = "binade (of_int n)"
  have "(2 :: rat) powi ?e < of_int (2 ^ 53)"
    using binade_bounds(1) [OF n] assms(2) by (metis of_int_less_iff order_le_less_trans)
  then have "(2 :: rat) powi ?e < 2 powi 53" by simp
  then have "?e < 53" by (simp only: powi_less_iff)
  then have "(of_int n :: rat) * 2 powi (52 - ?e) = of_int (n * 2 ^ nat (52 - ?e))"
    by (simp add: power_int_def)
  then have "round_even (of_int n * 2 powi (52 - ?e)) = n * 2 ^ nat (52 - ?e)"
    using round_even_of_int by metis
  then have "to_double (of_int n) = of_int (n * 2 ^ nat (52 - ?e)) * 2 powi (?e - 52)"
    using False by (simp add: to_double_def)
  also have "\<dots> = of_int n * 2 powi (52 - ?e) * 2 powi (?e - 52)"
    using \<open>?e < 53\<close> by (simp add: power_int_def)
  finally show ?thesis by (simp only: scale_back)
qed simp

text \<open>
  Comparing a span of nanoseconds, converted to seconds, with a whole number of seconds gives the
  exact answer, for thresholds up to a hundred days.
\<close>

lemma seconds_threshold:
  assumes "0 < t" and "t * 1000000000 < 2 ^ 53"
  shows "of_int t \<le> float_div d 1000000000 \<longleftrightarrow> t * 1000000000 \<le> d"
proof
  have exact: "to_double (of_int (t * 1000000000)) = of_int (t * 1000000000)" "to_double (of_int t) = of_int t"
    using assms by (simp_all only: to_double_of_int)
  assume "t * 1000000000 \<le> d"
  then have "to_double (of_int (t * 1000000000)) \<le> to_double (of_int d)"
    using assms(1) by (intro to_double_mono) simp_all
  then have "of_int t \<le> to_double (of_int d) / 1000000000"
    unfolding exact by (simp add: field_simps)
  then have "to_double (of_int t) \<le> to_double (to_double (of_int d) / 1000000000)"
    using assms(1) by (intro to_double_mono) simp_all
  then show "of_int t \<le> float_div d 1000000000" by (simp add: float_div_def exact)
next
  assume le: "of_int t \<le> float_div d 1000000000"
  show "t * 1000000000 \<le> d"
  proof (rule ccontr)
    assume "\<not> t * 1000000000 \<le> d"
    then have d: "d \<le> t * 1000000000 - 1" by simp
    show False
    proof (cases "0 < d")
      case True
      with d assms(2) have dd: "to_double (of_int d) = of_int d" by (intro to_double_of_int) linarith+
      let ?x = "of_int d / 1000000000 :: rat"
      have "(of_int d :: rat) \<le> of_int (t * 1000000000 - 1)" using d by (simp only: of_int_le_iff)
      then have x: "0 < ?x" "?x \<le> of_int t - 1 / 1000000000" using True by (simp_all add: field_simps)
      have "(of_int (t * 1000000000) :: rat) < of_int (2 ^ 53)" using assms(2) by (simp only: of_int_less_iff)
      then have t: "of_int t / 2 ^ 53 < (1 / 1000000000 :: rat)" by (simp add: field_simps)
      have "to_double ?x \<le> ?x + ?x / 2 ^ 53" using to_double_error [OF x(1)] by linarith
      also have "?x / 2 ^ 53 \<le> of_int t / 2 ^ 53" using x(2) by (intro divide_right_mono) simp_all
      finally have "to_double ?x < of_int t" using x(2) t by linarith
      with le dd show False by (simp add: float_div_def)
    next
      case False
      have "to_double (to_double (of_int d) / 1000000000) \<le> 0"
        using False by (intro to_double_nonpos) (simp add: divide_nonpos_nonneg to_double_nonpos)
      with le assms(1) show False by (simp add: float_div_def)
    qed
  qed
qed

end
