(* ===== verification/Py_World.thy ===== *)
theory Py_World
  imports Py_Float Py_Struct
begin

text \<open>
  What the long-running parts of the program exchange with the operating system: the subclasses of
  \<open>OSError\<close> they tell apart, JSON values, and the contents of written files. A JSON file is the
  value it stands for; \<open>json.loads\<close> of what \<open>json.dumps\<close> wrote is that value.
\<close>

subsection \<open>Operating system errors\<close>

datatype os_error =
    ProcessLookupError string
  | PermissionError string
  | FileNotFoundError string
  | FileExistsError string
  | OtherOSError string

fun os_text :: "os_error \<Rightarrow> string" where
  "os_text (ProcessLookupError m) = m"
| "os_text (PermissionError m) = m"
| "os_text (FileNotFoundError m) = m"
| "os_text (FileExistsError m) = m"
| "os_text (OtherOSError m) = m"

definition raised :: "os_error \<Rightarrow> py_error" where
  "raised e = OSError (os_text e)"

subsection \<open>JSON and file contents\<close>

datatype json =
    JNull
  | JBool bool
  | JInt int
  | JFloat rat
  | JStr string
  | JList "json list"
  | JObj "(string \<times> json) list"

fun json_get :: "string \<Rightarrow> json \<Rightarrow> json option" where
  "json_get k (JObj d) = dict_get d k"
| "json_get k _ = None"

datatype content =
    Bytes "byte list"
  | Text string
  | Json json

type_synonym disk = "(string list, content) dict"

subsection \<open>Strings\<close>

fun str_startswith :: "string \<Rightarrow> string \<Rightarrow> bool" where
  "str_startswith s [] = True"
| "str_startswith [] (p # ps) = False"
| "str_startswith (c # cs) (p # ps) = (c = p \<and> str_startswith cs ps)"

text \<open>\<open>pat in s\<close>.\<close>

fun str_contains :: "string \<Rightarrow> string \<Rightarrow> bool" where
  "str_contains pat [] = (pat = [])"
| "str_contains pat (c # cs) = (str_startswith (c # cs) pat \<or> str_contains pat cs)"

end
