(* ===== verification/Mspti_Ring.thy ===== *)
theory Mspti_Ring
  imports Py_World
begin

text \<open>
  \<open>flightrecorder/mspti_ring.py\<close>: reading the msPTI ring of a process that may still be writing to
  it, and the text report on it. The file is memory mapped, so every access can see other bytes:
  \<open>mem s k\<close> is what the \<open>k\<close>-th access of the loop iteration for sequence number \<open>s\<close> sees, and
  \<open>mem 0 0\<close> what the header is read from. Names are decoded by \<open>utf8\<close>, Python's replacing UTF-8
  decoder.
\<close>

subsection \<open>The layout\<close>

definition RING_MAGIC :: int where
  "RING_MAGIC = 0x315450534D474E48"

definition RING_HEADER :: "fcode list" where
  "RING_HEADER = [U64, U32, U32, U64, U32, U32, U64, U64, U64, U64]"

definition EVENT_V1 :: "fcode list" where
  "EVENT_V1 = [U64, U64, U64, U64, U64, U32, U32, U32, U32, U16, U16, U32, Str 64]"

definition EVENT_V2 :: "fcode list" where
  "EVENT_V2 = [U64, U64, U64, U64, U64, U32, U32, U32, U32, U16, U16, U32, Str 64, Str 64]"

definition LABELS :: "(int, string) dict" where
  "LABELS = [(1, ''runtime_enter''), (2, ''runtime_exit''), (3, ''hccl_enter''), (4, ''hccl_exit''),
     (5, ''kernel_done''), (6, ''hccl_done''), (7, ''status''), (8, ''runtime_api_done'')]"

record ring_header =
  rh_pid :: int
  rh_capacity :: int
  rh_written :: int
  rh_wall_ns :: int
  rh_mono_ns :: int
  rh_dropped :: int
  rh_overwritten :: int

record ring_event =
  re_seq :: int
  re_observed_ns :: int
  re_start_ns :: int
  re_end_ns :: int
  re_correlation_id :: int
  re_pid :: int
  re_tid :: int
  re_device :: int
  re_stream :: int
  re_kind :: string
  re_flags :: int
  re_code :: int
  re_name :: string
  re_detail :: string

lemma ring_sizes [simp]:
  "calcsize RING_HEADER = 64" "calcsize EVENT_V1 = 128" "calcsize EVENT_V2 = 192"
  by (simp_all add: RING_HEADER_def EVENT_V1_def EVENT_V2_def)

subsection \<open>Reading\<close>

type_synonym ring_mem = "int \<Rightarrow> nat \<Rightarrow> byte list"

text \<open>\<open>raw.split(b"\0", 1)[0]\<close>.\<close>

definition cstr :: "byte list \<Rightarrow> byte list" where
  "cstr = takeWhile (\<lambda>b. b \<noteq> 0)"

definition ring_event_format :: "int \<Rightarrow> fcode list" where
  "ring_event_format version = (if version = 2 then EVENT_V2 else EVENT_V1)"

definition decode_event :: "(byte list \<Rightarrow> string) \<Rightarrow> int \<Rightarrow> int \<Rightarrow> sval list \<Rightarrow> ring_event" where
  "decode_event utf8 version seq raw =
     \<lparr>re_seq = seq, re_observed_ns = int_at raw 1, re_start_ns = int_at raw 2,
      re_end_ns = int_at raw 3, re_correlation_id = int_at raw 4, re_pid = int_at raw 5,
      re_tid = int_at raw 6, re_device = int_at raw 7, re_stream = int_at raw 8,
      re_kind = (case dict_get LABELS (int_at raw 9) of
                   Some l \<Rightarrow> l | None \<Rightarrow> ''unknown_'' @ str_int (int_at raw 9)),
      re_flags = int_at raw 10, re_code = int_at raw 11, re_name = utf8 (cstr (bytes_at raw 12)),
      re_detail = (if version = 2 then utf8 (cstr (bytes_at raw 13)) else [])\<rparr>"

text \<open>One iteration: the sequence number is read before and after the slot is copied.\<close>

definition ring_slot ::
  "(byte list \<Rightarrow> string) \<Rightarrow> int \<Rightarrow> int \<Rightarrow> int \<Rightarrow> ring_mem \<Rightarrow> int \<Rightarrow> py_error + ring_event option" where
  "ring_slot utf8 version esize capacity mem seq =
     (let offset = 128 + nat ((seq - 1) mod capacity) * nat esize
      in case unpack_from [U64] (mem seq 0) offset of
           Inl e \<Rightarrow> Inl e
         | Inr before \<Rightarrow>
             if int_at before 0 \<noteq> seq then Inr None
             else case unpack_from (ring_event_format version) (mem seq 1) offset of
               Inl e \<Rightarrow> Inl e
             | Inr raw \<Rightarrow>
                 (case unpack_from [U64] (mem seq 2) offset of
                    Inl e \<Rightarrow> Inl e
                  | Inr after \<Rightarrow>
                      if int_at raw 0 \<noteq> seq \<or> int_at after 0 \<noteq> seq then Inr None
                      else Inr (Some (decode_event utf8 version seq raw))))"

definition read_ring ::
  "(byte list \<Rightarrow> string) \<Rightarrow> string + ring_mem \<Rightarrow> py_error + ring_header \<times> ring_event list" where
  "read_ring utf8 mapped =
     (case mapped of
        Inl m \<Rightarrow> Inl (OSError m)
      | Inr mem \<Rightarrow>
          (let data = mem 0 0
           in if data = [] then Inl (ValueError ''cannot mmap an empty file'')
              else if length data < 128 then Inl (ValueError ''ring header is truncated'')
              else case unpack_from RING_HEADER data 0 of
                Inl e \<Rightarrow> Inl e
              | Inr h \<Rightarrow>
                  (let magic = int_at h 0; version = int_at h 1; esize = int_at h 2;
                       capacity = int_at h 3; pid = int_at h 4; written = int_at h 6;
                       wall = int_at h 7; mono_ns = int_at h 8; dropped = int_at h 9
                   in if magic \<noteq> RING_MAGIC \<or> (version, esize) \<notin> {(1, 128), (2, 192)}
                      then Inl (ValueError ''unsupported msPTI ring format'')
                      else if int (length data) < 128 + capacity * esize
                      then Inl (ValueError ''ring is truncated'')
                      else case collect (ring_slot utf8 version esize capacity mem)
                                  [max 1 (written - capacity + 1)..written] of
                        Inl e \<Rightarrow> Inl e
                      | Inr events \<Rightarrow> Inr
                          (\<lparr>rh_pid = pid, rh_capacity = capacity, rh_written = written,
                            rh_wall_ns = wall, rh_mono_ns = mono_ns, rh_dropped = dropped,
                            rh_overwritten = max 0 (written - capacity)\<rparr>, events))))"

subsection \<open>What reading yields\<close>

lemma ring_slot_SomeD:
  "ring_slot utf8 version esize capacity mem seq = Inr (Some e) \<Longrightarrow> re_seq e = seq"
  by (auto simp: ring_slot_def decode_event_def Let_def split: sum.splits if_splits)

text \<open>The slot of a sequence number lies inside a file as long as the header demands.\<close>

lemma ring_slot_in_bounds:
  assumes "0 < capacity" and "0 \<le> esize" and "128 + capacity * esize \<le> int n"
  shows "128 + nat ((seq - 1) mod capacity) * nat esize + nat esize \<le> n"
proof -
  let ?k = "(seq - 1) mod capacity"
  have "?k < capacity" using assms(1) by (rule pos_mod_bound)
  then have k: "0 \<le> ?k" "?k + 1 \<le> capacity" using assms(1) pos_mod_sign by (simp, linarith)
  then have "(?k + 1) * esize \<le> capacity * esize" using assms(2) by (intro mult_right_mono) simp_all
  then have "128 + ?k * esize + esize \<le> int n" using assms(3) by (simp add: algebra_simps)
  moreover have "int (128 + nat ?k * nat esize + nat esize) = 128 + ?k * esize + esize"
    using k(1) assms(2) by simp
  ultimately show ?thesis by linarith
qed

lemma ring_slot_no_error:
  assumes "0 < capacity" and esize: "(version, esize) \<in> {(1, 128), (2, 192)}"
    and "128 + capacity * esize \<le> int n" and len: "\<And>k. length (mem seq k) = n"
  shows "\<exists>r. ring_slot utf8 version esize capacity mem seq = Inr r"
proof -
  let ?off = "128 + nat ((seq - 1) mod capacity) * nat esize"
  have b: "?off + nat esize \<le> n" using esize by (intro ring_slot_in_bounds assms(1,3)) auto
  moreover have "calcsize (ring_event_format version) = nat esize" "8 \<le> nat esize"
    using esize by (auto simp: ring_event_format_def)
  ultimately show ?thesis
    using len by (simp add: ring_slot_def unpack_from_def Let_def)
qed

lemma strict_upto: "sorted_wrt (<) [i..j :: int]"
  by (simp add: strict_sorted_iff)

lemma collect_ring_strict:
  assumes "collect (ring_slot utf8 version esize capacity mem) seqs = Inr es" and "sorted_wrt (<) seqs"
  shows "sorted_wrt (<) (map re_seq es) \<and> re_seq ` set es \<subseteq> set seqs"
  using assms
proof (induction seqs arbitrary: es)
  case (Cons s seqs)
  show ?case
  proof (cases "ring_slot utf8 version esize capacity mem s")
    case (Inr r)
    from Cons.prems(1) Inr obtain es' where es': "collect (ring_slot utf8 version esize capacity mem) seqs = Inr es'"
      and es: "es = (case r of None \<Rightarrow> es' | Some e \<Rightarrow> e # es')"
      by (auto split: option.splits sum.splits)
    from Cons.IH [OF es'] Cons.prems(2)
    have IH: "sorted_wrt (<) (map re_seq es')" "re_seq ` set es' \<subseteq> set seqs" by simp_all
    show ?thesis
    proof (cases r)
      case None
      with es IH show ?thesis by auto
    next
      case (Some e)
      with Inr ring_slot_SomeD have "re_seq e = s" by blast
      with Some es IH Cons.prems(2) show ?thesis by auto
    qed
  qed (use Cons.prems in simp)
qed simp

lemma read_ring_InrE:
  assumes "read_ring utf8 mapped = Inr (h, es)"
  obtains mem version esize where "mapped = Inr mem"
    and "(version, esize) \<in> {(1, 128), (2, 192)}"
    and "128 + rh_capacity h * esize \<le> int (length (mem 0 0))"
    and "rh_overwritten h = max 0 (rh_written h - rh_capacity h)"
    and "collect (ring_slot utf8 version esize (rh_capacity h) mem)
      [max 1 (rh_written h - rh_capacity h + 1)..rh_written h] = Inr es"
proof -
  from assms obtain mem where f: "mapped = Inr mem" by (cases mapped) (simp_all add: read_ring_def)
  let ?ok = "\<lambda>version esize. 128 + rh_capacity h * esize \<le> int (length (mem 0 0)) \<and>
      collect (ring_slot utf8 version esize (rh_capacity h) mem)
        [max 1 (rh_written h - rh_capacity h + 1)..rh_written h] = Inr es"
  have "(?ok 1 128 \<or> ?ok 2 192) \<and> rh_overwritten h = max 0 (rh_written h - rh_capacity h)"
    using assms by (auto simp: f read_ring_def Let_def not_less split: sum.splits if_splits)
  with f show thesis by (auto intro: that [of mem 1 128] that [of mem 2 192])
qed

lemma read_ring_strict:
  assumes "read_ring utf8 mapped = Inr (h, es)"
  shows "sorted_wrt (<) (map re_seq es)"
    and "e \<in> set es \<Longrightarrow> max 1 (rh_written h - rh_capacity h + 1) \<le> re_seq e \<and> re_seq e \<le> rh_written h"
proof -
  from assms obtain mem version esize
    where c: "collect (ring_slot utf8 version esize (rh_capacity h) mem)
      [max 1 (rh_written h - rh_capacity h + 1)..rh_written h] = Inr es"
    by (rule read_ring_InrE)
  from collect_ring_strict [OF c strict_upto] show "sorted_wrt (<) (map re_seq es)"
    "e \<in> set es \<Longrightarrow> max 1 (rh_written h - rh_capacity h + 1) \<le> re_seq e \<and> re_seq e \<le> rh_written h"
    by auto
qed

text \<open>
  A mapping keeps its length. Then no \<open>struct.error\<close> and no division by zero can happen: with
  capacity zero the range of sequence numbers is empty.
\<close>

lemma ring_header_nonneg: "unpack_from RING_HEADER data 0 = Inr h \<Longrightarrow> 0 \<le> int_at h 3"
  by (auto simp: unpack_from_def RING_HEADER_def le_int_nonneg split: if_splits)

lemma ring_loop_no_error:
  assumes "0 \<le> capacity" and "(version, esize) \<in> {(1, 128), (2, 192)}"
    and "128 + capacity * esize \<le> int (length (mem 0 0))"
    and "\<And>s k. length (mem s k) = length (mem 0 0)"
  shows "\<exists>es. collect (ring_slot utf8 version esize capacity mem)
    [max 1 (written - capacity + 1)..written] = Inr es"
proof (cases "capacity = 0")
  case False
  with assms(1) have "0 < capacity" by simp
  with assms(2-) show ?thesis
    by (intro collect_no_error ring_slot_no_error [where n = "length (mem 0 0)"]) blast+
qed simp

lemma read_ring_total:
  assumes len: "\<And>s k. length (mem s k) = length (mem 0 0)"
  shows "(\<exists>m. read_ring utf8 (Inr mem) = Inl (ValueError m)) \<or> (\<exists>r. read_ring utf8 (Inr mem) = Inr r)"
proof -
  have no: "collect (ring_slot utf8 v z (int_at h 3) mem) [max 1 (w - int_at h 3 + 1)..w] \<noteq> Inl e"
    if "unpack_from RING_HEADER (mem 0 0) 0 = Inr h" "v = 1 \<and> z = 128 \<or> v = 2 \<and> z = 192"
      "128 + int_at h 3 * z \<le> int (length (mem 0 0))" for h v z w e
  proof -
    have "\<exists>es. collect (ring_slot utf8 v z (int_at h 3) mem) [max 1 (w - int_at h 3 + 1)..w] = Inr es"
      using that by (intro ring_loop_no_error ring_header_nonneg [of "mem 0 0"] len) auto
    then show ?thesis by auto
  qed
  have "\<exists>h. unpack_from RING_HEADER (mem 0 0) 0 = Inr h" if "\<not> length (mem 0 0) < 128"
    using that by (simp add: unpack_from_def)
  then show ?thesis
    using no [of _ 1 128] no [of _ 2 192]
    by (auto simp: read_ring_def Let_def not_less split: sum.splits)
qed

subsection \<open>The report\<close>

text \<open>
  Callback entries and exits are paired by API family, thread and callback id, last entered first.
  A \<open>defaultdict\<close> read creates the entry; an exit without a pending entry is dropped.
\<close>

type_synonym call_key = "string \<times> int \<times> int"

definition call_key :: "ring_event \<Rightarrow> call_key" where
  "call_key e = (takeWhile (\<lambda>c. c \<noteq> CHR ''_'') (re_kind e), re_tid e, re_code e)"

definition is_enter :: "ring_event \<Rightarrow> bool" where
  "is_enter e \<longleftrightarrow> re_kind e = ''runtime_enter'' \<or> re_kind e = ''hccl_enter''"

definition is_exit :: "ring_event \<Rightarrow> bool" where
  "is_exit e \<longleftrightarrow> re_kind e = ''runtime_exit'' \<or> re_kind e = ''hccl_exit''"

definition call_step ::
  "ring_event \<Rightarrow> (call_key, ring_event list) dict \<Rightarrow> (call_key, ring_event list) dict" where
  "call_step e pending =
     (if is_enter e then dict_append (call_key e) e pending
      else if is_exit e then dict_set (call_key e) (butlast (dict_list pending (call_key e))) pending
      else pending)"

definition open_calls :: "ring_event list \<Rightarrow> ring_event list" where
  "open_calls events = sort_key re_seq (concat (dict_values (fold call_step events [])))"

definition api_correlations :: "ring_event list \<Rightarrow> int list" where
  "api_correlations events = map re_correlation_id
     (filter (\<lambda>e. re_kind e = ''runtime_api_done'' \<and> re_correlation_id e \<noteq> 0) events)"

definition kernels :: "ring_event list \<Rightarrow> ring_event list" where
  "kernels events = filter (\<lambda>e. re_kind e = ''kernel_done'') events"

definition joined_kernels :: "ring_event list \<Rightarrow> ring_event list" where
  "joined_kernels events =
     filter (\<lambda>e. re_correlation_id e \<in> set (api_correlations events)) (kernels events)"

definition kernel_type :: "ring_event \<Rightarrow> string" where
  "kernel_type e = (if re_detail e = [] then ''unknown'' else re_detail e)"

text \<open>\<open>sorted(Counter(...).items())\<close>.\<close>

definition type_counts :: "ring_event list \<Rightarrow> (string \<times> int) list" where
  "type_counts events =
     (let types = map kernel_type (kernels events)
      in map (\<lambda>t. (t, int (length (filter ((=) t) types)))) (sort (remdups types)))"

definition is_done :: "ring_event \<Rightarrow> bool" where
  "is_done e \<longleftrightarrow> re_kind e = ''kernel_done'' \<or> re_kind e = ''hccl_done''"

definition done_step :: "ring_event \<Rightarrow> (int \<times> int, ring_event) dict \<Rightarrow> (int \<times> int, ring_event) dict" where
  "done_step e d = (if is_done e then dict_set (re_device e, re_stream e) e d else d)"

definition last_by_stream :: "ring_event list \<Rightarrow> (int \<times> int, ring_event) dict" where
  "last_by_stream events = fold done_step events []"

interpretation done_dict: last_write done_step map_of
  "\<lambda>e k. if is_done e \<and> (re_device e, re_stream e) = k then Some (Some e) else None"
  by unfold_locales (auto simp: done_step_def py_dict)

lemma last_by_stream_iff:
  "dict_get (last_by_stream events) k = Some e \<longleftrightarrow>
    (\<exists>pre post. events = pre @ e # post \<and> is_done e \<and> (re_device e, re_stream e) = k \<and>
      (\<forall>x \<in> set post. \<not> (is_done x \<and> (re_device x, re_stream x) = k)))"
  unfolding last_by_stream_def by (subst done_dict.get_fold_Some_iff) auto

lemma last_by_stream_distinct: "distinct (dict_keys (last_by_stream events))"
proof -
  have "distinct (dict_keys (fold done_step ev d))" if "distinct (dict_keys d)" for ev d
    using that by (induction ev arbitrary: d) (simp_all add: done_step_def distinct_update)
  then show ?thesis by (simp add: last_by_stream_def)
qed

text \<open>\<open>xs[-n:]\<close> for any integer \<open>n\<close>: \<open>n = 0\<close> is the whole list.\<close>

definition slice_last :: "int \<Rightarrow> 'a list \<Rightarrow> 'a list" where
  "slice_last n xs = (if n \<le> 0 then drop (nat (- n)) xs else take_last (nat n) xs)"

definition open_line :: "ring_event \<Rightarrow> string" where
  "open_line e = ''  seq='' @ str_int (re_seq e) @ '' '' @ re_kind e @ '' tid='' @ str_int (re_tid e) @
     '' corr='' @ str_int (re_correlation_id e) @ '' '' @ re_name e"

definition stream_line :: "(int \<times> int) \<times> ring_event \<Rightarrow> string" where
  "stream_line = (\<lambda>((device, stream), e).
     ''  device='' @ str_int device @ '' stream='' @ str_int stream @ '' #'' @ str_int (re_seq e) @
     '' '' @ re_kind e @ '' corr='' @ str_int (re_correlation_id e) @ '' '' @ re_name e @
     '' ['' @ re_detail e @ '']'')"

definition recent_line :: "ring_header \<Rightarrow> ring_event \<Rightarrow> string" where
  "recent_line header e =
     (let dev = (if re_device e = 0xFFFFFFFF then []
                 else '' device='' @ str_int (re_device e) @ '' stream='' @ str_int (re_stream e))
      in ''  +'' @ rjust 10 (format_fixed 3 (float_div (re_observed_ns e - rh_mono_ns header) 1000000)) @ ''ms #'' @ rjust 8 (str_int (re_seq e)) @
         '' '' @ ljust 16 (re_kind e) @ '' corr='' @ str_int (re_correlation_id e) @ dev @ '' code='' @
         str_int (re_code e) @ '' '' @ re_name e @ '' ['' @ re_detail e @ '']'')"

definition report_text :: "string \<Rightarrow> int \<Rightarrow> ring_header \<Rightarrow> ring_event list \<Rightarrow> string list" where
  "report_text path tail header events =
     (let opened = open_calls events; types = type_counts events; streams = last_by_stream events
      in [''file: '' @ path,
          ''pid: '' @ str_int (rh_pid header) @ ''  records: '' @ str_int (int (length events)) @
            ''  overwritten: '' @ str_int (rh_overwritten header) @
            ''  dropped_buffers: '' @ str_int (rh_dropped header),
          ''counts: '' @ str_join '', '' (map (\<lambda>label. label @ ''='' @
             str_int (int (length (filter (\<lambda>e. re_kind e = label) events)))) (dict_values LABELS)),
          ''callback entries without exits in retained window: '' @ str_int (int (length opened))] @
         map open_line (take_last 20 opened) @
         [''completed kernels with matching Runtime API Activity correlation: '' @
            str_int (int (length (joined_kernels events))) @ ''/'' @ str_int (int (length (kernels events))),
          ''completed Kernel Activity types: '' @
            (if types \<noteq> [] then str_join '', '' (map (\<lambda>(kind, count). kind @ ''='' @ str_int count) types)
             else ''none''),
          ''last delivered completed activity per stream:''] @
         map stream_line (sort_key fst streams) @
         (if streams = [] then [''  none''] else []) @
         (case events of e # _ \<Rightarrow>
            if re_seq e > 1
            then [''WARNING: ring wrapped; unmatched entries can be older than retained data''] else []
          | [] \<Rightarrow> []) @
         [''recent observations (device start/end use msPTI clock, not host monotonic clock):''] @
         map (recent_line header) (slice_last tail events) @
         [''Interpretation: *_done means a completed activity record was delivered to host; '' @
          ''an absent record cannot prove that a kernel never ran. Callback exit means API returned, '' @
          ''not device completion. Callback correlation IDs are not assumed reliable; '' @
          ''match enter/exit by thread and callback ID.''])"

definition ring_report ::
  "(byte list \<Rightarrow> string) \<Rightarrow> string + ring_mem \<Rightarrow> string \<Rightarrow> int \<Rightarrow> py_error + string" where
  "ring_report utf8 mapped path tail =
     (case read_ring utf8 mapped of
        Inl e \<Rightarrow> Inl e
      | Inr (header, events) \<Rightarrow>
          Inr (str_join [CHR 0x0A] (report_text path tail header events)))"

subsection \<open>Which calls are open\<close>

text \<open>Entries minus exits of one call key.\<close>

definition call_balance :: "call_key \<Rightarrow> ring_event list \<Rightarrow> int" where
  "call_balance k ev = int (length (filter (\<lambda>x. is_enter x \<and> call_key x = k) ev)) -
     int (length (filter (\<lambda>x. is_exit x \<and> call_key x = k) ev))"

definition call_stack :: "call_key \<Rightarrow> ring_event list \<Rightarrow> ring_event list" where
  "call_stack k ev = dict_list (fold call_step ev []) k"

lemma enter_not_exit: "is_enter e \<Longrightarrow> \<not> is_exit e"
  by (auto simp: is_enter_def is_exit_def)

lemma dict_list_set: "dict_list (dict_set k vs d) k' = (if k' = k then vs else dict_list d k')"
  by (simp add: dict_list_def py_dict)

lemma call_stack_Nil [simp]: "call_stack k [] = []"
  by (simp add: call_stack_def dict_list_def)

lemma call_stack_snoc:
  "call_stack k (ev @ [e]) =
    (if is_enter e \<and> call_key e = k then call_stack k ev @ [e]
     else if is_exit e \<and> call_key e = k then butlast (call_stack k ev) else call_stack k ev)"
  using enter_not_exit by (auto simp: call_stack_def call_step_def dict_list_append dict_list_set)

lemma call_balance_snoc:
  "call_balance k (ev @ [e]) = call_balance k ev +
    (if is_enter e \<and> call_key e = k then 1 else if is_exit e \<and> call_key e = k then -1 else 0)"
  using enter_not_exit by (simp add: call_balance_def)

lemma call_stack_subset: "x \<in> set (call_stack k ev) \<Longrightarrow> x \<in> set ev \<and> is_enter x \<and> call_key x = k"
proof (induction ev arbitrary: x rule: rev_induct)
  case (snoc e ev)
  then show ?case by (auto simp: call_stack_snoc split: if_splits dest: in_set_butlastD)
qed simp

definition never_below :: "call_key \<Rightarrow> ring_event list \<Rightarrow> bool" where
  "never_below k ev \<longleftrightarrow> (\<forall>p q. ev = p @ q \<longrightarrow> 0 \<le> call_balance k p)"

lemma never_below_snoc: "never_below k (ev @ [e]) \<longleftrightarrow> never_below k ev \<and> 0 \<le> call_balance k (ev @ [e])"
  unfolding never_below_def
proof (intro iffI conjI allI impI)
  assume a: "\<forall>p q. ev @ [e] = p @ q \<longrightarrow> 0 \<le> call_balance k p"
  then show "0 \<le> call_balance k (ev @ [e])" by blast
  fix p q assume "ev = p @ q"
  with a have "ev @ [e] = p @ (q @ [e]) \<longrightarrow> 0 \<le> call_balance k p" by blast
  with \<open>ev = p @ q\<close> show "0 \<le> call_balance k p" by simp
next
  fix p q
  assume a: "(\<forall>p q. ev = p @ q \<longrightarrow> 0 \<le> call_balance k p) \<and> 0 \<le> call_balance k (ev @ [e])"
    and "ev @ [e] = p @ q"
  then show "0 \<le> call_balance k p" by (cases q rule: rev_cases) auto
qed

text \<open>While no exit reaches below it, an entry stays at its place of the stack.\<close>

lemma call_stack_keeps:
  assumes "is_enter e" and "call_key e = k" and "never_below k post"
  shows "\<exists>T. call_stack k (pre @ e # post) = call_stack k pre @ e # T \<and> int (length T) = call_balance k post"
  using assms(3)
proof (induction post rule: rev_induct)
  case Nil
  from assms(1,2) show ?case using call_stack_snoc [of k pre e] by (simp add: call_balance_def)
next
  case (snoc x post)
  then obtain T where T: "call_stack k (pre @ e # post) = call_stack k pre @ e # T"
    "int (length T) = call_balance k post" by (auto simp: never_below_snoc)
  have step: "call_stack k (pre @ e # post @ [x]) =
      (if is_enter x \<and> call_key x = k then call_stack k (pre @ e # post) @ [x]
       else if is_exit x \<and> call_key x = k then butlast (call_stack k (pre @ e # post))
       else call_stack k (pre @ e # post))"
    using call_stack_snoc [of k "pre @ e # post" x] by simp
  have nb: "0 \<le> call_balance k (post @ [x])" using snoc.prems by (simp add: never_below_snoc)
  show ?case
  proof (cases "is_exit x \<and> call_key x = k")
    case True
    with nb T(2) have "T \<noteq> []" using enter_not_exit by (auto simp: call_balance_snoc split: if_splits)
    moreover have "call_stack k (pre @ e # post @ [x]) = butlast (call_stack k pre @ e # T)"
      using True enter_not_exit step T(1) by auto
    ultimately have "call_stack k (pre @ e # post @ [x]) = call_stack k pre @ e # butlast T"
      by (simp add: butlast_append)
    moreover have "int (length (butlast T)) = call_balance k (post @ [x])"
      using True T(2) \<open>T \<noteq> []\<close> enter_not_exit by (cases T rule: rev_cases) (auto simp: call_balance_snoc)
    ultimately show ?thesis by blast
  next
    case False
    with step T show ?thesis by (auto simp: call_balance_snoc)
  qed
qed

lemma call_stack_drops:
  assumes "is_enter e" and "call_key e = k" and "e \<notin> set pre" and "e \<notin> set post"
    and "\<not> never_below k post"
  shows "e \<notin> set (call_stack k (pre @ e # post))"
  using assms(4,5)
proof (induction post rule: rev_induct)
  case Nil
  then show ?case by (simp add: never_below_def call_balance_def)
next
  case (snoc x post)
  have step: "call_stack k (pre @ e # post @ [x]) =
      (if is_enter x \<and> call_key x = k then call_stack k (pre @ e # post) @ [x]
       else if is_exit x \<and> call_key x = k then butlast (call_stack k (pre @ e # post))
       else call_stack k (pre @ e # post))"
    using call_stack_snoc [of k "pre @ e # post" x] by simp
  show ?case
  proof (cases "never_below k post")
    case True
    with snoc.prems(2) have neg: "call_balance k (post @ [x]) < 0" by (auto simp: never_below_snoc)
    from True have "0 \<le> call_balance k post" by (auto simp: never_below_def)
    with neg have x: "is_exit x" "call_key x = k" "call_balance k post = 0"
      by (auto simp: call_balance_snoc split: if_splits)
    from call_stack_keeps [OF assms(1,2) True, of pre] x(3)
    have "call_stack k (pre @ e # post) = call_stack k pre @ [e]" by auto
    with step x enter_not_exit have "call_stack k (pre @ e # post @ [x]) = call_stack k pre" by auto
    with assms(3) show ?thesis using call_stack_subset [of e k pre] by auto
  next
    case False
    with snoc have "e \<notin> set (call_stack k (pre @ e # post))" by simp
    with step snoc.prems(1) show ?thesis by (auto dest: in_set_butlastD)
  qed
qed

lemma call_stack_values: "v \<in> set (concat (dict_values (fold call_step events []))) \<longleftrightarrow>
    (\<exists>k. v \<in> set (call_stack k events))"
proof -
  have "distinct (dict_keys (fold call_step ev d))" if "distinct (dict_keys d)" for ev d
    using that
  proof (induction ev arbitrary: d)
    case (Cons e ev)
    have "distinct (dict_keys (call_step e d))"
      using Cons.prems by (simp add: call_step_def distinct_update distinct_dict_append)
    with Cons.IH show ?case by simp
  qed simp
  from this [of "[]" events] have d: "distinct (dict_keys (fold call_step events []))" by simp
  have "v \<in> set (concat (dict_values (fold call_step events []))) \<longleftrightarrow>
      (\<exists>vs. vs \<in> set (dict_values (fold call_step events [])) \<and> v \<in> set vs)" by auto
  also have "\<dots> \<longleftrightarrow> (\<exists>k. v \<in> set (call_stack k events))"
  proof
    assume "\<exists>vs. vs \<in> set (dict_values (fold call_step events [])) \<and> v \<in> set vs"
    then obtain k vs where "dict_get (fold call_step events []) k = Some vs" "v \<in> set vs"
      unfolding dict_values_get [OF d] by blast
    then have "v \<in> set (call_stack k events)" by (simp add: call_stack_def dict_list_def)
    then show "\<exists>k. v \<in> set (call_stack k events)" ..
  next
    assume "\<exists>k. v \<in> set (call_stack k events)"
    then obtain k where "v \<in> set (dict_list (fold call_step events []) k)" by (auto simp: call_stack_def)
    then obtain vs where "dict_get (fold call_step events []) k = Some vs" "v \<in> set vs"
      by (cases "dict_get (fold call_step events []) k") (auto simp: dict_list_def)
    then show "\<exists>vs. vs \<in> set (dict_values (fold call_step events [])) \<and> v \<in> set vs"
      unfolding dict_values_get [OF d] by blast
  qed
  finally show ?thesis .
qed

lemma open_calls_iff:
  assumes "distinct (map re_seq events)"
  shows "e \<in> set (open_calls events) \<longleftrightarrow>
    (\<exists>pre post. events = pre @ e # post \<and> is_enter e \<and> never_below (call_key e) post)"
proof -
  have "e \<in> set (open_calls events) \<longleftrightarrow> (\<exists>k. e \<in> set (call_stack k events))"
    unfolding open_calls_def set_sort call_stack_values ..
  also have "\<dots> \<longleftrightarrow> e \<in> set (call_stack (call_key e) events)" using call_stack_subset by blast
  also have "\<dots> \<longleftrightarrow> (\<exists>pre post. events = pre @ e # post \<and> is_enter e \<and> never_below (call_key e) post)"
  proof
    assume e: "e \<in> set (call_stack (call_key e) events)"
    with call_stack_subset have "e \<in> set events" "is_enter e" by blast+
    then obtain pre post where ev: "events = pre @ e # post" by (meson split_list)
    with assms have "e \<notin> set pre" "e \<notin> set post" by auto
    with call_stack_drops [OF \<open>is_enter e\<close> refl] e ev have "never_below (call_key e) post" by blast
    with ev \<open>is_enter e\<close> show "\<exists>pre post. events = pre @ e # post \<and> is_enter e \<and> never_below (call_key e) post"
      by blast
  next
    assume "\<exists>pre post. events = pre @ e # post \<and> is_enter e \<and> never_below (call_key e) post"
    then obtain pre post where "events = pre @ e # post" "is_enter e" "never_below (call_key e) post" by blast
    with call_stack_keeps [OF \<open>is_enter e\<close> refl, of post pre] show "e \<in> set (call_stack (call_key e) events)"
      by auto
  qed
  finally show ?thesis .
qed

end
