(* ===== verification/Mspti_Writer.thy ===== *)
theory Mspti_Writer
  imports Mspti_Ring Seq_Ring
begin

text \<open>
  The ring writer of \<open>src/hang_mspti.cpp\<close> (\<open>record\<close>, \<open>name_copy\<close> and the part of
  \<open>hang_mspti_start\<close> that creates the file) and its round trip through \<open>mspti_ring.py\<close>. The msPTI
  library's callbacks decide which records are written; here they are the list of calls. One
  thread writes at a time.
\<close>

subsection \<open>The mapped ring\<close>

record ring_cell =
  hs_seq :: "64 word"
  hs_observed_ns :: "64 word"
  hs_start_ns :: "64 word"
  hs_end_ns :: "64 word"
  hs_correlation_id :: "64 word"
  hs_pid :: "32 word"
  hs_tid :: "32 word"
  hs_device_id :: "32 word"
  hs_stream_id :: "32 word"
  hs_kind :: "16 word"
  hs_flags :: "16 word"
  hs_code :: "32 word"
  hs_name :: "byte list"
  hs_detail :: "byte list"

record ring_shm =
  rm_magic :: "64 word"
  rm_version :: "32 word"
  rm_event_size :: "32 word"
  rm_capacity :: "64 word"
  rm_pid :: "32 word"
  rm_reserved :: "32 word"
  rm_write_seq :: "64 word"
  rm_wall_ns :: "64 word"
  rm_mono_ns :: "64 word"
  rm_dropped :: "64 word"
  rm_cells :: "ring_cell list"

definition zero_cell :: ring_cell where
  "zero_cell = \<lparr>hs_seq = 0, hs_observed_ns = 0, hs_start_ns = 0, hs_end_ns = 0,
     hs_correlation_id = 0, hs_pid = 0, hs_tid = 0, hs_device_id = 0, hs_stream_id = 0, hs_kind = 0,
     hs_flags = 0, hs_code = 0, hs_name = replicate 64 0, hs_detail = replicate 64 0\<rparr>"

text \<open>
  \<open>hang_mspti_start\<close> up to the subscription: \<open>cur\<close> is the mapped ring, \<open>os\<close> the errno of the first
  failing system call.
\<close>

definition ring_create ::
  "ring_shm option \<Rightarrow> bool \<Rightarrow> int option \<Rightarrow> 32 word \<Rightarrow> 64 word \<Rightarrow> 64 word \<Rightarrow> 64 word \<Rightarrow> int \<times> ring_shm option" where
  "ring_create cur path_given os getpid wall_ns mono_ns capacity =
     (if \<not> path_given \<or> capacity < 64 \<or> capacity > 2 ^ 24 \<or> cur \<noteq> None then (22, cur)
      else if capacity > (0xFFFFFFFFFFFFFFFF - 128) div 192 then (75, cur)
      else case os of
        Some e \<Rightarrow> (e, cur)
      | None \<Rightarrow> (0, Some
          \<lparr>rm_magic = 0x315450534d474e48, rm_version = 2, rm_event_size = 192,
           rm_capacity = capacity, rm_pid = getpid, rm_reserved = 0, rm_write_seq = 0,
           rm_wall_ns = wall_ns, rm_mono_ns = mono_ns, rm_dropped = 0,
           rm_cells = replicate (unat capacity) zero_cell\<rparr>))"

text \<open>
  \<open>name_copy\<close>: at most 63 bytes of a C string, then a zero byte; what the cell held behind it
  stays.
\<close>

definition name_copy :: "byte list \<Rightarrow> byte list option \<Rightarrow> byte list" where
  "name_copy dst src =
     (case src of
        None \<Rightarrow> dst[0 := 0]
      | Some s \<Rightarrow> (let n = cstr (take 63 s) in n @ [0] @ drop (length n + 1) dst))"

record ring_call =
  ra_kind :: "16 word"
  ra_device :: "32 word"
  ra_stream :: "32 word"
  ra_corr :: "64 word"
  ra_start :: "64 word"
  ra_end :: "64 word"
  ra_code :: "32 word"
  ra_name :: "byte list option"
  ra_detail :: "byte list option"
  ra_now :: "64 word"
  ra_tid :: "32 word"

definition filled_cell :: "ring_shm \<Rightarrow> ring_call \<Rightarrow> 64 word \<Rightarrow> ring_cell \<Rightarrow> ring_cell" where
  "filled_cell m c seq old =
     \<lparr>hs_seq = seq, hs_observed_ns = ra_now c, hs_start_ns = ra_start c, hs_end_ns = ra_end c,
      hs_correlation_id = ra_corr c, hs_pid = rm_pid m, hs_tid = ra_tid c, hs_device_id = ra_device c,
      hs_stream_id = ra_stream c, hs_kind = ra_kind c, hs_flags = 0, hs_code = ra_code c,
      hs_name = name_copy (hs_name old) (ra_name c), hs_detail = name_copy (hs_detail old) (ra_detail c)\<rparr>"

definition ring_store :: "ring_call \<Rightarrow> ring_shm \<Rightarrow> ring_shm" where
  "ring_store c m =
     (let seq = rm_write_seq m + 1; k = unat ((seq - 1) mod rm_capacity m)
      in m\<lparr>rm_write_seq := seq, rm_cells := (rm_cells m)[k := filled_cell m c seq (rm_cells m ! k)]\<rparr>)"

definition ring_record :: "ring_shm option \<Rightarrow> bool \<Rightarrow> ring_call \<Rightarrow> ring_shm option" where
  "ring_record cur getpid_is_owner c =
     (case cur of None \<Rightarrow> None | Some m \<Rightarrow> if \<not> getpid_is_owner then cur else Some (ring_store c m))"

subsection \<open>The bytes\<close>

definition ring_header_vals :: "ring_shm \<Rightarrow> sval list" where
  "ring_header_vals m =
     [VInt (uint (rm_magic m)), VInt (uint (rm_version m)), VInt (uint (rm_event_size m)),
      VInt (uint (rm_capacity m)), VInt (uint (rm_pid m)), VInt (uint (rm_reserved m)),
      VInt (uint (rm_write_seq m)), VInt (uint (rm_wall_ns m)), VInt (uint (rm_mono_ns m)),
      VInt (uint (rm_dropped m))]"

definition cell_vals :: "ring_cell \<Rightarrow> sval list" where
  "cell_vals e =
     [VInt (uint (hs_seq e)), VInt (uint (hs_observed_ns e)), VInt (uint (hs_start_ns e)),
      VInt (uint (hs_end_ns e)), VInt (uint (hs_correlation_id e)), VInt (uint (hs_pid e)),
      VInt (uint (hs_tid e)), VInt (uint (hs_device_id e)), VInt (uint (hs_stream_id e)),
      VInt (uint (hs_kind e)), VInt (uint (hs_flags e)), VInt (uint (hs_code e)),
      VBytes (hs_name e), VBytes (hs_detail e)]"

definition cell_bytes :: "ring_cell \<Rightarrow> byte list" where
  "cell_bytes e = pack_fields EVENT_V2 (cell_vals e)"

definition ring_image :: "ring_shm \<Rightarrow> byte list" where
  "ring_image m =
     pack_fields RING_HEADER (ring_header_vals m) @ replicate 64 0 @ concat (map cell_bytes (rm_cells m))"

definition cell_ok :: "ring_cell \<Rightarrow> bool" where
  "cell_ok e \<longleftrightarrow> length (hs_name e) = 64 \<and> length (hs_detail e) = 64"

definition ring_ok :: "ring_shm \<Rightarrow> bool" where
  "ring_ok m \<longleftrightarrow> rm_magic m = 0x315450534d474e48 \<and> rm_version m = 2 \<and> rm_event_size m = 192 \<and>
     64 \<le> rm_capacity m \<and> length (rm_cells m) = unat (rm_capacity m) \<and>
     (\<forall>e \<in> set (rm_cells m). cell_ok e)"

lemma word_bounds:
  "uint (a :: 64 word) < 18446744073709551616" "uint (b :: 32 word) < 4294967296"
  "uint (c :: 16 word) < 65536"
  using uint_lt2p [of a] uint_lt2p [of b] uint_lt2p [of c] by simp_all

lemma fits_ring_header: "fits RING_HEADER (ring_header_vals m)"
  by (simp add: RING_HEADER_def ring_header_vals_def word_bounds)

lemma fits_cell: "cell_ok e \<Longrightarrow> fits EVENT_V2 (cell_vals e)"
  by (simp add: EVENT_V2_def cell_vals_def cell_ok_def word_bounds)

lemma length_cell_bytes [simp]: "length (cell_bytes e) = 192"
  by (simp add: cell_bytes_def)

lemma length_cells [simp]: "length (concat (map cell_bytes es)) = 192 * length es"
  by (induction es) auto

lemma length_ring_image [simp]: "length (ring_image m) = 128 + 192 * length (rm_cells m)"
  by (simp add: ring_image_def)

lemma drop_cells:
  "k \<le> length es \<Longrightarrow> drop (192 * k) (concat (map cell_bytes es)) = concat (map cell_bytes (drop k es))"
proof (induction k arbitrary: es)
  case (Suc k)
  then obtain e es' where "es = e # es'" by (cases es) auto
  with Suc show ?case by (simp add: mult.commute)
qed simp

lemma unpack_cell:
  assumes "ring_ok m" and "k < length (rm_cells m)"
  shows "unpack_from EVENT_V2 (ring_image m) (128 + k * 192) = Inr (cell_vals (rm_cells m ! k))"
    and "unpack_from [U64] (ring_image m) (128 + k * 192) = Inr [VInt (uint (hs_seq (rm_cells m ! k)))]"
proof -
  let ?e = "rm_cells m ! k"
  have "drop (128 + k * 192) (ring_image m) = concat (map cell_bytes (drop k (rm_cells m)))"
    using assms(2) drop_cells [of k "rm_cells m"] by (simp add: ring_image_def mult.commute)
  also have "drop k (rm_cells m) = ?e # drop (Suc k) (rm_cells m)"
    using assms(2) by (simp add: Cons_nth_drop_Suc)
  finally have d: "drop (128 + k * 192) (ring_image m) =
      pack_fields EVENT_V2 (cell_vals ?e) @ concat (map cell_bytes (drop (Suc k) (rm_cells m)))"
    by (simp add: cell_bytes_def [of ?e])
  have "cell_ok ?e" using assms by (simp add: ring_ok_def)
  with d show "unpack_from EVENT_V2 (ring_image m) (128 + k * 192) = Inr (cell_vals ?e)"
    using assms(2) unpack_fields_pack_append [OF fits_cell] by (simp add: unpack_from_no_error)
  have "take 8 (drop (128 + k * 192) (ring_image m)) = le_bytes 8 (uint (hs_seq ?e))"
    unfolding d by (simp add: EVENT_V2_def cell_vals_def)
  then show "unpack_from [U64] (ring_image m) (128 + k * 192) = Inr [VInt (uint (hs_seq ?e))]"
    using assms(2) word_bounds(1) [of "hs_seq ?e"] by (simp add: unpack_from_def)
qed

subsection \<open>After any number of records\<close>

text \<open>What a reader can see of a cell: the names up to their zero byte.\<close>

definition cell_view :: "ring_cell \<Rightarrow> ring_cell" where
  "cell_view e = e\<lparr>hs_name := cstr (hs_name e), hs_detail := cstr (hs_detail e)\<rparr>"

definition visible_name :: "byte list option \<Rightarrow> byte list" where
  "visible_name src = (case src of None \<Rightarrow> [] | Some s \<Rightarrow> cstr (take 63 s))"

definition stamped_cell :: "ring_shm \<Rightarrow> ring_call \<Rightarrow> nat \<Rightarrow> ring_cell" where
  "stamped_cell m c s =
     \<lparr>hs_seq = of_nat s, hs_observed_ns = ra_now c, hs_start_ns = ra_start c, hs_end_ns = ra_end c,
      hs_correlation_id = ra_corr c, hs_pid = rm_pid m, hs_tid = ra_tid c, hs_device_id = ra_device c,
      hs_stream_id = ra_stream c, hs_kind = ra_kind c, hs_flags = 0, hs_code = ra_code c,
      hs_name = visible_name (ra_name c), hs_detail = visible_name (ra_detail c)\<rparr>"

lemma cstr_nonzero: "0 \<notin> set (cstr bs)"
  by (auto simp: cstr_def dest: set_takeWhileD)

lemma cstr_cut: "0 \<notin> set n \<Longrightarrow> cstr (n @ 0 # rest) = n"
  by (induction n) (auto simp: cstr_def)

lemma length_cstr: "length (cstr bs) \<le> length bs"
  by (simp add: cstr_def length_takeWhile_le)

lemma length_visible: "length (cstr (take 63 bs)) \<le> 63"
  using length_cstr [of "take 63 bs"] by simp

lemma name_copy_length: "length dst = 64 \<Longrightarrow> length (name_copy dst src) = 64"
  using length_visible by (auto simp: name_copy_def Let_def split: option.split)

lemma cstr_name_copy: "length dst = 64 \<Longrightarrow> cstr (name_copy dst src) = visible_name src"
proof (cases src)
  case None
  assume "length dst = 64"
  with None show ?thesis by (cases dst) (simp_all add: name_copy_def visible_name_def cstr_def)
next
  case (Some s)
  then show ?thesis using cstr_cut [OF cstr_nonzero] by (simp add: name_copy_def visible_name_def Let_def)
qed

lemma filled_cell_view:
  "cell_ok old \<Longrightarrow> cell_ok (filled_cell m c seq old) \<and>
    cell_view (filled_cell m c (of_nat s) old) = stamped_cell m c s"
  by (simp add: cell_ok_def filled_cell_def cell_view_def stamped_cell_def name_copy_length cstr_name_copy)

lemma unat_Suc: "unat w < 2 ^ 64 - 1 \<Longrightarrow> unat (w + 1 :: 64 word) = Suc (unat w)"
  by (simp add: unat_word_ariths)

interpretation hang_ring: seq_ring ring_ok ring_store "\<lambda>m. unat (rm_write_seq m)"
  "\<lambda>m. length (rm_cells m)" "\<lambda>m k. cell_view (rm_cells m ! k)" stamped_cell "2 ^ 64 - 1"
proof unfold_locales
  fix m :: ring_shm and c k
  assume ok: "ring_ok m"
  have cap: "64 \<le> unat (rm_capacity m)" using ok by (simp add: ring_ok_def word_le_nat_alt)
  then show pos: "0 < length (rm_cells m)" using ok by (simp add: ring_ok_def)
  assume total: "unat (rm_write_seq m) < 2 ^ 64 - 1"
  have idx: "unat (rm_write_seq m mod rm_capacity m) = unat (rm_write_seq m) mod length (rm_cells m)"
    using ok by (simp add: ring_ok_def unat_mod)
  then have "unat (rm_write_seq m mod rm_capacity m) < length (rm_cells m)" using pos by simp
  then have old: "cell_ok (rm_cells m ! unat (rm_write_seq m mod rm_capacity m))"
    using ok by (simp add: ring_ok_def)
  show "ring_ok (ring_store c m)"
    using ok old filled_cell_view
    by (auto simp: ring_store_def ring_ok_def Let_def dest!: set_update_subset_insert [THEN subsetD])
  show "unat (rm_write_seq (ring_store c m)) = Suc (unat (rm_write_seq m))"
    using unat_Suc [OF total] by (simp add: ring_store_def Let_def)
  show "length (rm_cells (ring_store c m)) = length (rm_cells m)"
    by (simp add: ring_store_def Let_def)
  show "stamped_cell (ring_store c m) = stamped_cell m"
    by (simp add: ring_store_def stamped_cell_def fun_eq_iff Let_def)
  assume "k < length (rm_cells m)"
  moreover have "of_nat (Suc (unat (rm_write_seq m))) = rm_write_seq m + 1" by simp
  ultimately show "cell_view (rm_cells (ring_store c m) ! k) =
      (if k = unat (rm_write_seq m) mod length (rm_cells m)
       then stamped_cell m c (Suc (unat (rm_write_seq m))) else cell_view (rm_cells m ! k))"
    using idx filled_cell_view [OF old, of m c _ "Suc (unat (rm_write_seq m))"]
    by (simp add: ring_store_def Let_def nth_list_update add.commute)
qed

text \<open>The event the reader makes of a cell, and the history of a run.\<close>

definition cell_event :: "(byte list \<Rightarrow> string) \<Rightarrow> ring_cell \<Rightarrow> ring_event" where
  "cell_event utf8 v =
     \<lparr>re_seq = uint (hs_seq v), re_observed_ns = uint (hs_observed_ns v),
      re_start_ns = uint (hs_start_ns v), re_end_ns = uint (hs_end_ns v),
      re_correlation_id = uint (hs_correlation_id v), re_pid = uint (hs_pid v),
      re_tid = uint (hs_tid v), re_device = uint (hs_device_id v), re_stream = uint (hs_stream_id v),
      re_kind = (case dict_get LABELS (uint (hs_kind v)) of
                   Some l \<Rightarrow> l | None \<Rightarrow> ''unknown_'' @ str_int (uint (hs_kind v))),
      re_flags = uint (hs_flags v), re_code = uint (hs_code v), re_name = utf8 (hs_name v),
      re_detail = utf8 (hs_detail v)\<rparr>"

lemma decode_cell:
  "decode_event utf8 2 (uint (hs_seq e)) (cell_vals e) = cell_event utf8 (cell_view e)"
  by (simp add: decode_event_def cell_event_def cell_vals_def cell_view_def split: option.split)

lemma view_seq: "hs_seq (cell_view e) = hs_seq e" "hs_seq (stamped_cell m c s) = of_nat s"
  by (simp_all add: cell_view_def stamped_cell_def)

definition ring_history :: "(byte list \<Rightarrow> string) \<Rightarrow> ring_shm \<Rightarrow> ring_call list \<Rightarrow> ring_event list" where
  "ring_history utf8 m cs =
     map (\<lambda>i. cell_event utf8 (stamped_cell m (cs ! i) (Suc i))) [0..<length cs]"

definition fresh_hang_ring :: "ring_shm \<Rightarrow> bool" where
  "fresh_hang_ring m \<longleftrightarrow> ring_ok m \<and> rm_write_seq m = 0"

lemma ring_create_fresh:
  "ring_create cur path_given os pid w t capacity = (0, Some m) \<Longrightarrow> cur = None \<Longrightarrow>
    fresh_hang_ring m \<and> length (rm_cells m) = unat capacity"
  by (auto simp: ring_create_def fresh_hang_ring_def ring_ok_def cell_ok_def zero_cell_def
      split: if_splits option.splits)

lemma ring_slot_image:
  assumes "fresh_hang_ring m" and short: "length cs < 2 ^ 64"
    and i: "i < length cs" "length cs \<le> i + length (rm_cells m)"
  defines "r \<equiv> fold ring_store cs m"
  shows "ring_slot utf8 2 192 (int (length (rm_cells m))) (\<lambda>_ _. ring_image r) (int (Suc i)) =
    Inr (Some (ring_history utf8 m cs ! i))"
proof -
  have ok: "ring_ok m" "unat (rm_write_seq m) = 0" "length cs \<le> 2 ^ 64 - 1"
    using assms(1) short by (simp_all add: fresh_hang_ring_def)
  note fr = hang_ring.fold_frame [OF ok, folded r_def]
  let ?k = "i mod length (rm_cells m)"
  have pos: "0 < length (rm_cells m)" using hang_ring.slots_pos [OF ok(1)] .
  have k: "?k < length (rm_cells r)" using fr pos by simp
  have view: "cell_view (rm_cells r ! ?k) = stamped_cell m (cs ! i) (Suc i)"
    using hang_ring.slot_window [OF ok, of "Suc i"] i by (simp add: r_def del: of_nat_Suc)
  then have "hs_seq (rm_cells r ! ?k) = of_nat (Suc i)" using view_seq by metis
  then have sq: "uint (hs_seq (rm_cells r ! ?k)) = int (Suc i)"
    using i short by (simp add: unsigned_of_nat take_bit_nat_eq_self del: of_nat_Suc)
  have off: "128 + nat ((int (Suc i) - 1) mod int (length (rm_cells m))) * nat 192 = 128 + ?k * 192"
    by (simp add: zmod_int [symmetric] nat_int)
  have "decode_event utf8 2 (int (Suc i)) (cell_vals (rm_cells r ! ?k)) = ring_history utf8 m cs ! i"
    using decode_cell [of utf8 "rm_cells r ! ?k"] i by (simp add: sq view ring_history_def del: of_nat_Suc)
  then show ?thesis
    unfolding ring_slot_def Let_def off
    using unpack_cell [OF _ k] fr sq by (simp add: ring_event_format_def cell_vals_def del: of_nat_Suc)
qed

definition ring_header_view :: "ring_shm \<Rightarrow> ring_header" where
  "ring_header_view m =
     \<lparr>rh_pid = uint (rm_pid m), rh_capacity = uint (rm_capacity m), rh_written = uint (rm_write_seq m),
      rh_wall_ns = uint (rm_wall_ns m), rh_mono_ns = uint (rm_mono_ns m),
      rh_dropped = uint (rm_dropped m),
      rh_overwritten = max 0 (uint (rm_write_seq m) - uint (rm_capacity m))\<rparr>"

lemma upto_as_map:
  assumes "0 < c"
  shows "[max 1 (int n - int c + 1)..int n] = map (\<lambda>i. int (Suc i)) [n - c..<n]"
proof (rule sorted_distinct_set_unique)
  show "sorted (map (\<lambda>i. int (Suc i)) [n - c..<n])" "distinct (map (\<lambda>i. int (Suc i)) [n - c..<n])"
    by (simp_all add: sorted_map sorted_wrt_mono_rel [OF _ sorted_upt] distinct_map inj_on_def)
  have "x \<in> (\<lambda>i. int (Suc i)) ` {n - c..<n}" if "max 1 (int n - int c + 1) \<le> x" "x \<le> int n" for x
    using that by (intro image_eqI [of _ _ "nat (x - 1)"]) auto
  then show "set [max 1 (int n - int c + 1)..int n] = set (map (\<lambda>i. int (Suc i)) [n - c..<n])"
    by auto
qed simp_all

lemma read_ring_run:
  assumes fresh: "fresh_hang_ring m" and short: "length cs < 2 ^ 64"
  defines "r \<equiv> fold ring_store cs m"
  shows "read_ring utf8 (Inr (\<lambda>_ _. ring_image r)) =
    Inr (ring_header_view r, take_last (length (rm_cells m)) (ring_history utf8 m cs))"
proof -
  let ?c = "length (rm_cells m)" and ?n = "length cs"
  have ok: "ring_ok m" "unat (rm_write_seq m) = 0" "?n \<le> 2 ^ 64 - 1"
    using fresh short by (simp_all add: fresh_hang_ring_def)
  note fr = hang_ring.fold_frame [OF ok, folded r_def]
  have rok: "ring_ok r" using fr by blast
  have pos: "0 < ?c" using hang_ring.slots_pos [OF ok(1)] .
  have "unat (rm_capacity r) = ?c" using fr by (simp add: ring_ok_def)
  then have cap: "uint (rm_capacity r) = int ?c" by (metis uint_nat)
  have n: "uint (rm_write_seq r) = int ?n" using fr by (metis uint_nat)
  have head: "unpack_from RING_HEADER (ring_image r) 0 = Inr (ring_header_vals r)"
    using unpack_from_pack [OF fits_ring_header, of "[]" r] by (simp add: ring_image_def)
  have loop: "collect (ring_slot utf8 2 192 (int ?c) (\<lambda>_ _. ring_image r))
      [max 1 (int ?n - int ?c + 1)..int ?n] = Inr (map (\<lambda>s. ring_history utf8 m cs ! nat (s - 1))
      [max 1 (int ?n - int ?c + 1)..int ?n])"
  proof (rule collect_map)
    fix s assume "s \<in> set [max 1 (int ?n - int ?c + 1)..int ?n]"
    then have s: "1 \<le> s" "int ?n - int ?c < s" "s \<le> int ?n" by auto
    then have "nat (s - 1) < ?n" "?n \<le> nat (s - 1) + ?c" "int (Suc (nat (s - 1))) = s" by simp_all
    with ring_slot_image [OF fresh short, of "nat (s - 1)" utf8]
    show "ring_slot utf8 2 192 (int ?c) (\<lambda>_ _. ring_image r) s = Inr (Some (ring_history utf8 m cs ! nat (s - 1)))"
      by (simp add: r_def del: of_nat_Suc)
  qed
  have "map (\<lambda>s. ring_history utf8 m cs ! nat (s - 1)) [max 1 (int ?n - int ?c + 1)..int ?n] =
      map ((!) (ring_history utf8 m cs)) [?n - ?c..<?n]"
    unfolding upto_as_map [OF pos] by simp
  also have "\<dots> = take_last ?c (ring_history utf8 m cs)"
  proof -
    have len: "length (ring_history utf8 m cs) = ?n" by (simp add: ring_history_def)
    show ?thesis
      by (rule nth_equalityI) (simp_all add: take_last_def len)
  qed
  finally have events: "collect (ring_slot utf8 2 192 (int ?c) (\<lambda>_ _. ring_image r))
      [max 1 (int ?n - int ?c + 1)..int ?n] = Inr (take_last ?c (ring_history utf8 m cs))"
    unfolding loop by simp
  have "ring_image r \<noteq> []" "length (rm_cells r) = ?c"
    using length_ring_image [of r] fr by (metis add_is_0 list.size(3) zero_neq_numeral, simp)
  then show ?thesis
    using head events rok cap n
    by (simp add: read_ring_def ring_header_vals_def ring_header_view_def RING_MAGIC_def ring_ok_def Let_def)
qed

end
