(* ===== verification/Ring_Properties.thy ===== *)
theory Ring_Properties
  imports Mspti_Writer
begin

text \<open>
  What the msPTI ring promises: which errors its reader can end with, the order and window of what
  it returns while the process is still writing, the round trip from the C++ writer, and what the
  two pairings of the text report mean.
\<close>

subsection \<open>The reader\<close>

text \<open>Whatever a concurrent writer does to the slots, the events returned are strictly ordered by
  sequence number, lie in the window of the newest \<open>capacity\<close> records the header announces, and are
  at most \<open>capacity\<close> many; \<open>overwritten\<close> counts what was announced before the window.\<close>

lemma ring_events_in_window:
  assumes "read_ring utf8 mapped = Inr (h, es)"
  shows "sorted_wrt (<) (map re_seq es) \<and>
    (\<forall>e \<in> set es. 1 \<le> re_seq e \<and> rh_overwritten h < re_seq e \<and> re_seq e \<le> rh_written h) \<and>
    length es \<le> nat (rh_capacity h) \<and> rh_overwritten h = max 0 (rh_written h - rh_capacity h)"
proof -
  from assms have ov: "rh_overwritten h = max 0 (rh_written h - rh_capacity h)"
    by (rule read_ring_InrE)
  have win: "max 1 (rh_written h - rh_capacity h + 1) \<le> re_seq e \<and> re_seq e \<le> rh_written h"
    if "e \<in> set es" for e using read_ring_strict(2) [OF assms that] .
  then have "set (map re_seq es) \<subseteq> {rh_written h - rh_capacity h + 1..rh_written h}" by force
  then have "card (set (map re_seq es)) \<le> card {rh_written h - rh_capacity h + 1..rh_written h}"
    by (intro card_mono) simp_all
  moreover have "distinct (map re_seq es)"
    using read_ring_strict(1) [OF assms] by (simp add: strict_sorted_iff)
  ultimately have "length es \<le> nat (rh_capacity h)"
    using distinct_card [of "map re_seq es"] by simp
  moreover have "\<forall>e \<in> set es. 1 \<le> re_seq e \<and> rh_overwritten h < re_seq e \<and> re_seq e \<le> rh_written h"
    using win ov by force
  ultimately show ?thesis using ov read_ring_strict(1) [OF assms] by blast
qed

subsection \<open>The round trip\<close>

lemma ring_record_all:
  "fold (\<lambda>c cur. ring_record cur True c) cs (Some m) = Some (fold ring_store cs m)"
  by (induction cs arbitrary: m) (simp_all add: ring_record_def)

text \<open>C12: What the C++ library writes is what the reader returns: after \<open>hang_mspti_start\<close> created the
  ring and fewer than \<open>2 ^ 64\<close> records were written, reading the file yields its header and exactly
  the newest \<open>capacity\<close> records, in order, with all their fields; names are cut at 63 bytes.\<close>

theorem ring_roundtrip:
  assumes "ring_create None path_given os pid w t capacity = (0, Some m)"
    and "length cs < 2 ^ 64"
    and "fold (\<lambda>c cur. ring_record cur True c) cs (Some m) = Some m'"
  shows "read_ring utf8 (Inr (\<lambda>s k. ring_image m')) =
    Inr (ring_header_view m', take_last (unat capacity)
      (map (\<lambda>i. cell_event utf8 (stamped_cell m (cs ! i) (Suc i))) [0..<length cs]))"
proof -
  have m': "m' = fold ring_store cs m" using assms(3) by (simp add: ring_record_all)
  have "fresh_hang_ring m \<and> length (rm_cells m) = unat capacity"
    by (rule ring_create_fresh [OF assms(1)]) simp
  with read_ring_run [of m cs utf8] assms(2) show ?thesis by (simp add: m' ring_history_def)
qed

definition sample_ring_call :: "16 word \<Rightarrow> 32 word \<Rightarrow> ring_call" where
  "sample_ring_call kind code =
     \<lparr>ra_kind = kind, ra_device = 0xFFFFFFFF, ra_stream = 0xFFFFFFFF, ra_corr = 7, ra_start = 0,
      ra_end = 0, ra_code = code, ra_name = Some [76, 0, 65], ra_detail = None, ra_now = 100,
      ra_tid = 11\<rparr>"

definition sample_ring :: ring_shm where
  "sample_ring = the (snd (ring_create None True None 42 100 200 64))"

definition sample_utf8 :: "byte list \<Rightarrow> string" where
  "sample_utf8 = map (\<lambda>b. char_of (unat b))"

definition sample_ring_event :: "int \<Rightarrow> string \<Rightarrow> int \<Rightarrow> ring_event" where
  "sample_ring_event seq kind code =
     \<lparr>re_seq = seq, re_observed_ns = 100, re_start_ns = 0, re_end_ns = 0, re_correlation_id = 7,
      re_pid = 42, re_tid = 11, re_device = 0xFFFFFFFF, re_stream = 0xFFFFFFFF, re_kind = kind,
      re_flags = 0, re_code = code, re_name = ''L'', re_detail = []\<rparr>"

definition sample_ring_events :: "ring_event list" where
  "sample_ring_events = [sample_ring_event 1 ''hccl_enter'' 5, sample_ring_event 2 ''runtime_enter'' 9,
     sample_ring_event 3 ''runtime_exit'' 9, sample_ring_event 4 ''kernel_done'' 0]"

definition sample_ring_calls :: "ring_call list" where
  "sample_ring_calls = [sample_ring_call 3 5, sample_ring_call 1 9, sample_ring_call 2 9, sample_ring_call 5 0]"

lemma sample_ring_created: "ring_create None True None 42 100 200 64 = (0, Some sample_ring)"
  by (simp add: sample_ring_def ring_create_def)

lemma sample_ring_history:
  "map (\<lambda>i. cell_event sample_utf8 (stamped_cell sample_ring (sample_ring_calls ! i) (Suc i)))
     [0..<length sample_ring_calls] = sample_ring_events"
  by code_simp

lemma sample_ring_read:
  "read_ring sample_utf8 (Inr (\<lambda>s k. ring_image (fold ring_store sample_ring_calls sample_ring))) =
    Inr (ring_header_view (fold ring_store sample_ring_calls sample_ring), sample_ring_events)"
proof -
  have "fresh_hang_ring sample_ring \<and> length (rm_cells sample_ring) = 64"
    using ring_create_fresh [OF sample_ring_created] by simp
  with read_ring_run [of sample_ring sample_ring_calls sample_utf8]
  show ?thesis
    using sample_ring_history by (simp add: ring_history_def sample_ring_calls_def sample_ring_events_def take_last_def)
qed

theorem ring_roundtrip_witness:
  "read_ring sample_utf8 (Inr (\<lambda>s k. ring_image (fold ring_store sample_ring_calls sample_ring))) =
    Inr (ring_header_view (fold ring_store sample_ring_calls sample_ring), sample_ring_events)"
proof -
  have "length sample_ring_calls < 2 ^ 64" by (simp add: sample_ring_calls_def)
  from ring_roundtrip [OF sample_ring_created this ring_record_all, of sample_utf8]
  show ?thesis using sample_ring_history by (simp add: sample_ring_events_def take_last_def)
qed

subsection \<open>The text report\<close>

text \<open>C13: The calls the report shows as entered without exit are exactly the entries that the later
  exits of their API family, thread and callback id do not reach: from the entry on, no prefix of
  the history holds more exits than entries of that key.\<close>

theorem open_calls_of_ring:
  assumes "read_ring utf8 mapped = Inr (h, es)"
  shows "e \<in> set (open_calls es) \<longleftrightarrow>
    (\<exists>pre post. es = pre @ e # post \<and> is_enter e \<and> never_below (call_key e) post)"
  using read_ring_strict(1) [OF assms] by (intro open_calls_iff) (simp add: strict_sorted_iff)

theorem open_calls_of_ring_witness:
  "sample_ring_event 1 ''hccl_enter'' 5 \<in> set (open_calls sample_ring_events) \<and>
   never_below (call_key (sample_ring_event 1 ''hccl_enter'' 5)) (tl sample_ring_events)"
proof -
  have "sample_ring_event 1 ''hccl_enter'' 5 \<in> set (open_calls sample_ring_events)" by code_simp
  with open_calls_of_ring [OF sample_ring_read, of "sample_ring_event 1 ''hccl_enter'' 5"]
  obtain pre post where "sample_ring_events = pre @ sample_ring_event 1 ''hccl_enter'' 5 # post"
    "never_below (call_key (sample_ring_event 1 ''hccl_enter'' 5)) post" by blast
  moreover from this(1) have "pre = []"
    by (cases pre; cases "tl pre") (auto simp: sample_ring_events_def sample_ring_event_def Cons_eq_append_conv)
  ultimately have "sample_ring_events = sample_ring_event 1 ''hccl_enter'' 5 # post" by simp
  then have "tl sample_ring_events = post" by (metis list.sel(3))
  with \<open>never_below _ post\<close> \<open>_ \<in> set (open_calls sample_ring_events)\<close> show ?thesis by simp
qed

end
