(* ===== verification/Watchdog.thy ===== *)
theory Watchdog
  imports Py_World Rank_Selection
begin

text \<open>
  \<open>flightrecorder/watchdog.py\<close>: the external process that looks at the headers of the flight files
  and takes a snapshot when a rank stops recording or exits. What a call of the operating system
  yields is an argument: \<open>proc_view\<close> for one \<open>alive\<close>, \<open>snap_env\<close> for one snapshot, \<open>tick_env\<close> for
  one round of the main loop. Every call site has its own place in these records, because processes
  and files change between two calls.
\<close>

subsection \<open>Is a process alive\<close>

record proc_view =
  pv_kill :: "os_error option"
  pv_exists :: "os_error + bool"
  pv_status :: "os_error + string"

fun alive_except :: "os_error \<Rightarrow> py_error + bool" where
  "alive_except (ProcessLookupError m) = Inr False"
| "alive_except (PermissionError m) = Inr True"
| "alive_except e = Inl (raised e)"

definition zombie_mark :: string where
  "zombie_mark = ''State:'' @ [CHR 0x09] @ ''Z''"

text \<open>\<open>os.kill\<close> takes a C \<open>int\<close>.\<close>

definition alive :: "int \<Rightarrow> proc_view \<Rightarrow> py_error + bool" where
  "alive pid v =
     (if pid > 2147483647 then Inl OverflowError
      else case pv_kill v of
        Some e \<Rightarrow> alive_except e
      | None \<Rightarrow>
          (case pv_exists v of
             Inl e \<Rightarrow> alive_except e
           | Inr False \<Rightarrow> Inr True
           | Inr True \<Rightarrow>
               (case pv_status v of
                  Inl e \<Rightarrow> alive_except e
                | Inr text \<Rightarrow> Inr (\<not> str_contains zombie_mark text))))"

subsection \<open>A snapshot\<close>

text \<open>
  \<open>se_out p\<close> is the error of creating or writing \<open>p\<close> below the partial directory; a failed copy
  may leave a part of the file behind; \<open>se_proc\<close> reads below \<open>/proc/<pid>\<close>.
\<close>

datatype copy_result = Copied "byte list" | Copy_Failed "byte list option" os_error

datatype npu_result = Completed int "byte list" "byte list" | Npu_OSError string | Npu_Timeout string

record snap_env =
  se_stamp :: string
  se_pid :: int
  se_mkdir :: "os_error option"
  se_fs :: file_reads
  se_copy :: "path \<Rightarrow> copy_result"
  se_out :: "string list \<Rightarrow> os_error option"
  se_proc :: "int \<Rightarrow> string list \<Rightarrow> os_error + byte list"
  se_tasks :: "int \<Rightarrow> os_error + string list"
  se_log :: "path \<Rightarrow> os_error + byte list"
  se_npu :: npu_result
  se_rename :: "os_error option"

record snap =
  sn_disk :: disk
  sn_ranks :: "(header \<times> string) list"
  sn_errors :: "string list"
  sn_npu_rc :: "int option"

definition write_file :: "snap_env \<Rightarrow> string list \<Rightarrow> content \<Rightarrow> disk \<Rightarrow> os_error option \<times> disk" where
  "write_file env p c d =
     (case se_out env p of Some e \<Rightarrow> (Some e, d) | None \<Rightarrow> (None, dict_set p c d))"

definition pid_dir :: "int \<Rightarrow> string" where
  "pid_dir pid = ''pid'' @ str_int pid"

text \<open>One file of \<open>/proc\<close>: on any \<open>OSError\<close> its text goes to \<open><name>.error\<close> instead.\<close>

definition proc_item ::
  "snap_env \<Rightarrow> int \<Rightarrow> (byte list \<Rightarrow> byte list) \<Rightarrow> string list \<times> string \<Rightarrow> disk \<Rightarrow> os_error option \<times> disk" where
  "proc_item env pid trim = (\<lambda>(src, name) d.
     let failed = (\<lambda>e d. write_file env [pid_dir pid, name @ ''.error''] (Text (os_text e)) d)
     in case se_proc env pid src of
          Inl e \<Rightarrow> failed e d
        | Inr data \<Rightarrow>
            (case write_file env [pid_dir pid, name] (Bytes (trim data)) d of
               (Some e, d') \<Rightarrow> failed e d'
             | (None, d') \<Rightarrow> (None, d')))"

definition collect_proc :: "snap_env \<Rightarrow> int \<Rightarrow> disk \<Rightarrow> os_error option \<times> disk" where
  "collect_proc env pid d =
     (case se_out env [pid_dir pid] of
        Some e \<Rightarrow> (Some e, d)
      | None \<Rightarrow>
          (let tids = (case se_tasks env pid of Inl e \<Rightarrow> [] | Inr ts \<Rightarrow> ts)
           in run_ops
                (map (\<lambda>n. proc_item env pid (\<lambda>b. map (\<lambda>x. if x = 0 then 32 else x) (take 4000000 b)) ([n], n))
                   [''status'', ''cmdline'', ''limits'', ''maps'', ''wchan''] @
                 concat (map (\<lambda>t. map (\<lambda>n. proc_item env pid (take 100000)
                     ([''task'', t, n], ''tid'' @ t @ ''.'' @ n))
                   [''stack'', ''wchan'', ''status'']) tids)) d))"

definition add_error :: "string \<Rightarrow> string \<Rightarrow> snap \<Rightarrow> snap" where
  "add_error what e s = s\<lparr>sn_errors := sn_errors s @ [what @ '': '' @ e]\<rparr>"

definition snapshot_file :: "snap_env \<Rightarrow> path \<Rightarrow> snap \<Rightarrow> py_error option \<times> snap" where
  "snapshot_file env p s =
     (case read_header (se_fs env) p of
        Inl e \<Rightarrow> if caught e then (None, add_error (path_str p) (py_str_error e) s) else (Some e, s)
      | Inr h \<Rightarrow>
          (case se_copy env p of
             Copy_Failed part e \<Rightarrow>
               (None, add_error (path_str p) (os_text e)
                 (case part of None \<Rightarrow> s
                  | Some b \<Rightarrow> s\<lparr>sn_disk := dict_set [path_name p] (Bytes b) (sn_disk s)\<rparr>))
           | Copied b \<Rightarrow>
               (case collect_proc env (hd_pid h) (dict_set [path_name p] (Bytes b) (sn_disk s)) of
                  (r, d) \<Rightarrow>
                    (let s' = s\<lparr>sn_disk := d, sn_ranks := sn_ranks s @ [(h, path_name p)]\<rparr>
                     in (None, case r of None \<Rightarrow> s' | Some e \<Rightarrow> add_error (path_str p) (os_text e) s')))))"

definition snapshot_log :: "snap_env \<Rightarrow> path \<Rightarrow> snap \<Rightarrow> snap" where
  "snapshot_log env p s =
     (case se_log env p of
        Inl e \<Rightarrow> add_error (path_str p) (os_text e) s
      | Inr data \<Rightarrow>
          (case write_file env [path_name p @ ''.tail''] (Bytes (take_last 1000000 data)) (sn_disk s) of
             (Some e, d) \<Rightarrow> add_error (path_str p) (os_text e) s
           | (None, d) \<Rightarrow> s\<lparr>sn_disk := d\<rparr>))"

definition stderr_mark :: "byte list" where
  "stderr_mark = map (\<lambda>c. word_of_nat (of_char c)) ([CHR 0x0A] @ ''STDERR'' @ [CHR 0x0A])"

definition snapshot_npu :: "snap_env \<Rightarrow> snap \<Rightarrow> snap" where
  "snapshot_npu env s =
     (case se_npu env of
        Npu_OSError m \<Rightarrow> add_error ''npu-smi'' m s
      | Npu_Timeout m \<Rightarrow> add_error ''npu-smi'' m s
      | Completed rc out err \<Rightarrow>
          (case write_file env [''npu-smi.txt''] (Bytes (out @ stderr_mark @ err)) (sn_disk s) of
             (Some e, d) \<Rightarrow> add_error ''npu-smi'' (os_text e) s
           | (None, d) \<Rightarrow> s\<lparr>sn_disk := d, sn_npu_rc := Some rc\<rparr>))"

definition rank_json :: "header \<times> string \<Rightarrow> json" where
  "rank_json = (\<lambda>(h, name). JObj
     [(''path'', JStr (path_str (hd_path h))), (''capacity'', JInt (hd_capacity h)),
      (''pid'', JInt (hd_pid h)), (''rank'', JInt (hd_rank h)), (''device'', JInt (hd_device h)),
      (''write_seq'', JInt (hd_write_seq h)), (''last_ns'', JInt (hd_last_ns h)),
      (''started_wall_ns'', JInt (hd_started_wall_ns h)),
      (''started_mono_ns'', JInt (hd_started_mono_ns h)), (''snapshot_file'', JStr name)])"

definition metadata_json :: "string \<Rightarrow> string \<Rightarrow> snap \<Rightarrow> json" where
  "metadata_json reason stamp s = JObj
     ([(''reason'', JStr reason), (''captured_utc'', JStr stamp),
       (''ranks'', JList (map rank_json (sn_ranks s))), (''errors'', JList (map JStr (sn_errors s)))] @
      (case sn_npu_rc s of None \<Rightarrow> [] | Some rc \<Rightarrow> [(''npu_smi_returncode'', JInt rc)]))"

record capture =
  cp_dest :: path
  cp_disk :: disk
  cp_ranks :: "(header \<times> string) list"
  cp_errors :: "string list"

definition snapshot ::
  "snap_env \<Rightarrow> path list \<Rightarrow> path \<Rightarrow> string \<Rightarrow> path list \<Rightarrow> bool \<Rightarrow> py_error + capture" where
  "snapshot env files output reason logs npu_smi =
     (case se_mkdir env of
        Some e \<Rightarrow> Inl (raised e)
      | None \<Rightarrow>
          (case run_ops (map (snapshot_file env) files)
                  \<lparr>sn_disk = [], sn_ranks = [], sn_errors = [], sn_npu_rc = None\<rparr> of
             (Some e, _) \<Rightarrow> Inl e
           | (None, s) \<Rightarrow>
               (let s = fold (snapshot_log env) logs s;
                    s = (if npu_smi then snapshot_npu env s else s)
                in case write_file env [''metadata.json''] (Json (metadata_json reason (se_stamp env) s)) (sn_disk s) of
                     (Some e, d) \<Rightarrow> Inl (raised e)
                   | (None, d) \<Rightarrow>
                       (case se_rename env of
                          Some e \<Rightarrow> Inl (raised e)
                        | None \<Rightarrow> Inr \<lparr>cp_dest = path_child output (se_stamp env @ ''-'' @ reason),
                            cp_disk = d, cp_ranks = sn_ranks s, cp_errors = sn_errors s\<rparr>))))"

subsection \<open>The main loop\<close>

record watch_args =
  wa_directory :: path
  wa_output :: path
  wa_timeout :: rat
  wa_interval :: rat
  wa_pids :: "int list"
  wa_logs :: "path list"
  wa_npu_smi :: bool

datatype trigger = Stall int int | Exit int

fun trigger_reason :: "trigger \<Rightarrow> string" where
  "trigger_reason (Stall pid seq) = ''stalled-pid'' @ str_int pid"
| "trigger_reason (Exit pid) = ''exit-pid'' @ str_int pid"

record watch =
  w_stalls :: "(int \<times> int) set"
  w_exits :: "int set"
  w_log :: "(trigger \<times> capture) list"
  w_notes :: "string list"

text \<open>
  \<open>te_alive k pid\<close> is the view of the \<open>k\<close>-th call site of \<open>alive\<close> in the round: \<open>2 i\<close> and
  \<open>2 i + 1\<close> are the two tests for header \<open>i\<close>, the tests of \<open>--pid\<close> follow.
\<close>

record tick_env =
  te_entries :: "string list"
  te_fs :: file_reads
  te_now :: int
  te_alive :: "nat \<Rightarrow> int \<Rightarrow> proc_view"
  te_snap :: "nat \<Rightarrow> snap_env"

definition flight_files :: "watch_args \<Rightarrow> tick_env \<Rightarrow> path list" where
  "flight_files args env = sort (map (path_child (wa_directory args))
     (filter (\<lambda>n. str_endswith n ''.flight'') (te_entries env)))"

definition flight_headers :: "watch_args \<Rightarrow> tick_env \<Rightarrow> py_error + header list" where
  "flight_headers args env = collect
     (\<lambda>p. case read_header (te_fs env) p of
            Inl e \<Rightarrow> if caught e then Inr None else Inl e
          | Inr h \<Rightarrow> Inr (Some h)) (flight_files args env)"

definition overdue :: "watch_args \<Rightarrow> tick_env \<Rightarrow> header \<Rightarrow> bool" where
  "overdue args env h \<longleftrightarrow> wa_timeout args \<le> float_div (te_now env - hd_last_ns h) 1000000000"

definition take_snapshot ::
  "watch_args \<Rightarrow> tick_env \<Rightarrow> nat \<Rightarrow> trigger \<Rightarrow> watch \<Rightarrow> py_error option \<times> watch" where
  "take_snapshot args env i t w =
     (case snapshot (te_snap env i) (flight_files args env) (wa_output args) (trigger_reason t)
             (wa_logs args) (wa_npu_smi args) of
        Inl e \<Rightarrow> (Some e, w)
      | Inr c \<Rightarrow> (None, w\<lparr>w_log := w_log w @ [(t, c)]\<rparr>))"

fun watch_header :: "watch_args \<Rightarrow> tick_env \<Rightarrow> nat \<times> header \<Rightarrow> watch \<Rightarrow> py_error option \<times> watch" where
  "watch_header args env (i, h) w =
     (let pid = hd_pid h; key = (pid, hd_write_seq h)
      in case alive pid (te_alive env (2 * i) pid) of
           Inl e \<Rightarrow> (Some e, w)
         | Inr up \<Rightarrow>
             if up \<and> overdue args env h
             then if key \<notin> w_stalls w
                  then take_snapshot args env i (Stall pid (hd_write_seq h))
                         (w\<lparr>w_stalls := insert key (w_stalls w)\<rparr>)
                  else (None, w)
             else case alive pid (te_alive env (2 * i + 1) pid) of
               Inl e \<Rightarrow> (Some e, w)
             | Inr up' \<Rightarrow>
                 if \<not> up' \<and> pid \<notin> w_exits w
                 then take_snapshot args env i (Exit pid) (w\<lparr>w_exits := insert pid (w_exits w)\<rparr>)
                 else (None, w))"

text \<open>\<open>all(not alive(pid) for pid in args.pid)\<close> stops at the first living process.\<close>

fun all_dead :: "(nat \<Rightarrow> int \<Rightarrow> proc_view) \<Rightarrow> nat \<Rightarrow> int list \<Rightarrow> py_error + bool" where
  "all_dead view k [] = Inr True"
| "all_dead view k (pid # pids) =
     (case alive pid (view k pid) of
        Inl e \<Rightarrow> Inl e
      | Inr up \<Rightarrow> if up then Inr False else all_dead view (Suc k) pids)"

datatype watch_status = Watching | Ended | Crashed py_error

definition tick :: "watch_args \<Rightarrow> tick_env \<Rightarrow> watch \<Rightarrow> watch_status \<times> watch" where
  "tick args env w =
     (case flight_headers args env of
        Inl e \<Rightarrow> (Crashed e, w)
      | Inr headers \<Rightarrow>
          (case run_ops (map (watch_header args env) (enumerate 0 headers)) w of
             (Some e, w') \<Rightarrow> (Crashed e, w')
           | (None, w') \<Rightarrow>
               if wa_pids args = [] then (Watching, w')
               else case all_dead (te_alive env) (2 * length headers) (wa_pids args) of
                 Inl e \<Rightarrow> (Crashed e, w')
               | Inr False \<Rightarrow> (Watching, w')
               | Inr True \<Rightarrow> (Ended, if headers = []
                   then w'\<lparr>w_notes := w_notes w' @ [''monitored PIDs exited before recorder files appeared'']\<rparr>
                   else w')))"

definition watch_init :: watch where
  "watch_init = \<lparr>w_stalls = {}, w_exits = {}, w_log = [], w_notes = [''watchdog ready'']\<rparr>"

text \<open>The loop over the rounds that happen; \<open>Watching\<close> at the end means it goes on.\<close>

fun watch_loop :: "watch_args \<Rightarrow> tick_env list \<Rightarrow> watch \<Rightarrow> watch_status \<times> watch" where
  "watch_loop args [] w = (Watching, w)"
| "watch_loop args (env # envs) w =
     (case tick args env w of
        (Watching, w') \<Rightarrow> watch_loop args envs w'
      | (st, w') \<Rightarrow> (st, w'))"

definition watch_main :: "watch_args \<Rightarrow> tick_env list \<Rightarrow> string + watch_status \<times> watch" where
  "watch_main args envs =
     (if wa_timeout args \<le> 0 \<or> wa_interval args \<le> 0
      then Inl ''timeout and interval must be positive''
      else Inr (watch_loop args envs watch_init))"

text \<open>
  The same loop as a transition relation, with \<open>KeyboardInterrupt\<close> between any two statements of a
  round: \<open>watch_reach args st w\<close> when the watchdog can get there.
\<close>

inductive watch_reach :: "watch_args \<Rightarrow> watch_status \<Rightarrow> watch \<Rightarrow> bool" for args where
  ready: "watch_reach args Watching watch_init"
| round: "watch_reach args Watching w \<Longrightarrow> tick args env w = (st, w') \<Longrightarrow> watch_reach args st w'"
| interrupt: "watch_reach args Watching w \<Longrightarrow> flight_headers args env = Inr hs \<Longrightarrow>
    run_ops (map (watch_header args env) (take k (enumerate 0 hs))) w = (None, w') \<Longrightarrow>
    watch_reach args Ended w'"

inductive_cases watch_crashedE: "watch_reach args (Crashed e) w"

subsection \<open>What is captured\<close>

abbreviation triggers :: "watch \<Rightarrow> trigger list" where
  "triggers w \<equiv> map fst (w_log w)"

text \<open>The sets of the loop are the triggers that were printed.\<close>

definition watch_seen :: "watch \<Rightarrow> bool" where
  "watch_seen w \<longleftrightarrow> (\<forall>pid seq. (pid, seq) \<in> w_stalls w \<longleftrightarrow> Stall pid seq \<in> set (triggers w)) \<and>
     (\<forall>pid. pid \<in> w_exits w \<longleftrightarrow> Exit pid \<in> set (triggers w))"

text \<open>What a header demands, whatever was captured before.\<close>

fun demand :: "watch_args \<Rightarrow> tick_env \<Rightarrow> nat \<times> header \<Rightarrow> trigger option" where
  "demand args env (i, h) =
     (let pid = hd_pid h
      in if alive pid (te_alive env (2 * i) pid) = Inr True \<and> overdue args env h
         then Some (Stall pid (hd_write_seq h))
         else if alive pid (te_alive env (2 * i + 1) pid) = Inr False then Some (Exit pid) else None)"

lemma take_snapshot_done:
  "take_snapshot args env i t w = (None, w') \<Longrightarrow>
    triggers w' = triggers w @ [t] \<and> w_stalls w' = w_stalls w \<and> w_exits w' = w_exits w"
  by (auto simp: take_snapshot_def split: sum.splits)

lemma take_snapshot_failed: "take_snapshot args env i t w = (Some e, w') \<Longrightarrow> w' = w"
  by (auto simp: take_snapshot_def split: sum.splits)

lemma watch_header_cases:
  assumes "watch_header args env (i, h) w = (r, w')"
  defines "pid \<equiv> hd_pid h" and "seq \<equiv> hd_write_seq h"
  shows "r \<noteq> None \<and> w' = w \<or>
    demand args env (i, h) = None \<and> w' = w \<or>
    demand args env (i, h) = Some (Stall pid seq) \<and> (pid, seq) \<in> w_stalls w \<and> w' = w \<or>
    demand args env (i, h) = Some (Stall pid seq) \<and> (pid, seq) \<notin> w_stalls w \<and>
      take_snapshot args env i (Stall pid seq) (w\<lparr>w_stalls := insert (pid, seq) (w_stalls w)\<rparr>) = (r, w') \<or>
    demand args env (i, h) = Some (Exit pid) \<and> pid \<in> w_exits w \<and> w' = w \<or>
    demand args env (i, h) = Some (Exit pid) \<and> pid \<notin> w_exits w \<and>
      take_snapshot args env i (Exit pid) (w\<lparr>w_exits := insert pid (w_exits w)\<rparr>) = (r, w')"
proof (cases "alive pid (te_alive env (2 * i) pid)")
  case (Inl e)
  with assms show ?thesis by auto
next
  case (Inr up)
  show ?thesis
  proof (cases "up \<and> overdue args env h")
    case True
    with assms Inr show ?thesis by (simp add: Let_def split: if_splits)
  next
    case False
    then show ?thesis
    proof (cases "alive pid (te_alive env (2 * i + 1) pid)")
      case (Inl e)
      with assms Inr False show ?thesis by (auto simp: Let_def)
    next
      case (Inr up')
      with assms False \<open>alive pid (te_alive env (2 * i) pid) = Inr up\<close> show ?thesis
        by (cases up'; cases "pid \<in> w_exits w") (simp_all add: Let_def, (blast+)?)
    qed
  qed
qed

lemma seen_stall:
  assumes "watch_seen w"
    and "take_snapshot args env i (Stall pid seq) (w\<lparr>w_stalls := insert (pid, seq) (w_stalls w)\<rparr>) = (None, w')"
  shows "watch_seen w'"
  using take_snapshot_done [OF assms(2)] assms(1) by (simp add: watch_seen_def)

lemma seen_exit:
  assumes "watch_seen w"
    and "take_snapshot args env i (Exit pid) (w\<lparr>w_exits := insert pid (w_exits w)\<rparr>) = (None, w')"
  shows "watch_seen w'"
  using take_snapshot_done [OF assms(2)] assms(1) by (simp add: watch_seen_def)

lemma watch_header_done:
  assumes "watch_seen w" and "watch_header args env (i, h) w = (None, w')"
  shows "watch_seen w' \<and> triggers w' = (case demand args env (i, h) of None \<Rightarrow> triggers w
    | Some t \<Rightarrow> if t \<in> set (triggers w) then triggers w else triggers w @ [t])"
proof -
  have stall: "(hd_pid h, hd_write_seq h) \<in> w_stalls w \<longleftrightarrow> Stall (hd_pid h) (hd_write_seq h) \<in> set (triggers w)"
    and exit: "hd_pid h \<in> w_exits w \<longleftrightarrow> Exit (hd_pid h) \<in> set (triggers w)"
    using assms(1) unfolding watch_seen_def by blast+
  from watch_header_cases [OF assms(2)] show ?thesis
  proof (elim disjE conjE, goal_cases)
    case 4
    with stall seen_stall [OF assms(1) 4(3)] take_snapshot_done [OF 4(3)] show ?case by simp
  next
    case 6
    with exit seen_exit [OF assms(1) 6(3)] take_snapshot_done [OF 6(3)] show ?case by simp
  qed (use assms(1) stall exit in simp_all)
qed

lemma watch_header_failed:
  "watch_header args env (i, h) w = (Some e, w') \<Longrightarrow> triggers w' = triggers w"
  by (drule watch_header_cases) (auto simp del: demand.simps dest: take_snapshot_failed)

interpretation wd: once_log "watch_header args env" triggers "demand args env" watch_seen for args env
proof
  fix w w' :: watch and e :: "nat \<times> header"
  assume "watch_seen w" "watch_header args env e w = (None, w')"
  then show "watch_seen w' \<and> triggers w' = (case demand args env e of None \<Rightarrow> triggers w
      | Some t \<Rightarrow> if t \<in> set (triggers w) then triggers w else triggers w @ [t])"
    by (cases e) (simp only: watch_header_done)
next
  fix w w' :: watch and e :: "nat \<times> header" and x
  assume "watch_header args env e w = (Some x, w')"
  then show "triggers w' = triggers w" by (cases e) (simp only: watch_header_failed)
qed

lemma watch_init_seen: "watch_seen watch_init" "triggers watch_init = []"
  by (simp_all add: watch_seen_def watch_init_def)

text \<open>A round that does not crash ran all its headers.\<close>

lemma tick_steps:
  assumes "tick args env w = (st, w')" and "\<forall>e. st \<noteq> Crashed e"
  obtains hs w1 where "flight_headers args env = Inr hs"
    and "run_ops (map (watch_header args env) (enumerate 0 hs)) w = (None, w1)"
    and "w_log w' = w_log w1" and "w_stalls w' = w_stalls w1" and "w_exits w' = w_exits w1"
  using assms by (fastforce simp: tick_def split: sum.splits prod.splits option.splits if_splits bool.splits)

lemma tick_log:
  assumes "tick args env w = (st, w')"
  obtains hs where "w_log w' = w_log (snd (run_ops (map (watch_header args env) (enumerate 0 hs)) w))"
proof (cases "flight_headers args env")
  case (Inl e)
  with assms that [of "[]"] show thesis by (simp add: tick_def)
next
  case (Inr hs)
  with assms have "w_log w' = w_log (snd (run_ops (map (watch_header args env) (enumerate 0 hs)) w))"
    by (auto simp: tick_def split: sum.splits prod.splits option.splits if_splits bool.splits)
  then show thesis by (rule that)
qed

lemma tick_done:
  assumes "tick args env w = (st, w')" and "\<forall>e. st \<noteq> Crashed e" and "watch_seen w"
  shows "watch_seen w' \<and> (\<exists>hs. flight_headers args env = Inr hs \<and>
    set (triggers w') = set (triggers w) \<union> {t. \<exists>x \<in> set (enumerate 0 hs). demand args env x = Some t})"
proof -
  from assms(1,2) obtain hs w1 where hs: "flight_headers args env = Inr hs"
    and run: "run_ops (map (watch_header args env) (enumerate 0 hs)) w = (None, w1)"
    and same: "w_log w' = w_log w1" "w_stalls w' = w_stalls w1" "w_exits w' = w_exits w1"
    by (rule tick_steps)
  from wd.run_done [OF assms(3) run] hs same show ?thesis by (simp add: watch_seen_def)
qed

lemma tick_distinct:
  assumes "tick args env w = (st, w')" and "watch_seen w" and "distinct (triggers w)"
  shows "distinct (triggers w')"
  using assms(1) by (rule tick_log) (use wd.run_distinct [OF assms(2,3)] in simp)

lemma watch_reach_invariant:
  "watch_reach args st w \<Longrightarrow> distinct (triggers w) \<and> ((\<forall>e. st \<noteq> Crashed e) \<longrightarrow> watch_seen w)"
proof (induction rule: watch_reach.induct)
  case ready
  then show ?case by (simp add: watch_init_seen)
next
  case (round w env st w')
  then have "watch_seen w" "distinct (triggers w)" by auto
  with round.hyps(2) show ?case using tick_distinct [OF round.hyps(2)] tick_done [OF round.hyps(2)] by blast
next
  case (interrupt w env hs k w')
  then have w: "watch_seen w" "distinct (triggers w)" by auto
  from interrupt.hyps(3) wd.run_distinct [OF w] wd.run_done [OF w(1)] show ?case by (metis snd_conv)
qed

lemma watch_loop_reach:
  "watch_reach args Watching w \<Longrightarrow> watch_loop args envs w = (st, w') \<Longrightarrow> watch_reach args st w'"
proof (induction envs arbitrary: w)
  case (Cons env envs)
  obtain st1 w1 where t: "tick args env w = (st1, w1)" by force
  from watch_reach.round [OF Cons.prems(1) t] Cons t show ?case by (cases st1) auto
qed simp

lemma watch_loop_Watching:
  assumes "watch_loop args envs w = (Watching, w')" and "watch_seen w"
  shows "watch_seen w' \<and> set (triggers w') = set (triggers w) \<union>
    {t. \<exists>env \<in> set envs. \<exists>hs. flight_headers args env = Inr hs \<and>
      (\<exists>x \<in> set (enumerate 0 hs). demand args env x = Some t)}"
  using assms
proof (induction envs arbitrary: w)
  case (Cons env envs)
  from Cons.prems(1) obtain w1 where t: "tick args env w = (Watching, w1)"
    and l: "watch_loop args envs w1 = (Watching, w')"
    by (auto split: prod.splits watch_status.splits)
  from tick_done [OF t _ Cons.prems(2)] obtain hs where w1: "watch_seen w1"
    and hs: "flight_headers args env = Inr hs"
    and tr: "set (triggers w1) = set (triggers w) \<union> {t. \<exists>x \<in> set (enumerate 0 hs). demand args env x = Some t}"
    by auto
  from Cons.IH [OF l w1] hs tr show ?case by auto
qed simp

subsection \<open>What a snapshot holds\<close>

lemma write_file_get:
  "dict_get (snd (write_file env q c d)) p = dict_get d p \<or> q = p"
  by (simp add: write_file_def py_dict split: option.split)

lemma proc_item_get: "dict_get (snd (proc_item env pid trim x d)) [n] = dict_get d [n]"
  by (cases x) (auto simp: proc_item_def write_file_def py_dict split: sum.split option.split)

lemma collect_proc_get:
  assumes "collect_proc env pid d = (r, d')"
  shows "dict_get d' [n] = dict_get d [n]"
proof -
  have run: "dict_get (snd (run_ops fs d)) [n] = dict_get d [n]"
    if "\<forall>f \<in> set fs. \<exists>trim x. f = proc_item env pid trim x" for fs
    by (rule run_ops_invariant [where P = "\<lambda>d'. dict_get d' [n] = dict_get d [n]"])
      (use that in \<open>auto simp: proc_item_get\<close>)
  show ?thesis
  proof (cases "se_out env [pid_dir pid]")
    case None
    let ?fs = "map (\<lambda>n. proc_item env pid (\<lambda>b. map (\<lambda>x. if x = 0 then 32 else x) (take 4000000 b)) ([n], n))
         [''status'', ''cmdline'', ''limits'', ''maps'', ''wchan''] @
       concat (map (\<lambda>t. map (\<lambda>n. proc_item env pid (take 100000) ([''task'', t, n], ''tid'' @ t @ ''.'' @ n))
         [''stack'', ''wchan'', ''status'']) (case se_tasks env pid of Inl e \<Rightarrow> [] | Inr ts \<Rightarrow> ts))"
    have "collect_proc env pid d = run_ops ?fs d"
      by (simp only: collect_proc_def Let_def None option.case)
    then have d': "snd (run_ops ?fs d) = d'" by (metis assms snd_conv)
    have "\<forall>f \<in> set ?fs. \<exists>trim x. f = proc_item env pid trim x" by auto
    from run [OF this] show ?thesis unfolding d' .
  next
    case (Some e)
    with assms show ?thesis by (simp add: collect_proc_def)
  qed
qed

text \<open>A file is accounted for: copied and listed, or an error line names it.\<close>

definition accounted :: "snap_env \<Rightarrow> path \<Rightarrow> snap \<Rightarrow> bool" where
  "accounted env p s \<longleftrightarrow>
     (\<exists>h b. read_header (se_fs env) p = Inr h \<and> se_copy env p = Copied b \<and>
        (h, path_name p) \<in> set (sn_ranks s) \<and> dict_get (sn_disk s) [path_name p] = Some (Bytes b)) \<or>
     (\<exists>m. path_str p @ '': '' @ m \<in> set (sn_errors s))"

text \<open>No step takes an entry of the lists away, and each writes few names.\<close>

definition grows :: "string list set \<Rightarrow> snap \<Rightarrow> snap \<Rightarrow> bool" where
  "grows names s s' \<longleftrightarrow> set (sn_ranks s) \<subseteq> set (sn_ranks s') \<and> set (sn_errors s) \<subseteq> set (sn_errors s') \<and>
     (\<forall>n. [n] \<notin> names \<longrightarrow> dict_get (sn_disk s') [n] = dict_get (sn_disk s) [n])"

lemma growsI:
  "set (sn_ranks s) \<subseteq> set (sn_ranks s') \<Longrightarrow> set (sn_errors s) \<subseteq> set (sn_errors s') \<Longrightarrow>
    (\<And>n. [n] \<notin> names \<Longrightarrow> dict_get (sn_disk s') [n] = dict_get (sn_disk s) [n]) \<Longrightarrow> grows names s s'"
  by (simp add: grows_def)

lemma accounted_grows:
  "accounted env p s \<Longrightarrow> grows names s s' \<Longrightarrow> [path_name p] \<notin> names \<Longrightarrow> accounted env p s'"
  unfolding accounted_def grows_def by (metis subsetD)

lemma grows_trans: "grows names s s' \<Longrightarrow> grows names s' s'' \<Longrightarrow> grows names s s''"
  unfolding grows_def by (metis (no_types, lifting) subset_trans)

lemma grows_fold:
  assumes "\<And>x s. x \<in> set xs \<Longrightarrow> grows names s (f x s)"
  shows "grows names s (fold f xs s)"
  using assms
proof (induction xs arbitrary: s)
  case (Cons x xs)
  then have "grows names s (f x s)" "grows names (f x s) (fold f xs (f x s))" by simp_all
  from grows_trans [OF this] show ?case by simp
qed (simp add: grows_def)

lemma add_error_grows [simp]: "grows names s (add_error what e s)"
  by (auto intro: growsI simp: add_error_def)

definition file_effect :: "snap_env \<Rightarrow> path \<Rightarrow> snap \<Rightarrow> snap" where
  "file_effect env p s = snd (snapshot_file env p s)"

lemma snapshot_file_eq: "snapshot_file env p = (\<lambda>s. (None, file_effect env p s))"
proof
  fix s
  have "fst (snapshot_file env p s) = None"
    using read_header_cases [of "se_fs env" p]
    by (auto simp: snapshot_file_def Let_def split: copy_result.split prod.split)
  then show "snapshot_file env p s = (None, file_effect env p s)"
    by (simp add: file_effect_def prod_eq_iff)
qed

lemma file_effect_accounts: "accounted env p (file_effect env p s)"
proof -
  have err: "accounted env p (add_error (path_str p) m s)" for m s
    by (auto simp: accounted_def add_error_def)
  show ?thesis
  proof (cases "read_header (se_fs env) p")
    case (Inl e)
    with read_header_cases [of "se_fs env" p] err show ?thesis
      by (auto simp: file_effect_def snapshot_file_def)
  next
    case (Inr h)
    show ?thesis
    proof (cases "se_copy env p")
      case (Copied b)
      obtain r d where d: "collect_proc env (hd_pid h) (dict_set [path_name p] (Bytes b) (sn_disk s)) = (r, d)"
        by force
      from collect_proc_get [OF d] have "dict_get d [path_name p] = Some (Bytes b)" by (simp add: py_dict)
      with Inr Copied d err show ?thesis
        by (cases r) (auto simp: file_effect_def snapshot_file_def Let_def accounted_def)
    next
      case (Copy_Failed part e)
      with Inr err show ?thesis by (simp add: file_effect_def snapshot_file_def)
    qed
  qed
qed

lemma file_effect_grows: "grows {[path_name p]} s (file_effect env p s)"
proof (cases "read_header (se_fs env) p")
  case (Inl e)
  with read_header_cases [of "se_fs env" p] show ?thesis by (auto simp: file_effect_def snapshot_file_def)
next
  case (Inr h)
  show ?thesis
  proof (cases "se_copy env p")
    case (Copied b)
    obtain r d where d: "collect_proc env (hd_pid h) (dict_set [path_name p] (Bytes b) (sn_disk s)) = (r, d)"
      by force
    from collect_proc_get [OF d] have "\<forall>n. n \<noteq> path_name p \<longrightarrow> dict_get d [n] = dict_get (sn_disk s) [n]"
      by (simp add: py_dict)
    with Inr Copied d show ?thesis
      by (auto intro!: growsI simp: file_effect_def snapshot_file_def Let_def add_error_def split: option.split)
  next
    case (Copy_Failed part e)
    with Inr show ?thesis
      by (auto intro!: growsI simp: file_effect_def snapshot_file_def add_error_def py_dict
          split: option.split if_splits)
  qed
qed

lemma files_accounted:
  assumes "distinct (map path_name files)" and "p \<in> set files"
  shows "accounted env p (fold (file_effect env) files s)"
  using assms
proof (induction files arbitrary: s)
  case (Cons q files)
  show ?case
  proof (cases "p = q")
    case True
    have "grows (set (map (\<lambda>p. [path_name p]) files)) (file_effect env q s)
        (fold (file_effect env) files (file_effect env q s))"
    proof (rule grows_fold)
      fix x s assume "x \<in> set files"
      with file_effect_grows [of x s env]
      show "grows (set (map (\<lambda>p. [path_name p]) files)) s (file_effect env x s)"
        by (auto simp: grows_def)
    qed
    with True Cons.prems accounted_grows [OF file_effect_accounts [of env q s]] show ?thesis by auto
  next
    case False
    with Cons show ?thesis by simp
  qed
qed simp

definition is_flight :: "string \<Rightarrow> bool" where
  "is_flight n \<longleftrightarrow> str_endswith n ''.flight''"

lemma not_flight: "\<not> is_flight (n @ ''.tail'')" "\<not> is_flight ''npu-smi.txt''" "\<not> is_flight ''metadata.json''"
proof -
  have last: "last n = CHR ''t''" if "is_flight n" for n
  proof -
    define k where "k = length n - length ''.flight''"
    from that have "drop k n = ''.flight''" by (simp add: is_flight_def str_endswith_def k_def)
    then have "last (drop k n) = CHR ''t''" "drop k n \<noteq> []" by simp_all
    then show ?thesis by (metis last_drop drop_eq_Nil not_le)
  qed
  show "\<not> is_flight (n @ ''.tail'')" using last by fastforce
  show "\<not> is_flight ''npu-smi.txt''" by (simp add: is_flight_def str_endswith_def)
  show "\<not> is_flight ''metadata.json''" by (simp add: is_flight_def str_endswith_def)
qed

lemma write_file_single:
  "write_file env [q] c d = (r, d') \<Longrightarrow> n \<noteq> q \<Longrightarrow> dict_get d' [n] = dict_get d [n]"
  using write_file_get [of env "[q]" c d "[n]"] by auto

lemma snapshot_log_grows: "grows {[n] |n. \<not> is_flight n} s (snapshot_log env p s)"
proof (cases "se_log env p")
  case (Inr data)
  obtain r d where w: "write_file env [path_name p @ ''.tail''] (Bytes (take_last 1000000 data)) (sn_disk s) = (r, d)"
    by force
  have "\<forall>n. is_flight n \<longrightarrow> dict_get d [n] = dict_get (sn_disk s) [n]"
    using write_file_single [OF w] not_flight(1) by metis
  with w Inr show ?thesis by (cases r) (auto intro!: growsI simp: snapshot_log_def)
qed (simp add: snapshot_log_def)

lemma snapshot_npu_grows: "grows {[n] |n. \<not> is_flight n} s (snapshot_npu env s)"
proof (cases "se_npu env")
  case (Completed rc out err)
  obtain r d where w: "write_file env [''npu-smi.txt''] (Bytes (out @ stderr_mark @ err)) (sn_disk s) = (r, d)"
    by force
  have "\<forall>n. is_flight n \<longrightarrow> dict_get d [n] = dict_get (sn_disk s) [n]"
    using write_file_single [OF w] not_flight(2) by metis
  with w Completed show ?thesis by (cases r) (auto intro!: growsI simp: snapshot_npu_def)
qed (simp_all add: snapshot_npu_def)

text \<open>The snapshot that \<open>snapshot\<close> returns, in one equation.\<close>

definition snap_of :: "snap_env \<Rightarrow> path list \<Rightarrow> path list \<Rightarrow> bool \<Rightarrow> snap" where
  "snap_of env files logs npu_smi =
     (let s = fold (snapshot_log env) logs (fold (file_effect env) files
                \<lparr>sn_disk = [], sn_ranks = [], sn_errors = [], sn_npu_rc = None\<rparr>)
      in if npu_smi then snapshot_npu env s else s)"

lemma snapshot_InrE:
  assumes "snapshot env files output reason logs npu_smi = Inr c"
  defines "s \<equiv> snap_of env files logs npu_smi"
  shows "cp_ranks c = sn_ranks s \<and> cp_errors c = sn_errors s \<and>
    cp_dest c = path_child output (se_stamp env @ ''-'' @ reason) \<and>
    cp_disk c = dict_set [''metadata.json''] (Json (metadata_json reason (se_stamp env) s)) (sn_disk s)"
proof -
  let ?w = "write_file env [''metadata.json''] (Json (metadata_json reason (se_stamp env) s)) (sn_disk s)"
  have run: "run_ops (map (snapshot_file env) files) s0 = (None, fold (file_effect env) files s0)" for s0
    unfolding snapshot_file_eq by (rule run_ops_pure [of "file_effect env"])
  obtain r d where w: "?w = (r, d)" by force
  from assms(1) have "se_mkdir env = None" by (simp add: snapshot_def split: option.splits)
  with assms(1) w have "fst ?w = None \<and> se_rename env = None \<and>
    c = \<lparr>cp_dest = path_child output (se_stamp env @ ''-'' @ reason), cp_disk = snd ?w,
      cp_ranks = sn_ranks s, cp_errors = sn_errors s\<rparr>"
    unfolding s_def snap_of_def snapshot_def Let_def run by (cases r; cases "se_rename env") simp_all
  then have "fst ?w = None" "se_rename env = None"
    "c = \<lparr>cp_dest = path_child output (se_stamp env @ ''-'' @ reason), cp_disk = snd ?w,
      cp_ranks = sn_ranks s, cp_errors = sn_errors s\<rparr>" by blast+
  moreover from this(1) have "snd ?w = dict_set [''metadata.json'']
      (Json (metadata_json reason (se_stamp env) s)) (sn_disk s)"
    by (simp add: write_file_def split: option.splits)
  ultimately show ?thesis by simp
qed

lemma snap_accounted:
  assumes "distinct (map path_name files)" and "p \<in> set files" and "is_flight (path_name p)"
  shows "accounted env p (snap_of env files logs npu_smi)"
proof -
  let ?N = "{[n] |n. \<not> is_flight n}"
  let ?s = "fold (file_effect env) files \<lparr>sn_disk = [], sn_ranks = [], sn_errors = [], sn_npu_rc = None\<rparr>"
  have p: "[path_name p] \<notin> ?N" using assms(3) by auto
  have "grows ?N ?s (fold (snapshot_log env) logs ?s)" by (rule grows_fold) (rule snapshot_log_grows)
  from accounted_grows [OF files_accounted [OF assms(1,2)] this p]
  have a: "accounted env p (fold (snapshot_log env) logs ?s)" .
  show ?thesis
    using a accounted_grows [OF a snapshot_npu_grows p] by (simp add: snap_of_def Let_def)
qed

end
