(* ===== verification/Watch_Properties.thy ===== *)
theory Watch_Properties
  imports Watchdog Sample_Runs
begin

text \<open>
  What the watchdog promises: which stalls and exits it captures, that it captures each once, when
  it stops, what makes a snapshot fail and what a snapshot holds. The witnesses run it on the files
  of \<open>Sample_Runs\<close>.
\<close>

subsection \<open>A sample round\<close>

definition sample_up :: proc_view where
  "sample_up = \<lparr>pv_kill = None, pv_exists = Inr True, pv_status = Inr ''State:S''\<rparr>"

definition sample_gone :: proc_view where
  "sample_gone = \<lparr>pv_kill = Some (ProcessLookupError ''no such process''), pv_exists = Inr False, pv_status = Inr []\<rparr>"

definition sample_snap :: snap_env where
  "sample_snap = \<lparr>se_stamp = ''20260916T101010.000000Z'', se_pid = 500, se_mkdir = None, se_fs = sample_fs,
     se_copy = (\<lambda>p. case sample_fs p 0 of Inl m \<Rightarrow> Copy_Failed None (OtherOSError m) | Inr b \<Rightarrow> Copied b),
     se_out = (\<lambda>p. None), se_proc = (\<lambda>pid p. Inr []), se_tasks = (\<lambda>pid. Inr []),
     se_log = (\<lambda>p. Inr []), se_npu = Completed 0 [] [], se_rename = None\<rparr>"

definition sample_args :: "int list \<Rightarrow> watch_args" where
  "sample_args pids = \<lparr>wa_directory = Path [''snap''], wa_output = Path [''dumps''], wa_timeout = of_int 15,
     wa_interval = of_int 1, wa_pids = pids, wa_logs = [], wa_npu_smi = False\<rparr>"

definition sample_tick :: "int \<Rightarrow> proc_view \<Rightarrow> tick_env" where
  "sample_tick now view = \<lparr>te_entries = [''rank0.flight'', ''other.txt''], te_fs = sample_fs, te_now = now,
     te_alive = (\<lambda>k pid. view), te_snap = (\<lambda>i. sample_snap)\<rparr>"

lemma sample_header_read: "read_header sample_fs (sample_path 0) = Inr (sample_header 0)"
  using sample_read(1) by (auto elim: read_events_InrE)

lemma sample_flight_headers: "flight_headers (sample_args pids) (sample_tick now view) = Inr [sample_header 0]"
  and sample_flight_files: "flight_files (sample_args pids) (sample_tick now view) = [sample_path 0]"
proof -
  show "flight_files (sample_args pids) (sample_tick now view) = [sample_path 0]"
    by (simp add: flight_files_def sample_args_def sample_tick_def str_endswith_def path_child_def sample_path_def)
  then show "flight_headers (sample_args pids) (sample_tick now view) = Inr [sample_header 0]"
    by (simp add: flight_headers_def sample_header_read sample_tick_def)
qed

lemma sample_alive [simp]: "alive 77 sample_up = Inr True" "alive 77 sample_gone = Inr False"
  by (simp_all add: alive_def sample_up_def sample_gone_def zombie_mark_def)

text \<open>C16: A snapshot accounts for every rank file it was asked to save: its exact bytes are in the
  snapshot under its name and its header is in the list of ranks, or an error line names the file;
  the metadata file lists those ranks and errors.\<close>

theorem snapshot_accounts:
  assumes "snapshot env files output reason logs npu_smi = Inr c"
    and "distinct (map path_name files)" and "p \<in> set files" and "str_endswith (path_name p) ''.flight''"
  shows "((\<exists>h b. read_header (se_fs env) p = Inr h \<and> se_copy env p = Copied b \<and>
        (h, path_name p) \<in> set (cp_ranks c) \<and> dict_get (cp_disk c) [path_name p] = Some (Bytes b)) \<or>
      (\<exists>m. path_str p @ '': '' @ m \<in> set (cp_errors c))) \<and>
    (\<exists>d. dict_get (cp_disk c) [''metadata.json''] = Some (Json (JObj d)) \<and>
      dict_get d ''ranks'' = Some (JList (map rank_json (cp_ranks c))) \<and>
      dict_get d ''errors'' = Some (JList (map JStr (cp_errors c))))"
proof
  let ?s = "snap_of env files logs npu_smi"
  note c = snapshot_InrE [OF assms(1)]
  have "path_name p \<noteq> ''metadata.json''" using assms(4) not_flight(3) by (auto simp: is_flight_def)
  with c have disk: "dict_get (cp_disk c) [path_name p] = dict_get (sn_disk ?s) [path_name p]"
    by (simp add: py_dict)
  have "accounted env p ?s"
    using assms(2-4) by (intro snap_accounted) (simp_all add: is_flight_def)
  with c disk show "(\<exists>h b. read_header (se_fs env) p = Inr h \<and> se_copy env p = Copied b \<and>
        (h, path_name p) \<in> set (cp_ranks c) \<and> dict_get (cp_disk c) [path_name p] = Some (Bytes b)) \<or>
      (\<exists>m. path_str p @ '': '' @ m \<in> set (cp_errors c))"
    by (simp add: accounted_def)
  from c show "\<exists>d. dict_get (cp_disk c) [''metadata.json''] = Some (Json (JObj d)) \<and>
      dict_get d ''ranks'' = Some (JList (map rank_json (cp_ranks c))) \<and>
      dict_get d ''errors'' = Some (JList (map JStr (cp_errors c)))"
    by (simp add: py_dict metadata_json_def)
qed

lemma sample_snapshot: "\<exists>c. snapshot sample_snap [sample_path 0] (Path [''dumps'']) reason [] False = Inr c"
proof -
  have "run_ops (map (snapshot_file sample_snap) [sample_path 0]) s0 =
      (None, fold (file_effect sample_snap) [sample_path 0] s0)" for s0
    unfolding snapshot_file_eq by (rule run_ops_pure [of "file_effect sample_snap"])
  then show ?thesis by (simp add: snapshot_def Let_def write_file_def sample_snap_def)
qed

theorem snapshot_accounts_witness:
  "\<exists>c. snapshot sample_snap [sample_path 0] (Path [''dumps'']) ''exit-pid77'' [] False = Inr c \<and>
    ((sample_header 0, ''rank0.flight'') \<in> set (cp_ranks c) \<or>
      (\<exists>m. path_str (sample_path 0) @ '': '' @ m \<in> set (cp_errors c)))"
proof -
  obtain c where c: "snapshot sample_snap [sample_path 0] (Path [''dumps'']) ''exit-pid77'' [] False = Inr c"
    using sample_snapshot by blast
  have "path_name (sample_path 0) = ''rank0.flight''" by (simp add: sample_path_def path_name_def last_opt_def)
  with c snapshot_accounts [OF c, of "sample_path 0"] show ?thesis
    by (auto simp: str_endswith_def sample_header_read sample_snap_def)
qed

subsection \<open>The loop\<close>

lemma sample_overdue: "overdue (sample_args pids) (sample_tick now view) (sample_header 0) \<longleftrightarrow> 15000000000 \<le> now - 5"
  using seconds_threshold [of 15 "now - 5"]
  by (simp add: overdue_def sample_args_def sample_tick_def sample_header_def)

lemma sample_take:
  "\<exists>c. take_snapshot (sample_args pids) (sample_tick now view) i t w = (None, w\<lparr>w_log := w_log w @ [(t, c)]\<rparr>)"
proof -
  obtain c where "snapshot sample_snap [sample_path 0] (Path [''dumps'']) (trigger_reason t) [] False = Inr c"
    using sample_snapshot by blast
  then show ?thesis
    by (auto simp: take_snapshot_def sample_flight_files) (auto simp: sample_args_def sample_tick_def)
qed

lemma sample_stall_round:
  "\<exists>c. tick (sample_args []) (sample_tick 20000000000 sample_up) watch_init =
    (Watching, watch_init\<lparr>w_stalls := {(77, 7)}, w_log := [(Stall 77 7, c)]\<rparr>)"
proof -
  let ?env = "sample_tick 20000000000 sample_up" and ?w = "watch_init\<lparr>w_stalls := {(77, 7)}\<rparr>"
  obtain c where c: "take_snapshot (sample_args []) ?env 0 (Stall 77 7) ?w =
      (None, ?w\<lparr>w_log := w_log ?w @ [(Stall 77 7, c)]\<rparr>)" using sample_take by blast
  have "alive 77 (te_alive ?env k 77) = Inr True" for k by (simp add: sample_tick_def)
  moreover have "hd_pid (sample_header 0) = 77" "hd_write_seq (sample_header 0) = 7" by (simp_all add: sample_header_def)
  ultimately have "watch_header (sample_args []) ?env (0, sample_header 0) watch_init =
      (None, ?w\<lparr>w_log := w_log ?w @ [(Stall 77 7, c)]\<rparr>)"
    using c by (simp add: sample_overdue Let_def) (simp add: watch_init_def)
  then show ?thesis
    by (simp add: tick_def sample_flight_headers) (simp add: sample_args_def watch_init_def)
qed

lemma sample_exit_round:
  "\<exists>c. tick (sample_args pids) (sample_tick 0 sample_gone) watch_init =
    (if pids = [77] then Ended else Watching, watch_init\<lparr>w_exits := {77}, w_log := [(Exit 77, c)]\<rparr>)"
  if "pids = [] \<or> pids = [77]"
proof -
  let ?env = "sample_tick 0 sample_gone" and ?w = "watch_init\<lparr>w_exits := {77}\<rparr>"
  obtain c where c: "take_snapshot (sample_args pids) ?env 0 (Exit 77) ?w =
      (None, ?w\<lparr>w_log := w_log ?w @ [(Exit 77, c)]\<rparr>)" using sample_take by blast
  have dead: "alive 77 (te_alive ?env k 77) = Inr False" for k by (simp add: sample_tick_def)
  moreover have "hd_pid (sample_header 0) = 77" by (simp add: sample_header_def)
  ultimately have "watch_header (sample_args pids) ?env (0, sample_header 0) watch_init =
      (None, ?w\<lparr>w_log := w_log ?w @ [(Exit 77, c)]\<rparr>)"
    using c by (simp add: Let_def) (simp add: watch_init_def)
  moreover have "wa_pids (sample_args pids) = pids" by (simp add: sample_args_def)
  ultimately show ?thesis
    using that dead by (auto simp: tick_def sample_flight_headers watch_init_def)
qed

text \<open>C15: The watchdog never captures the same thing twice: however it got where it is, also after a
  crash or an interrupt, the stalls it captured differ in process or write sequence and every
  process has at most one exit capture.\<close>

theorem captures_once:
  assumes "watch_reach args st w"
  shows "distinct (map fst (w_log w))"
  using watch_reach_invariant [OF assms] by blast

theorem captures_once_witness:
  "\<exists>c. watch_reach (sample_args []) Watching (watch_init\<lparr>w_stalls := {(77, 7)}, w_log := [(Stall 77 7, c)]\<rparr>) \<and>
    distinct (map fst (w_log (watch_init\<lparr>w_stalls := {(77, 7)}, w_log := [(Stall 77 7, c)]\<rparr>)))"
proof -
  obtain c where "tick (sample_args []) (sample_tick 20000000000 sample_up) watch_init =
      (Watching, watch_init\<lparr>w_stalls := {(77, 7)}, w_log := [(Stall 77 7, c)]\<rparr>)"
    using sample_stall_round by blast
  from watch_reach.round [OF watch_reach.ready this] captures_once [OF watch_reach.round [OF watch_reach.ready this]]
  show ?thesis by blast
qed

lemma in_enumerate: "x \<in> set (enumerate 0 hs) \<longleftrightarrow> (\<exists>i < length hs. x = (i, hs ! i))"
  by (auto simp: in_set_conv_nth nth_enumerate_eq)

lemma watch_main_Watching:
  assumes "watch_main args envs = Inr (Watching, w)"
  shows "t \<in> set (triggers w) \<longleftrightarrow> (\<exists>env \<in> set envs. \<exists>hs. flight_headers args env = Inr hs \<and>
    (\<exists>i < length hs. demand args env (i, hs ! i) = Some t))"
proof -
  from assms have "watch_loop args envs watch_init = (Watching, w)"
    by (simp add: watch_main_def split: if_splits)
  from watch_loop_Watching [OF this watch_init_seen(1), THEN conjunct2]
  have seen: "set (triggers w) = {t. \<exists>env \<in> set envs. \<exists>hs. flight_headers args env = Inr hs \<and>
      (\<exists>x \<in> set (enumerate 0 hs). demand args env x = Some t)}"
    unfolding watch_init_seen(2) by (simp only: list.set Un_empty_left)
  show ?thesis unfolding seen mem_Collect_eq Bex_def in_enumerate by blast
qed

text \<open>C14: While the watchdog is running, it has captured a stall of process \<open>pid\<close> at write sequence
  \<open>seq\<close> exactly when some round saw a readable header with them, found the process alive, and the
  last recorded event was at least the timeout old, in exact nanoseconds: the float arithmetic of
  the comparison does not matter for a timeout of whole seconds up to a hundred days.\<close>

theorem stalls_captured_iff:
  assumes "watch_main args envs = Inr (Watching, w)"
    and "wa_timeout args = of_int t" and "t * 1000000000 < 2 ^ 53"
  shows "Stall pid seq \<in> set (map fst (w_log w)) \<longleftrightarrow>
    (\<exists>env \<in> set envs. \<exists>hs. flight_headers args env = Inr hs \<and>
      (\<exists>i < length hs. hd_pid (hs ! i) = pid \<and> hd_write_seq (hs ! i) = seq \<and>
        alive pid (te_alive env (2 * i) pid) = Inr True \<and>
        t * 1000000000 \<le> te_now env - hd_last_ns (hs ! i)))"
proof -
  have "0 < t" using assms(1,2) by (auto simp: watch_main_def split: if_splits)
  have "demand args env (i, h) = Some (Stall pid seq) \<longleftrightarrow> hd_pid h = pid \<and> hd_write_seq h = seq \<and>
      alive pid (te_alive env (2 * i) pid) = Inr True \<and> t * 1000000000 \<le> te_now env - hd_last_ns h" for env i h
    using seconds_threshold [OF \<open>0 < t\<close> assms(3), of "te_now env - hd_last_ns h"]
    by (auto simp: Let_def overdue_def assms(2))
  then show ?thesis unfolding watch_main_Watching [OF assms(1)] by simp
qed

theorem stalls_captured_iff_witness:
  "\<exists>w. watch_main (sample_args []) [sample_tick 20000000000 sample_up] = Inr (Watching, w) \<and>
    Stall 77 7 \<in> set (map fst (w_log w)) \<and> \<not> Stall 77 8 \<in> set (map fst (w_log w))"
proof -
  obtain c where "tick (sample_args []) (sample_tick 20000000000 sample_up) watch_init =
      (Watching, watch_init\<lparr>w_stalls := {(77, 7)}, w_log := [(Stall 77 7, c)]\<rparr>)"
    using sample_stall_round by blast
  then have m: "watch_main (sample_args []) [sample_tick 20000000000 sample_up] =
      Inr (Watching, watch_init\<lparr>w_stalls := {(77, 7)}, w_log := [(Stall 77 7, c)]\<rparr>)"
    by (simp add: watch_main_def) (simp add: sample_args_def)
  have t: "wa_timeout (sample_args []) = of_int 15" "15 * 1000000000 < (2 :: int) ^ 53"
    by (simp_all add: sample_args_def)
  have h: "hd_pid (sample_header 0) = 77" "hd_write_seq (sample_header 0) = 7" "hd_last_ns (sample_header 0) = 5"
    and e: "te_alive (sample_tick 20000000000 sample_up) k p = sample_up" "te_now (sample_tick 20000000000 sample_up) = 20000000000" for k p
    by (simp_all add: sample_header_def sample_tick_def)
  show ?thesis
    using stalls_captured_iff [OF m t, of 77 7] stalls_captured_iff [OF m t, of 77 8] m
    by (simp add: sample_flight_headers h e)
qed

lemma all_dead_iff:
  "all_dead view k pids = Inr True \<longleftrightarrow> (\<forall>j < length pids. alive (pids ! j) (view (k + j) (pids ! j)) = Inr False)"
proof (induction pids arbitrary: k)
  case (Cons pid pids)
  have "(\<forall>j < length (pid # pids). alive ((pid # pids) ! j) (view (k + j) ((pid # pids) ! j)) = Inr False) \<longleftrightarrow>
      alive pid (view k pid) = Inr False \<and>
      (\<forall>j < length pids. alive (pids ! j) (view (Suc k + j) (pids ! j)) = Inr False)"
    by (simp add: All_less_Suc2)
  with Cons show ?case by (auto split: sum.split)
qed simp

text \<open>A process that disappears between the signal and the reading of its \<open>/proc\<close> status ends the
  watchdog with an uncaught \<open>FileNotFoundError\<close>: only \<open>ProcessLookupError\<close> and \<open>PermissionError\<close>
  are caught, and opening the status file of a process that is gone raises neither.\<close>

lemma vanished_process_crashes:
  assumes "flight_headers args env = Inr (h # hs)" and "hd_pid h \<le> 2147483647"
    and "te_alive env 0 (hd_pid h) = \<lparr>pv_kill = None, pv_exists = Inr True, pv_status = Inl (FileNotFoundError m)\<rparr>"
  shows "tick args env w = (Crashed (OSError m), w)"
  using assms by (simp add: tick_def alive_def raised_def enumerate_eq_zip upt_conv_Cons del: upt_Suc)

end
