(* ===== verification/Report_Output.thy ===== *)
theory Report_Output
  imports Py_World Analyzer
begin

text \<open>
  \<open>write_outputs\<close> in \<open>flightrecorder/analyzer.py\<close>: the text report section by section, the merged
  event histories of all snapshots, the trace, the event listing and the list of snapshots.
  \<open>out_env\<close> holds what the file system does; \<open>show\<close> is \<open>str\<close> of JSON floats, lists and objects,
  which the watchdog never writes where it is used.
\<close>

subsection \<open>The text report\<close>

definition opt_text :: "('a \<Rightarrow> string) \<Rightarrow> string \<Rightarrow> 'a option \<Rightarrow> string" where
  "opt_text f none x = (case x of None \<Rightarrow> none | Some v \<Rightarrow> f v)"

definition scope_line :: "event \<Rightarrow> string" where
  "scope_line e = ''  open '' @ ev_type e @ '' corr='' @ str_int (ev_correlation_id e) @
     '' stream='' @ str_int (ev_stream e) @ '' seq='' @ str_int (ev_seq e)"

definition host_lines :: "int \<times> rank_report \<Rightarrow> string list" where
  "host_lines = (\<lambda>(rank, d).
     [''rank '' @ str_int rank @ '': seq='' @ str_int (rr_last_sequence d) @ '' pid='' @ str_int (rr_pid d) @
        '' last_host='' @ opt_text ev_type ''none'' (rr_last_host_event d) @
        '' corr='' @ opt_text (\<lambda>e. str_int (ev_correlation_id e)) ''-'' (rr_last_host_event d)] @
     map scope_line (rr_outstanding_host_scopes d) @
     [''  last device confirmation: '' @
        opt_text (\<lambda>e. ''seq='' @ str_int (ev_seq e) @ '' corr='' @ str_int (ev_correlation_id e))
          ''none observed'' (rr_last_device_confirmation d)])"

definition collective_line :: "collective \<Rightarrow> string" where
  "collective_line c = ''comm='' @ str_int (co_communicator_id c) @ '' op='' @ str_int (co_operation_id c) @
     '' entered='' @ str_ints (co_entered c) @ '' end='' @ str_ints (co_end_observed c) @
     '' missing_expected='' @ str_ints (co_missing_expected c) @ '' types='' @ str_ints (co_types c) @
     '' type_mismatch='' @ str_bool (co_type_mismatch c)"

definition checkpoint_text :: "event \<Rightarrow> string" where
  "checkpoint_text e = ''submitted_seq='' @ str_int (ev_arg0 e) @ '' checkpoint='' @
     str_int (ev_correlation_id e) @ '' generation='' @ str_int (ev_arg1 e)"

definition stream_lines :: "int \<Rightarrow> int \<times> stream_progress \<Rightarrow> string list" where
  "stream_lines rank = (\<lambda>(stream_id, p).
     [''rank '' @ str_int rank @ '' stream '' @ str_int stream_id @ '': submitted='' @
        str_int (pr_submitted_count p) @ '' explicit_confirmations='' @
        str_int (pr_explicitly_confirmed_count p) @ '' unconfirmed='' @ str_int (pr_unconfirmed_count p),
      ''  submitted_seq='' @ str_int (pr_submitted_seq p) @ '' completed_seq='' @ str_int (pr_completed_seq p),
      ''  confirmed through'' @ (case pr_confirmed_through p of
         Some e \<Rightarrow> '' '' @ checkpoint_text e | None \<Rightarrow> '': none observed'')] @
     (case pr_first_unconfirmed p of
        None \<Rightarrow> []
      | Some e \<Rightarrow>
          [''  first unconfirmed '' @ checkpoint_text e,
           ''  unconfirmed submitted_seq interval='' @ str_int (ev_arg0 e) @ ''..'' @
             opt_text (\<lambda>l. str_int (ev_arg0 l)) [] (pr_last_unconfirmed p),
           ''  explicit NOT_READY observations='' @ str_int (pr_not_ready_observed p)]))"

definition checkpoint_lines :: "int \<times> rank_report \<Rightarrow> string list" where
  "checkpoint_lines = (\<lambda>(rank, d). let r = ''rank '' @ str_int rank @ '': '' in
     (if rr_device_checkpoint_progress d = [] then [r @ ''no per-stream device checkpoints''] else []) @
     concat (map (stream_lines rank) (sort_key fst (rr_device_checkpoint_progress d))) @
     (if rr_checkpoint_warnings d \<noteq> []
      then [r @ ''checkpoint warnings='' @ str_int (int (length (rr_checkpoint_warnings d)))] else []) @
     (if rr_stale_or_unmatched_confirmations d \<noteq> []
      then [r @ ''ignored stale/unmatched confirmations='' @
            str_int (int (length (rr_stale_or_unmatched_confirmations d)))] else []) @
     (if rr_checkpoint_coverage_warning d
      then [r @ ''COVERAGE WARNING: DEVICE_SYNC remains open although all '' @
            ''observed Stream checkpoints are confirmed; blocked work is after the last '' @
            ''checkpoint or on an uninstrumented/internal Stream''] else []))"

definition dependency_line :: "dependency \<Rightarrow> string" where
  "dependency_line d = ''rank '' @ str_int (dp_rank d) @ '' stream '' @ str_int (dp_waiting_stream d) @
     '' waits event '' @ str_int (dp_event_id d) @ '' producer_stream='' @
     opt_text str_int ''None'' (dp_producer_stream d)"

definition cycle_line :: "string list \<Rightarrow> string" where
  "cycle_line c = ''candidate cycle: '' @ str_join '' -> '' c"

definition last_host_lines :: "(int, rank_report) dict \<Rightarrow> int \<Rightarrow> string list" where
  "last_host_lines ranks rank =
     (case dict_get ranks rank of
        None \<Rightarrow> []
      | Some d \<Rightarrow>
          (case rr_last_host_event d of
             None \<Rightarrow> []
           | Some e \<Rightarrow> [''  rank '' @ str_int rank @ '' last host event: '' @ ev_type e @ '' corr='' @
               str_int (ev_correlation_id e) @ '' stream='' @ str_int (ev_stream e) @ '' seq='' @
               str_int (ev_seq e)]))"

definition blocking_line :: "collective \<Rightarrow> string" where
  "blocking_line c = ''comm='' @ str_int (co_communicator_id c) @ '' op='' @ str_int (co_operation_id c) @
     '': no HCCL_BEGIN observed for ranks '' @ str_ints (co_missing_expected c)"

definition blocking_lines :: "(int, rank_report) dict \<Rightarrow> collective \<Rightarrow> string list" where
  "blocking_lines ranks c =
     (if co_missing_expected c = [] then []
      else [blocking_line c] @ concat (map (last_host_lines ranks) (co_missing_expected c)) @
        concat (map (last_host_lines ranks) (co_entered c)) @
        [''  HCCL_END, if present, only proves Host API return; check DEVICE_SYNC_END/DEVICE_CONFIRMED.''])"

definition report_lines :: "report \<Rightarrow> string list" where
  "report_lines rep = (let ranks = sort_key fst (rp_ranks rep) in
     [''Ascend Hang Flight Report'', [], ''HOST PROGRESS''] @ concat (map host_lines ranks) @
     [[], ''COLLECTIVES (end means Host API returned, not NPU completion)''] @
     map collective_line (rp_collectives rep) @
     [[], ''DEVICE CHECKPOINT PROGRESS''] @ concat (map checkpoint_lines ranks) @
     [[], ''EVENT DEPENDENCIES''] @ map dependency_line (rp_dependencies rep) @
     map cycle_line (rp_stream_cycles_candidate rep) @
     [[], ''BLOCKING EVIDENCE''] @ concat (map (blocking_lines (rp_ranks rep)) (rp_collectives rep)) @
     [[], ''LIMITATIONS''] @ rp_limitations rep)"

text \<open>\<open>"\n".join(lines) + "\n"\<close>.\<close>

definition text_of :: "string list \<Rightarrow> content" where
  "text_of ls = Text (str_join [CHR 0x0A] ls @ [CHR 0x0A])"

subsection \<open>The JSON report\<close>

definition event_json :: "event \<Rightarrow> json" where
  "event_json e = JObj
     [(''timestamp_ns'', JInt (ev_timestamp_ns e)), (''seq'', JInt (ev_seq e)), (''pid'', JInt (ev_pid e)),
      (''tid'', JInt (ev_tid e)), (''device'', JInt (ev_device e)), (''rank'', JInt (ev_rank e)),
      (''stream'', JInt (ev_stream e)), (''type'', JStr (ev_type e)), (''flags'', JInt (ev_flags e)),
      (''correlation_id'', JInt (ev_correlation_id e)), (''arg0'', JInt (ev_arg0 e)), (''arg1'', JInt (ev_arg1 e))]"

definition opt_json :: "('a \<Rightarrow> json) \<Rightarrow> 'a option \<Rightarrow> json" where
  "opt_json f x = (case x of None \<Rightarrow> JNull | Some v \<Rightarrow> f v)"

definition mapping_json :: "mapping \<Rightarrow> json" where
  "mapping_json m = JObj
     [(''submitted_seq'', JInt (mp_submitted_seq m)), (''checkpoint_id'', JInt (mp_checkpoint_id m)),
      (''generation'', JInt (mp_generation m)), (''status'', JStr (mp_status m)),
      (''confirmation_record_seq'', opt_json JInt (mp_confirmation_record_seq m))]"

definition progress_json :: "stream_progress \<Rightarrow> json" where
  "progress_json p = JObj
     [(''submitted_count'', JInt (pr_submitted_count p)),
      (''explicitly_confirmed_count'', JInt (pr_explicitly_confirmed_count p)),
      (''submitted_seq'', JInt (pr_submitted_seq p)), (''completed_seq'', JInt (pr_completed_seq p)),
      (''confirmed_through'', opt_json event_json (pr_confirmed_through p)),
      (''first_unconfirmed'', opt_json event_json (pr_first_unconfirmed p)),
      (''last_unconfirmed'', opt_json event_json (pr_last_unconfirmed p)),
      (''unconfirmed_count'', JInt (pr_unconfirmed_count p)),
      (''not_ready_observed'', JInt (pr_not_ready_observed p)),
      (''checkpoint_mappings'', JList (map mapping_json (pr_checkpoint_mappings p)))]"

definition rank_report_json :: "rank_report \<Rightarrow> json" where
  "rank_report_json d = JObj
     [(''pid'', JInt (rr_pid d)), (''last_sequence'', JInt (rr_last_sequence d)),
      (''last_event'', opt_json event_json (rr_last_event d)),
      (''last_host_event'', opt_json event_json (rr_last_host_event d)),
      (''last_device_confirmation'', opt_json event_json (rr_last_device_confirmation d)),
      (''outstanding_host_scopes'', JList (map event_json (rr_outstanding_host_scopes d))),
      (''last_events'', JList (map event_json (rr_last_events d))),
      (''ring_wrap_or_loss'', JBool (rr_ring_wrap_or_loss d)),
      (''device_checkpoint_progress'', JObj (map (\<lambda>(s, p). (str_int s, progress_json p))
         (rr_device_checkpoint_progress d))),
      (''checkpoint_warnings'', JList (map event_json (rr_checkpoint_warnings d))),
      (''stale_or_unmatched_confirmations'',
         JList (map event_json (rr_stale_or_unmatched_confirmations d))),
      (''checkpoint_coverage_warning'', JBool (rr_checkpoint_coverage_warning d))]"

definition ints_json :: "int list \<Rightarrow> json" where
  "ints_json ns = JList (map JInt ns)"

definition collective_json :: "collective \<Rightarrow> json" where
  "collective_json c = JObj
     [(''communicator_id'', JInt (co_communicator_id c)), (''operation_id'', JInt (co_operation_id c)),
      (''entered'', ints_json (co_entered c)), (''missing_expected'', ints_json (co_missing_expected c)),
      (''types'', ints_json (co_types c)), (''type_mismatch'', JBool (co_type_mismatch c)),
      (''end_observed'', ints_json (co_end_observed c))]"

definition dependency_json :: "dependency \<Rightarrow> json" where
  "dependency_json d = JObj
     [(''rank'', JInt (dp_rank d)), (''event_id'', JInt (dp_event_id d)),
      (''waiting_stream'', JInt (dp_waiting_stream d)),
      (''producer_stream'', opt_json JInt (dp_producer_stream d)),
      (''producer_observed'', JBool (dp_producer_observed d))]"

definition report_json :: "report \<Rightarrow> json" where
  "report_json rep = JObj
     [(''ranks'', JObj (map (\<lambda>(r, d). (str_int r, rank_report_json d)) (rp_ranks rep))),
      (''collectives'', JList (map collective_json (rp_collectives rep))),
      (''dependencies'', JList (map dependency_json (rp_dependencies rep))),
      (''stream_cycles_candidate'', JList (map (\<lambda>c. JList (map JStr c)) (rp_stream_cycles_candidate rep))),
      (''errors'', JList (map JStr (rp_errors rep))),
      (''limitations'', JList (map JStr (rp_limitations rep)))]"

subsection \<open>The merged histories\<close>

text \<open>
  \<open>datatype meta_file\<close>: there is no \<open>metadata.json\<close>, reading or parsing it raised, or its value.
\<close>

datatype meta_file = No_Meta | Meta_Error py_error | Meta json

record out_env =
  oe_mkdir :: "os_error option"
  oe_write :: "string \<Rightarrow> os_error option"
  oe_fs :: file_reads
  oe_meta :: "path \<Rightarrow> meta_file"

type_synonym full_table = "(int, event list) dict"

definition by_seq :: "event list \<Rightarrow> (int, event) dict \<Rightarrow> (int, event) dict" where
  "by_seq = fold (\<lambda>e. dict_set (ev_seq e) e)"

definition merge_events :: "event list \<Rightarrow> event list \<Rightarrow> event list" where
  "merge_events old new = sort_key ev_seq (dict_values (by_seq new (by_seq old [])))"

definition merge_into :: "report \<Rightarrow> header \<Rightarrow> event list \<Rightarrow> full_table \<Rightarrow> full_table" where
  "merge_into rep h events full =
     (case dict_get (rp_ranks rep) (hd_rank h) of
        None \<Rightarrow> full
      | Some d \<Rightarrow>
          if hd_pid h = rr_pid d
          then dict_set (hd_rank h) (merge_events (dict_list full (hd_rank h)) events) full
          else full)"

definition full_step :: "file_reads \<Rightarrow> report \<Rightarrow> path \<Rightarrow> full_table \<Rightarrow> py_error option \<times> full_table" where
  "full_step fs rep p full =
     (case read_events fs p of
        Inl e \<Rightarrow> if caught e then (None, full) else (Some e, full)
      | Inr (h, events) \<Rightarrow> (None, merge_into rep h events full))"

definition full_events :: "file_reads \<Rightarrow> report \<Rightarrow> path list \<Rightarrow> py_error option \<times> full_table" where
  "full_events fs rep paths = run_ops (map (full_step fs rep) paths) []"

text \<open>\<open>full.get(rank, d["last_events"])\<close>.\<close>

definition shown_events :: "full_table \<Rightarrow> int \<times> rank_report \<Rightarrow> event list" where
  "shown_events full = (\<lambda>(rank, d). case dict_get full rank of Some ev \<Rightarrow> ev | None \<Rightarrow> rr_last_events d)"

subsection \<open>Trace, event listing and snapshot list\<close>

definition trace_entry :: "int \<Rightarrow> event \<Rightarrow> json" where
  "trace_entry rank e = JObj
     [(''name'', JStr (ev_type e)), (''ph'', JStr ''i''), (''s'', JStr ''t''),
      (''ts'', JFloat (int_div (ev_timestamp_ns e) 1000)), (''pid'', JInt rank), (''tid'', JInt (ev_tid e)),
      (''args'', JObj [(''stream'', JInt (ev_stream e)), (''correlation_id'', JInt (ev_correlation_id e)),
         (''seq'', JInt (ev_seq e))])]"

definition trace_json :: "report \<Rightarrow> full_table \<Rightarrow> json" where
  "trace_json rep full = JObj [(''traceEvents'', JList (concat
     (map (\<lambda>(rank, d). map (trace_entry rank) (shown_events full (rank, d))) (rp_ranks rep))))]"

definition event_line :: "int \<Rightarrow> event \<Rightarrow> string" where
  "event_line first e = ljust 9 (str_int (ev_seq e)) @ '' '' @
     rjust 10 (format_fixed 3 (float_div (ev_timestamp_ns e - first) 1000000)) @ '' '' @
     rjust 12 (str_int (ev_stream e)) @ '' '' @ ljust 21 (ev_type e) @ '' '' @
     rjust 12 (str_int (ev_correlation_id e)) @ '' '' @ rjust 12 (str_int (ev_arg0 e)) @ '' '' @
     rjust 12 (str_int (ev_arg1 e))"

definition rank_event_lines :: "full_table \<Rightarrow> int \<times> rank_report \<Rightarrow> string list" where
  "rank_event_lines full = (\<lambda>(rank, d).
     let events = shown_events full (rank, d);
         first = (case events of e # _ \<Rightarrow> ev_timestamp_ns e | [] \<Rightarrow> 0)
     in [[], ''RANK '' @ str_int rank @ '' pid='' @ str_int (rr_pid d) @ '' events='' @
           str_int (int (length events))] @ map (event_line first) events)"

definition event_lines :: "report \<Rightarrow> full_table \<Rightarrow> string list" where
  "event_lines rep full =
     [''Flight events by rank (time is milliseconds since that rank'' @ [CHR 0x27] @ ''s first retained event)'',
      ''seq       +ms         stream       type                  corr          arg0          arg1''] @
     concat (map (rank_event_lines full) (sort_key fst (rp_ranks rep)))"

fun json_str :: "(json \<Rightarrow> string) \<Rightarrow> json \<Rightarrow> string" where
  "json_str show (JStr s) = s"
| "json_str show (JInt n) = str_int n"
| "json_str show (JBool b) = str_bool b"
| "json_str show JNull = ''None''"
| "json_str show j = show j"

definition snapshot_line :: "(json \<Rightarrow> string) \<Rightarrow> path \<Rightarrow> meta_file \<Rightarrow> py_error + string option" where
  "snapshot_line show parent m =
     (case m of
        No_Meta \<Rightarrow> Inr None
      | Meta_Error e \<Rightarrow> if caught e then Inr None else Inl e
      | Meta j \<Rightarrow>
          (case j of
             JObj d \<Rightarrow>
               (let get = (\<lambda>k. opt_text (json_str show) ''?'' (dict_get d k))
                in Inr (Some (get ''captured_utc'' @ '' '' @ get ''reason'' @ '' '' @ path_str parent)))
           | _ \<Rightarrow> Inl AttributeError))"

definition snapshot_lines :: "(json \<Rightarrow> string) \<Rightarrow> out_env \<Rightarrow> path list \<Rightarrow> py_error + string list" where
  "snapshot_lines show env paths =
     collect (\<lambda>parent. snapshot_line show parent (oe_meta env (path_child parent ''metadata.json'')))
       (sort (remdups (map path_parent paths)))"

subsection \<open>Writing\<close>

definition out_write :: "out_env \<Rightarrow> string \<Rightarrow> content \<Rightarrow> disk \<Rightarrow> py_error option \<times> disk" where
  "out_write env name c d =
     (case oe_write env name of Some e \<Rightarrow> (Some (raised e), d) | None \<Rightarrow> (None, dict_set [name] c d))"

definition write_outputs ::
  "(json \<Rightarrow> string) \<Rightarrow> out_env \<Rightarrow> report \<Rightarrow> path list \<Rightarrow> py_error option \<times> disk" where
  "write_outputs show env rep paths =
     (case oe_mkdir env of
        Some e \<Rightarrow> (Some (raised e), [])
      | None \<Rightarrow>
          (case run_ops [out_write env ''report.json'' (Json (report_json rep)),
                         out_write env ''report.txt'' (text_of (report_lines rep))] [] of
             (Some e, d) \<Rightarrow> (Some e, d)
           | (None, d) \<Rightarrow>
               (case full_events (oe_fs env) rep paths of
                  (Some e, _) \<Rightarrow> (Some e, d)
                | (None, full) \<Rightarrow>
                    (case run_ops [out_write env ''trace.json'' (Json (trace_json rep full)),
                                   out_write env ''events.txt'' (text_of (event_lines rep full))] d of
                       (Some e, d) \<Rightarrow> (Some e, d)
                     | (None, d) \<Rightarrow>
                         if paths = [] then (None, d)
                         else case snapshot_lines show env paths of
                           Inl e \<Rightarrow> (Some e, d)
                         | Inr ls \<Rightarrow> out_write env ''snapshots.txt'' (text_of ls) d))))"

text \<open>The rest of \<open>main\<close>: the report is written and the path of its text is printed.\<close>

definition main_report ::
  "file_reads \<Rightarrow> (json \<Rightarrow> string) \<Rightarrow> out_env \<Rightarrow> (string list \<Rightarrow> string list) \<Rightarrow> nat \<Rightarrow> path list \<Rightarrow> path \<Rightarrow>
    string option \<Rightarrow> int option \<Rightarrow> stop + string \<times> disk" where
  "main_report fs show env ord depth tree output expected_text communicator_id =
     (case main_analyze fs ord depth tree expected_text communicator_id of
        Inl s \<Rightarrow> Inl s
      | Inr rep \<Rightarrow>
          (case write_outputs show env rep (sort (filter (\<lambda>p. str_endswith (path_name p) ''.flight'') tree)) of
             (Some e, d) \<Rightarrow> Inl (Raised e)
           | (None, d) \<Rightarrow> Inr (path_str (path_child output ''report.txt''), d)))"

subsection \<open>Merging\<close>

interpretation seq_dict: last_write "\<lambda>e. dict_set (ev_seq e) e" map_of
  "\<lambda>e k. if ev_seq e = k then Some (Some e) else None"
  by unfold_locales (simp add: py_dict)

definition seq_keyed :: "(int, event) dict \<Rightarrow> bool" where
  "seq_keyed d \<longleftrightarrow> distinct (dict_keys d) \<and> (\<forall>k e. dict_get d k = Some e \<longrightarrow> ev_seq e = k)"

lemma seq_keyed_set: "seq_keyed d \<Longrightarrow> seq_keyed (dict_set (ev_seq e) e d)"
  unfolding seq_keyed_def
  by (auto simp: update_conv' distinct_update simp del: map_of_eq_Some_iff split: if_splits)

lemma seq_keyed_by_seq: "seq_keyed d \<Longrightarrow> seq_keyed (by_seq es d)"
  unfolding by_seq_def by (induction es arbitrary: d) (simp_all add: seq_keyed_set)

lemma seq_keyed_Nil [simp]: "seq_keyed []"
  by (simp add: seq_keyed_def)

lemma seq_keyed_values:
  assumes "seq_keyed d"
  shows "e \<in> set (dict_values d) \<longleftrightarrow> dict_get d (ev_seq e) = Some e"
    and "map ev_seq (dict_values d) = dict_keys d"
proof -
  from assms have dis: "distinct (dict_keys d)" and key: "\<forall>k e. dict_get d k = Some e \<longrightarrow> ev_seq e = k"
    by (auto simp: seq_keyed_def)
  show "e \<in> set (dict_values d) \<longleftrightarrow> dict_get d (ev_seq e) = Some e"
    unfolding dict_values_get [OF dis] using key by blast
  have "ev_seq (snd x) = fst x" if "x \<in> set d" for x
  proof -
    have "dict_get d (fst x) = Some (snd x)" using that by (simp add: map_of_eq_Some_iff [OF dis])
    with key show ?thesis by blast
  qed
  then show "map ev_seq (dict_values d) = dict_keys d" by simp
qed

lemma merge_events_iff:
  "e \<in> set (merge_events old new) \<longleftrightarrow> dict_get (by_seq new (by_seq old [])) (ev_seq e) = Some e"
  using seq_keyed_values(1) [OF seq_keyed_by_seq [OF seq_keyed_by_seq [OF seq_keyed_Nil]]]
  by (simp add: merge_events_def)

lemma merge_events_strict: "sorted_wrt (<) (map ev_seq (merge_events old new))"
proof -
  define vs where "vs = dict_values (by_seq new (by_seq old []))"
  have k: "seq_keyed (by_seq new (by_seq old []))" by (intro seq_keyed_by_seq) simp
  then have "distinct (map ev_seq vs)"
    unfolding vs_def seq_keyed_values(2) [OF k] by (simp add: seq_keyed_def)
  then have "distinct (map ev_seq (merge_events old new))"
    by (simp add: merge_events_def distinct_map flip: vs_def)
  moreover have "sorted (map ev_seq (merge_events old new))" by (simp add: merge_events_def)
  ultimately show ?thesis by (simp add: strict_sorted_iff)
qed

lemma by_seq_snoc: "by_seq (es @ [e]) d = dict_set (ev_seq e) e (by_seq es d)"
  by (simp add: by_seq_def)

lemma by_seq_get: "dict_get (by_seq es d) k = (case dict_get (by_seq es []) k of None \<Rightarrow> dict_get d k | r \<Rightarrow> r)"
proof (induction es rule: rev_induct)
  case (snoc e es)
  then show ?case unfolding by_seq_snoc dict_get_set by simp
qed (simp add: by_seq_def)

lemma by_seq_strict:
  assumes "sorted_wrt (<) (map ev_seq es)"
  shows "dict_get (by_seq es []) k = Some e \<longleftrightarrow> e \<in> set es \<and> ev_seq e = k"
  using assms
proof (induction es rule: rev_induct)
  case (snoc x es)
  then have "\<forall>y \<in> set es. ev_seq y < ev_seq x" by (auto simp: sorted_wrt_append)
  with snoc show ?case by (auto simp: by_seq_def py_dict sorted_wrt_append)
qed (simp add: by_seq_def)

text \<open>A reference: the two-way merge of ordered lists, the second list winning.\<close>

fun merge_two :: "event list \<Rightarrow> event list \<Rightarrow> event list" where
  "merge_two [] ys = ys"
| "merge_two xs [] = xs"
| "merge_two (x # xs) (y # ys) =
     (if ev_seq x < ev_seq y then x # merge_two xs (y # ys)
      else if ev_seq x = ev_seq y then y # merge_two xs ys
      else y # merge_two (x # xs) ys)"

lemma merge_two_correct:
  assumes "sorted_wrt (<) (map ev_seq xs)" and "sorted_wrt (<) (map ev_seq ys)"
  shows "set (merge_two xs ys) = {x \<in> set xs. ev_seq x \<notin> ev_seq ` set ys} \<union> set ys \<and>
    sorted_wrt (<) (map ev_seq (merge_two xs ys))"
  using assms
proof (induction xs ys rule: merge_two.induct)
  case merge: (3 x xs y ys)
  from merge(4,5) have above: "\<forall>z \<in> set xs. ev_seq x < ev_seq z" "\<forall>z \<in> set ys. ev_seq y < ev_seq z"
    and tails: "sorted_wrt (<) (map ev_seq xs)" "sorted_wrt (<) (map ev_seq ys)" by simp_all
  consider "ev_seq x < ev_seq y" | "ev_seq x = ev_seq y" | "ev_seq y < ev_seq x" by linarith
  then show ?case
  proof cases
    case 1
    from merge(1) [OF 1 tails(1) merge(5)] 1 above show ?thesis by auto
  next
    case 2
    from merge(2) [OF _ 2 tails] 2 above show ?thesis by auto
  next
    case 3
    then have n: "\<not> ev_seq x < ev_seq y" "ev_seq x \<noteq> ev_seq y" by simp_all

    from merge(3) [OF n merge(4) tails(2)] 3 above show ?thesis by auto
  qed
qed auto

lemma strict_ext:
  assumes "sorted_wrt (<) (map ev_seq xs)" and "sorted_wrt (<) (map ev_seq ys)" and "set xs = set ys"
  shows "xs = ys"
  using assms by (intro map_sorted_distinct_set_unique [of ev_seq]) (auto simp: strict_sorted_iff distinct_map)

lemma merge_events_merge_two:
  assumes "sorted_wrt (<) (map ev_seq xs)" and "sorted_wrt (<) (map ev_seq ys)"
  shows "merge_events xs ys = merge_two xs ys"
proof (rule strict_ext [OF merge_events_strict merge_two_correct [OF assms, THEN conjunct2]])
  have "e \<in> set (merge_events xs ys) \<longleftrightarrow> e \<in> set (merge_two xs ys)" for e
  proof -
    have "e \<in> set (merge_events xs ys) \<longleftrightarrow>
        e \<in> set ys \<or> dict_get (by_seq ys []) (ev_seq e) = None \<and> e \<in> set xs"
      unfolding merge_events_iff by_seq_get [of ys "by_seq xs []"]
      using by_seq_strict [OF assms(2), of "ev_seq e" e] by_seq_strict [OF assms(1), of "ev_seq e" e]
      by (cases "dict_get (by_seq ys []) (ev_seq e)") auto
    also have "dict_get (by_seq ys []) (ev_seq e) = None \<longleftrightarrow> ev_seq e \<notin> ev_seq ` set ys"
      using by_seq_strict [OF assms(2), of "ev_seq e"]
      by (cases "dict_get (by_seq ys []) (ev_seq e)") (simp_all, (metis imageE imageI)+)
    finally show ?thesis by (auto simp: merge_two_correct [OF assms])
  qed
  then show "set (merge_events xs ys) = set (merge_two xs ys)" by blast
qed

subsection \<open>The merged histories\<close>

text \<open>The file at \<open>p\<close> belongs to the process the report shows for rank \<open>r\<close>.\<close>

definition same_process :: "report \<Rightarrow> int \<Rightarrow> header \<Rightarrow> bool" where
  "same_process rep r h \<longleftrightarrow> hd_rank h = r \<and> (\<exists>d. dict_get (rp_ranks rep) r = Some d \<and> hd_pid h = rr_pid d)"

definition history_of :: "full_table \<Rightarrow> int \<times> int \<Rightarrow> event option" where
  "history_of full = (\<lambda>(r, s). dict_get (by_seq (dict_list full r) []) s)"

definition file_event :: "file_reads \<Rightarrow> report \<Rightarrow> path \<Rightarrow> int \<times> int \<Rightarrow> event option" where
  "file_event fs rep p = (\<lambda>(r, s). case read_events fs p of
     Inl e \<Rightarrow> None
   | Inr (h, ev) \<Rightarrow> if same_process rep r h then dict_get (by_seq ev []) s else None)"

lemma merge_into_list:
  "dict_list (merge_into rep h ev full) r =
    (if same_process rep r h then merge_events (dict_list full r) ev else dict_list full r)"
  by (auto simp: merge_into_def same_process_def dict_list_def py_dict split: option.split)

lemma history_of_merge:
  "history_of (merge_into rep h ev full) (r, s) =
    (if same_process rep r h
     then case dict_get (by_seq ev []) s of None \<Rightarrow> history_of full (r, s) | x \<Rightarrow> x
     else history_of full (r, s))"
proof -
  let ?d = "by_seq ev (by_seq (dict_list full r) [])"
  have "dict_get (by_seq (merge_events (dict_list full r) ev) []) s = Some e \<longleftrightarrow> dict_get ?d s = Some e" for e
  proof -
    have k: "seq_keyed ?d" by (intro seq_keyed_by_seq) simp
    then have "dict_get ?d s = Some e \<Longrightarrow> ev_seq e = s" unfolding seq_keyed_def by blast
    then show ?thesis
      using by_seq_strict [OF merge_events_strict, of "dict_list full r" ev s e]
        merge_events_iff [of e "dict_list full r" ev] by auto
  qed
  then have "dict_get (by_seq (merge_events (dict_list full r) ev) []) s = dict_get ?d s"
    by (metis option.exhaust)
  then show ?thesis
    using by_seq_get [of ev "by_seq (dict_list full r) []" s]
    by (simp add: history_of_def merge_into_list split: option.split)
qed

interpretation histories: last_write "\<lambda>p full. snd (full_step fs rep p full)" history_of
  "\<lambda>p k. map_option Some (file_event fs rep p k)" for fs rep
proof
  fix p full and k :: "int \<times> int"
  obtain r s where k: "k = (r, s)" by force
  show "history_of (snd (full_step fs rep p full)) k =
      (case map_option Some (file_event fs rep p k) of None \<Rightarrow> history_of full k | Some x \<Rightarrow> x)"
    by (auto simp: full_step_def file_event_def history_of_merge k split: sum.split option.split)
qed

lemma full_events_fold: "full_events fs rep paths = (None, fold (\<lambda>p full. snd (full_step fs rep p full)) paths [])"
proof -
  have "full_step fs rep p = (\<lambda>full. (None, snd (full_step fs rep p full)))" for p
    by (auto simp: full_step_def fun_eq_iff read_events_caught split: sum.split)
  then have "map (full_step fs rep) paths = map (\<lambda>p full. (None, snd (full_step fs rep p full))) paths"
    by (intro map_cong refl)
  then show ?thesis
    unfolding full_events_def by (simp only: run_ops_pure [of "\<lambda>p full. snd (full_step fs rep p full)"])
qed

lemma full_list_strict:
  "sorted_wrt (<) (map ev_seq (dict_list full r)) \<Longrightarrow>
    sorted_wrt (<) (map ev_seq (dict_list (snd (full_step fs rep p full)) r))"
  by (auto simp: full_step_def merge_into_list merge_events_strict split: sum.split)

lemma full_events_strict: "sorted_wrt (<) (map ev_seq (dict_list (snd (full_events fs rep paths)) r))"
proof -
  have "sorted_wrt (<) (map ev_seq (dict_list full r)) \<Longrightarrow> sorted_wrt (<) (map ev_seq (dict_list
      (fold (\<lambda>p full. snd (full_step fs rep p full)) paths full) r))" for full
    by (induction paths arbitrary: full) (simp_all add: full_list_strict)
  from this [of "[]"] show ?thesis by (simp add: full_events_fold dict_list_def)
qed

lemma full_events_history:
  "e \<in> set (dict_list (snd (full_events fs rep paths)) r) \<longleftrightarrow>
    history_of (snd (full_events fs rep paths)) (r, ev_seq e) = Some e"
  using by_seq_strict [OF full_events_strict] by (simp add: history_of_def)

lemma full_events_last:
  "e \<in> set (dict_list (snd (full_events fs rep paths)) r) \<longleftrightarrow>
    (\<exists>pre p post. paths = pre @ p # post \<and> file_event fs rep p (r, ev_seq e) = Some e \<and>
      (\<forall>q \<in> set post. file_event fs rep q (r, ev_seq e) = None))"
proof -
  have "history_of [] (r, ev_seq e) = None" by (simp add: history_of_def dict_list_def by_seq_def)
  from histories.get_fold_Some_iff [OF this, of fs rep paths e]
  have "history_of (snd (full_events fs rep paths)) (r, ev_seq e) = Some e \<longleftrightarrow>
    (\<exists>pre p post. paths = pre @ p # post \<and> file_event fs rep p (r, ev_seq e) = Some e \<and>
      (\<forall>q \<in> set post. file_event fs rep q (r, ev_seq e) = None))"
    by (simp add: full_events_fold)
  then show ?thesis unfolding full_events_history .
qed

lemma file_event_iff:
  assumes "read_events fs p = Inr (h, ev)"
  shows "file_event fs rep p (r, s) = Some e \<longleftrightarrow> same_process rep r h \<and> e \<in> set ev \<and> ev_seq e = s"
  using by_seq_strict [OF read_events_strict [OF assms]] assms by (simp add: file_event_def)

text \<open>Every event of a file of the process is there, under its sequence number.\<close>

lemma full_events_cover:
  assumes "p \<in> set paths" and "read_events fs p = Inr (h, ev)" and "same_process rep r h" and "e \<in> set ev"
  shows "\<exists>x \<in> set (dict_list (snd (full_events fs rep paths)) r). ev_seq x = ev_seq e"
proof -
  from assms file_event_iff [OF assms(2)] have "file_event fs rep p (r, ev_seq e) = Some e" by simp
  with assms(1) have "\<exists>p \<in> set paths. file_event fs rep p (r, ev_seq e) \<noteq> None" by (metis option.distinct(1))
  from split_list_last_prop [OF this] obtain pre q post x
    where q: "paths = pre @ q # post" "file_event fs rep q (r, ev_seq e) = Some x"
      "\<forall>y \<in> set post. file_event fs rep y (r, ev_seq e) = None"
    by auto
  then obtain h' ev' where r: "read_events fs q = Inr (h', ev')"
    by (auto simp: file_event_def split: sum.splits)
  from file_event_iff [OF r] q(2) have x: "ev_seq x = ev_seq e" by simp
  have "\<exists>pre p post. paths = pre @ p # post \<and> file_event fs rep p (r, ev_seq x) = Some x \<and>
      (\<forall>q \<in> set post. file_event fs rep q (r, ev_seq x) = None)"
    using q x by (intro exI [of _ pre] exI [of _ q] exI [of _ post]) simp
  then show ?thesis unfolding full_events_last [symmetric] using x by blast
qed

end
