(* ===== verification/Output_Properties.thy ===== *)
theory Output_Properties
  imports Report_Output Sample_Runs
begin

text \<open>
  What the written report promises: the merged event history of every rank, which failures can
  stop the writing, and that nothing the analysis rests on is missing from the listing.
\<close>

text \<open>C17: The history shown for a rank is strictly ordered and is exactly the union of the events of
  all snapshot files of that process: where two files hold the same sequence number, the file later
  in the list wins.\<close>

theorem full_history_exact:
  assumes "full_events fs rep paths = (None, full)" and "dict_get (rp_ranks rep) r = Some d"
  shows "sorted_wrt (<) (map ev_seq (dict_list full r)) \<and>
    (e \<in> set (dict_list full r) \<longleftrightarrow>
      (\<exists>pre p post h ev. paths = pre @ p # post \<and> read_events fs p = Inr (h, ev) \<and>
        hd_rank h = r \<and> hd_pid h = rr_pid d \<and> e \<in> set ev \<and>
        (\<forall>q \<in> set post. \<forall>h' ev'. read_events fs q = Inr (h', ev') \<longrightarrow> hd_rank h' = r \<longrightarrow>
          hd_pid h' = rr_pid d \<longrightarrow> ev_seq e \<notin> ev_seq ` set ev')))"
proof
  have full: "full = snd (full_events fs rep paths)" using assms(1) by simp
  have same: "same_process rep r h \<longleftrightarrow> hd_rank h = r \<and> hd_pid h = rr_pid d" for h
    using assms(2) by (simp add: same_process_def)
  have here: "file_event fs rep p (r, ev_seq e) = Some e \<longleftrightarrow>
      (\<exists>h ev. read_events fs p = Inr (h, ev) \<and> hd_rank h = r \<and> hd_pid h = rr_pid d \<and> e \<in> set ev)" for p
  proof (cases "read_events fs p")
    case (Inr x)
    then obtain h ev where p: "read_events fs p = Inr (h, ev)" by (cases x) simp
    show ?thesis unfolding file_event_iff [OF p] same using p by auto
  qed (simp add: file_event_def)
  have gone: "file_event fs rep q (r, s) = None \<longleftrightarrow> (\<forall>h ev. read_events fs q = Inr (h, ev) \<longrightarrow> hd_rank h = r \<longrightarrow>
      hd_pid h = rr_pid d \<longrightarrow> s \<notin> ev_seq ` set ev)" for q s
  proof (cases "read_events fs q")
    case (Inr x)
    then obtain h ev where q: "read_events fs q = Inr (h, ev)" by (cases x) simp
    have "file_event fs rep q (r, s) = None \<longleftrightarrow> \<not> (\<exists>x. file_event fs rep q (r, s) = Some x)" by auto
    then show ?thesis unfolding file_event_iff [OF q] same using q by auto
  qed (simp add: file_event_def)
  show "sorted_wrt (<) (map ev_seq (dict_list full r))" unfolding full by (rule full_events_strict)
  show "e \<in> set (dict_list full r) \<longleftrightarrow>
      (\<exists>pre p post h ev. paths = pre @ p # post \<and> read_events fs p = Inr (h, ev) \<and>
        hd_rank h = r \<and> hd_pid h = rr_pid d \<and> e \<in> set ev \<and>
        (\<forall>q \<in> set post. \<forall>h' ev'. read_events fs q = Inr (h', ev') \<longrightarrow> hd_rank h' = r \<longrightarrow>
          hd_pid h' = rr_pid d \<longrightarrow> ev_seq e \<notin> ev_seq ` set ev'))"
    unfolding full full_events_last here gone by blast
qed

lemma sample_rank_report: "dict_get (rp_ranks sample_report) 1 = Some (report_for (sample_data 1))"
  using analyze_rank_iff [OF sample_analyze, of 1 "report_for (sample_data 1)"] sample_kept(2) by blast

lemma sample_report_pid: "rr_pid (report_for (sample_data 1)) = 77"
  by (simp add: report_for_def rank_report_of_def Let_def sample_data_def sample_header_def)

theorem full_history_exact_witness:
  "sample_event 1 1 ''REQUEST_BEGIN'' 0 4 0 0 0 \<in>
    set (dict_list (snd (full_events sample_fs sample_report sample_paths)) 1)"
proof -
  have f: "full_events sample_fs sample_report sample_paths =
      (None, snd (full_events sample_fs sample_report sample_paths))"
    by (simp add: full_events_fold)
  have "sample_paths = [sample_path 0] @ sample_path 1 # []" by simp
  moreover have "hd_rank (sample_header 1) = 1" "hd_pid (sample_header 1) = rr_pid (report_for (sample_data 1))"
    by (simp_all add: sample_report_pid) (simp_all add: sample_header_def)
  moreover have "sample_event 1 1 ''REQUEST_BEGIN'' 0 4 0 0 0 \<in> set (sample_events 1)"
    by (simp add: sample_events_def)
  ultimately show ?thesis
    unfolding full_history_exact [OF f sample_rank_report, THEN conjunct2] using sample_read(2)
    by (metis empty_iff list.set(1))
qed

text \<open>C18: Merging two ordered histories through a dictionary and a sort is the two-way merge of ordered
  lists in which the newer snapshot wins.\<close>

theorem merge_is_two_way:
  assumes "read_events fs p = Inr (h, old)" and "read_events fs q = Inr (h', new)"
  shows "merge_events old new = merge_two old new"
  using assms by (intro merge_events_merge_two read_events_strict)

theorem merge_is_two_way_witness:
  "merge_events (sample_events 1) (sample_events 0) = merge_two (sample_events 1) (sample_events 0)"
  using sample_read by (rule merge_is_two_way [rotated])

text \<open>The listing keeps what the analysis rests on: every event of the file that was kept for a
  rank appears, by its sequence number, among the events shown for that rank.\<close>

lemma listing_covers_analysis:
  assumes "analyze fs ord depth paths expected comm = Inr rep"
    and "full_events fs rep paths = (None, full)"
    and "kept fs paths r d" and "e \<in> set (rd_events d)"
  shows "\<exists>x \<in> set (shown_events full (r, report_for d)). ev_seq x = ev_seq e"
proof -
  from kept_read [OF assms(3)] obtain p where p: "p \<in> set paths" "read_events fs p = Inr (rd_header d, rd_events d)"
    by blast
  have "dict_get (rp_ranks rep) r = Some (report_for d)"
    using analyze_rank_iff [OF assms(1)] assms(3) by blast
  moreover have "rr_pid (report_for d) = hd_pid (rd_header d)"
    by (simp add: report_for_def rank_report_of_def Let_def)
  moreover have "hd_rank (rd_header d) = r" using assms(3) by (simp add: kept_def)
  ultimately have "same_process rep r (rd_header d)" by (simp add: same_process_def)
  from full_events_cover [OF p this assms(4)] assms(2)
  obtain x where x: "x \<in> set (dict_list full r)" "ev_seq x = ev_seq e" by auto
  then have "x \<in> set (shown_events full (r, report_for d))"
    by (auto simp: shown_events_def dict_list_def split: option.splits)
  with x(2) show ?thesis by blast
qed

text \<open>Writing the report fails exactly when the directory or one of the files cannot be written, or
  when a \<open>metadata.json\<close> is not a JSON object or its parsing raises what \<open>except\<close> does not catch;
  flight files that cannot be read any more never stop it.\<close>

lemma write_outputs_outcome:
  "fst (write_outputs show env rep paths) = None \<longleftrightarrow>
    oe_mkdir env = None \<and>
    (\<forall>n \<in> {''report.json'', ''report.txt'', ''trace.json'', ''events.txt''}. oe_write env n = None) \<and>
    (paths = [] \<or> oe_write env ''snapshots.txt'' = None \<and>
      (\<forall>p \<in> set paths. case oe_meta env (path_child (path_parent p) ''metadata.json'') of
         No_Meta \<Rightarrow> True | Meta_Error e \<Rightarrow> caught e | Meta j \<Rightarrow> (\<exists>d. j = JObj d)))"
proof -
  obtain full where full: "full_events (oe_fs env) rep paths = (None, full)" by (simp add: full_events_fold)
  have line: "(\<exists>r. snapshot_line show p m = Inr r) \<longleftrightarrow> (case m of No_Meta \<Rightarrow> True
      | Meta_Error e \<Rightarrow> caught e | Meta j \<Rightarrow> (\<exists>d. j = JObj d))" for p m
    by (auto simp: snapshot_line_def Let_def split: meta_file.split json.split)
  have lines: "(\<exists>ls. snapshot_lines show env paths = Inr ls) \<longleftrightarrow>
      (\<forall>p \<in> set paths. case oe_meta env (path_child (path_parent p) ''metadata.json'') of
         No_Meta \<Rightarrow> True | Meta_Error e \<Rightarrow> caught e | Meta j \<Rightarrow> (\<exists>d. j = JObj d))"
    unfolding snapshot_lines_def collect_Inr_iff line by simp
  show ?thesis
  proof (cases "oe_mkdir env = None \<and> oe_write env ''report.json'' = None \<and>
      oe_write env ''report.txt'' = None \<and> oe_write env ''trace.json'' = None \<and> oe_write env ''events.txt'' = None")
    case True
    then have "\<exists>d. write_outputs show env rep paths =
        (if paths = [] then (None, d) else case snapshot_lines show env paths of
           Inl e \<Rightarrow> (Some e, d) | Inr ls \<Rightarrow> out_write env ''snapshots.txt'' (text_of ls) d)"
      by (auto simp: write_outputs_def out_write_def [of env "''report.json''"] out_write_def [of env "''report.txt''"]
          out_write_def [of env "''trace.json''"] out_write_def [of env "''events.txt''"] full)
    then show ?thesis
      using True lines
      by (cases "snapshot_lines show env paths"; cases "paths = []"; cases "oe_write env ''snapshots.txt''")
        (auto simp: out_write_def)
  next
    case False
    then show ?thesis by (auto simp: write_outputs_def out_write_def full split: option.split)
  qed
qed

end
