(* ===== verification/Activity_Capture.thy ===== *)
theory Activity_Capture
  imports Py_World "HOL-Library.Sublist"
begin

text \<open>
  \<open>python/mspti_activity_capture.py\<close>: the in-process capture of msPTI activity records. Profiler
  callbacks put records into a bounded queue, the flush thread switches the two monitors and adds
  control records, the writer thread moves the queue to a file. The calls of the msPTI package and of
  the operating system are arguments; one call of a method is one step of its thread, and the
  threads interleave in any order.
\<close>

subsection \<open>Values\<close>

text \<open>An exception other than those handled by name: its class and its text.\<close>

type_synonym exc = "string \<times> string"

definition exc_text :: "exc \<Rightarrow> string" where
  "exc_text = (\<lambda>(name, text). name @ '': '' @ text)"

text \<open>What an msPTI call returns: an enum member or a plain value, with its printed form.\<close>

datatype pyobj = Enum json string | Plain json string

fun enum_value :: "pyobj \<Rightarrow> json" where
  "enum_value (Enum v t) = v"
| "enum_value (Plain v t) = v"

fun obj_text :: "pyobj \<Rightarrow> string" where
  "obj_text (Enum v t) = t"
| "obj_text (Plain v t) = t"

text \<open>\<open>x == 0\<close>.\<close>

fun is_zero :: "json \<Rightarrow> bool" where
  "is_zero (JInt n) = (n = 0)"
| "is_zero (JFloat x) = (x = 0)"
| "is_zero (JBool b) = (\<not> b)"
| "is_zero j = False"

definition success :: "pyobj \<Rightarrow> bool" where
  "success r = is_zero (enum_value r)"

text \<open>An activity record: each field is what reading and converting the attribute yields.\<close>

record activity =
  ac_start :: "exc + int"
  ac_end :: "exc + int"
  ac_device_id :: "exc + int"
  ac_stream_id :: "exc + int"
  ac_correlation_id :: "exc + int"
  ac_name :: "exc + string"
  ac_type :: "exc + string"
  ac_comm_name :: "exc + string"
  ac_alg_type :: "exc + string"
  ac_count :: "exc + int"
  ac_data_type :: "exc + pyobj"

text \<open>The fields of a dict display, evaluated in order.\<close>

fun fields :: "(string \<times> (exc + json)) list \<Rightarrow> exc + (string \<times> json) list" where
  "fields [] = Inr []"
| "fields ((k, v) # kvs) =
     (case v of Inl e \<Rightarrow> Inl e
      | Inr j \<Rightarrow> (case fields kvs of Inl e \<Rightarrow> Inl e | Inr d \<Rightarrow> Inr ((k, j) # d)))"

definition record_item :: "string \<Rightarrow> activity \<Rightarrow> exc + json" where
  "record_item kind data =
     (case ac_start data of
        Inl e \<Rightarrow> Inl e
      | Inr start \<Rightarrow>
          (case ac_end data of
             Inl e \<Rightarrow> Inl e
           | Inr end_ns \<Rightarrow>
               (let valid = start > 0 \<and> end_ns \<ge> start
                in map_sum id JObj (fields
                  ([(''kind'', Inr (JStr kind)), (''device_id'', map_sum id JInt (ac_device_id data)),
                    (''stream_id'', map_sum id JInt (ac_stream_id data)),
                    (''correlation_id'', map_sum id JInt (ac_correlation_id data)),
                    (''name'', map_sum id JStr (ac_name data)), (''start_ns'', Inr (JInt start)),
                    (''end_ns'', Inr (JInt end_ns)), (''timestamp_valid'', Inr (JBool valid)),
                    (''duration_ns'', Inr (if valid then JInt (end_ns - start) else JNull))] @
                   (if kind = ''kernel'' then [(''kernel_type'', map_sum id JStr (ac_type data))]
                    else [(''comm_name'', map_sum id JStr (ac_comm_name data)),
                          (''alg_type'', map_sum id JStr (ac_alg_type data)),
                          (''count'', map_sum id JInt (ac_count data)),
                          (''data_type'', map_sum id enum_value (ac_data_type data))]))))))"

subsection \<open>The shared state\<close>

datatype thread = Not_Started | Running | Exited

record capture_state =
  mc_interval_s :: rat
  mc_buffer_mb :: int
  mc_enable_file :: "string option"
  mc_queue_size :: nat
  mc_items :: "json list"
  mc_stop_requested :: bool
  mc_writer_done :: bool
  mc_flush_thread :: thread
  mc_writer_thread :: thread
  mc_started :: bool
  mc_monitor_active :: bool
  mc_transitions :: int
  mc_dropped :: int
  mc_callback_errors :: int
  mc_flush_errors :: int
  mc_written :: "(string, int) dict"
  mc_last_error :: "string option"
  mc_file :: "json list"
  mc_synced :: nat
  mc_lost :: "json list"
  mc_writer_failed :: bool
  mc_offered :: "json list"
  mc_kernel_on :: bool
  mc_comm_on :: bool

text \<open>
  The last fields are not attributes of the Python object: the lines of the output file, how many of
  them are durable, a record taken from the queue whose writing failed, whether the writer ended with
  an exception, everything that was offered to the queue, and whether each msPTI monitor may be
  delivering records: from a start that reported success to a stop that reported success. A stop that
  raises or returns a failure leaves it as it was.
\<close>

definition capture_init :: "rat \<Rightarrow> int \<Rightarrow> int \<Rightarrow> string option \<Rightarrow> py_error + capture_state" where
  "capture_init interval_s buffer_mb queue_size enable_file =
     (if interval_s \<le> 0 \<or> buffer_mb \<le> 0 \<or> queue_size \<le> 0
      then Inl (ValueError ''interval_s, buffer_mb and queue_size must be positive'')
      else Inr \<lparr>mc_interval_s = interval_s, mc_buffer_mb = buffer_mb, mc_enable_file = enable_file,
        mc_queue_size = nat queue_size, mc_items = [], mc_stop_requested = False,
        mc_writer_done = False, mc_flush_thread = Not_Started, mc_writer_thread = Not_Started,
        mc_started = False, mc_monitor_active = False, mc_transitions = 0, mc_dropped = 0,
        mc_callback_errors = 0, mc_flush_errors = 0, mc_written = [], mc_last_error = None,
        mc_file = [], mc_synced = 0, mc_lost = [], mc_writer_failed = False, mc_offered = [],
        mc_kernel_on = False, mc_comm_on = False\<rparr>)"

subsection \<open>Filling the queue\<close>

text \<open>\<open>put_nowait\<close> with the \<open>queue.Full\<close> handler.\<close>

definition put_control :: "json \<Rightarrow> capture_state \<Rightarrow> capture_state" where
  "put_control item s =
     (let s = s\<lparr>mc_offered := mc_offered s @ [item]\<rparr>
      in if length (mc_items s) < mc_queue_size s then s\<lparr>mc_items := mc_items s @ [item]\<rparr>
         else s\<lparr>mc_dropped := mc_dropped s + 1\<rparr>)"

definition set_error :: "string \<Rightarrow> exc \<Rightarrow> capture_state \<Rightarrow> capture_state" where
  "set_error what e s = s\<lparr>mc_last_error := Some (what @ '' '' @ exc_text e)\<rparr>"

definition enqueue :: "string \<Rightarrow> activity \<Rightarrow> capture_state \<Rightarrow> capture_state" where
  "enqueue kind data s =
     (case record_item kind data of
        Inr item \<Rightarrow> put_control item s
      | Inl e \<Rightarrow> set_error ''callback'' e (s\<lparr>mc_callback_errors := mc_callback_errors s + 1\<rparr>))"

subsection \<open>The flush thread\<close>

datatype enable_read = Enable_Text string | Enable_Missing | Enable_OSError exc | Enable_Raise exc

definition enabled_by_file :: "enable_read \<Rightarrow> capture_state \<Rightarrow> (exc + bool) \<times> capture_state" where
  "enabled_by_file r s =
     (case mc_enable_file s of
        None \<Rightarrow> (Inr True, s)
      | Some path \<Rightarrow>
          (case r of
             Enable_Missing \<Rightarrow> (Inr False, s)
           | Enable_OSError e \<Rightarrow> (Inr False, set_error ''enable file'' e s)
           | Enable_Raise e \<Rightarrow> (Inl e, s)
           | Enable_Text text \<Rightarrow>
               (let value = str_strip text
                in if value \<notin> {''0'', ''1''}
                   then (Inr False, s\<lparr>mc_last_error := Some (''enable file must contain 0 or 1: '' @ path)\<rparr>)
                   else (Inr (value = ''1''), s))))"

text \<open>What the calls of one round of the flush thread do.\<close>

record monitor_env =
  me_kernel_start :: "exc + pyobj"
  me_comm_start :: "exc + pyobj"
  me_kernel_stop :: "exc + pyobj"
  me_comm_stop :: "exc + pyobj"
  me_flush_all :: "exc + pyobj"
  me_enable :: enable_read
  me_time_ns :: int

definition control_state :: "monitor_env \<Rightarrow> bool \<Rightarrow> json" where
  "control_state env enabled = JObj [(''kind'', JStr ''capture_state''),
     (''host_time_ns'', JInt (me_time_ns env)), (''enabled'', JBool enabled)]"

definition runtime_error :: "string \<Rightarrow> pyobj \<Rightarrow> exc" where
  "runtime_error what r = (''RuntimeError'', what @ '' failed: '' @ obj_text r)"

definition start_monitors :: "monitor_env \<Rightarrow> capture_state \<Rightarrow> exc option \<times> capture_state" where
  "start_monitors env s =
     (case me_kernel_start env of
        Inl e \<Rightarrow> (Some e, s)
      | Inr r \<Rightarrow>
          if \<not> success r then (Some (runtime_error ''KernelMonitor.start'' r), s)
          else (let s = s\<lparr>mc_kernel_on := True\<rparr>
                in case me_comm_start env of
                  Inl e \<Rightarrow> (Some e, s)
                | Inr r \<Rightarrow>
                    if \<not> success r
                    then (case me_kernel_stop env of
                            Inl e \<Rightarrow> (Some e, s)
                          | Inr stopped \<Rightarrow> (Some (runtime_error ''CommunicationMonitor.start'' r),
                              s\<lparr>mc_kernel_on := \<not> success stopped\<rparr>))
                    else (None, s\<lparr>mc_comm_on := True, mc_monitor_active := True\<rparr>)))"

definition note_stop :: "string \<Rightarrow> pyobj \<Rightarrow> capture_state \<Rightarrow> capture_state" where
  "note_stop label r s =
     (if success r then s else s\<lparr>mc_last_error := Some (label @ '' stop returned '' @ obj_text r)\<rparr>)"

definition stop_monitors :: "monitor_env \<Rightarrow> capture_state \<Rightarrow> exc option \<times> capture_state" where
  "stop_monitors env s =
     (case me_kernel_stop env of
        Inl e \<Rightarrow> (Some e, s)
      | Inr r \<Rightarrow>
          (let s = note_stop ''kernel'' r (s\<lparr>mc_kernel_on := mc_kernel_on s \<and> \<not> success r\<rparr>)
           in case me_comm_stop env of
                Inl e \<Rightarrow> (Some e, s)
              | Inr r \<Rightarrow> (None, (note_stop ''communication'' r
                  (s\<lparr>mc_comm_on := mc_comm_on s \<and> \<not> success r\<rparr>))\<lparr>mc_monitor_active := False\<rparr>)))"

definition set_monitor_active ::
  "bool \<Rightarrow> monitor_env \<Rightarrow> capture_state \<Rightarrow> exc option \<times> capture_state" where
  "set_monitor_active enabled env s =
     (if enabled = mc_monitor_active s then (None, s)
      else case (if enabled then start_monitors env s else stop_monitors env s) of
        (Some e, s) \<Rightarrow> (Some e, s)
      | (None, s) \<Rightarrow> (None, put_control (control_state env enabled)
          (s\<lparr>mc_transitions := mc_transitions s + 1\<rparr>)))"

text \<open>\<open>flush_ok\<close> is \<open>None\<close> while no monitor is active.\<close>

definition flush_monitors :: "monitor_env \<Rightarrow> capture_state \<Rightarrow> exc option \<times> json \<times> capture_state" where
  "flush_monitors env s =
     (if \<not> mc_monitor_active s then (None, JNull, s)
      else case me_flush_all env of
        Inl e \<Rightarrow> (Some e, JNull, s)
      | Inr r \<Rightarrow>
          if success r then (None, JBool True, s)
          else (None, JBool False, s\<lparr>mc_flush_errors := mc_flush_errors s + 1,
                 mc_last_error := Some (''flush_all returned '' @ obj_text r)\<rparr>))"

definition flush_tick :: "monitor_env \<Rightarrow> json \<Rightarrow> capture_state \<Rightarrow> json" where
  "flush_tick env flush_ok s = JObj [(''kind'', JStr ''flush_tick''), (''host_time_ns'', JInt (me_time_ns env)),
     (''enabled'', JBool (mc_monitor_active s)), (''flush_ok'', flush_ok), (''dropped'', JInt (mc_dropped s))]"

definition flush_body :: "monitor_env \<Rightarrow> capture_state \<Rightarrow> exc option \<times> capture_state" where
  "flush_body env s =
     (case enabled_by_file (me_enable env) s of
        (Inl e, s) \<Rightarrow> (Some e, s)
      | (Inr enabled, s) \<Rightarrow>
          (case set_monitor_active enabled env s of
             (Some e, s) \<Rightarrow> (Some e, s)
           | (None, s) \<Rightarrow>
               (case flush_monitors env s of
                  (Some e, _, s) \<Rightarrow> (Some e, s)
                | (None, flush_ok, s) \<Rightarrow> (None, put_control (flush_tick env flush_ok s) s))))"

text \<open>One round of \<open>_flush_loop\<close>, or its end when a stop was requested.\<close>

definition flush_round :: "monitor_env \<Rightarrow> capture_state \<Rightarrow> capture_state" where
  "flush_round env s =
     (if \<not> mc_stop_requested s
      then (case flush_body env s of
              (None, s) \<Rightarrow> s
            | (Some e, s) \<Rightarrow> set_error ''monitor loop'' e (s\<lparr>mc_flush_errors := mc_flush_errors s + 1\<rparr>))
      else (let s' = (if mc_monitor_active s
                      then (case set_monitor_active False env s of
                              (None, s) \<Rightarrow> s | (Some e, s) \<Rightarrow> set_error ''final stop'' e s)
                      else s)
            in s'\<lparr>mc_flush_thread := Exited\<rparr>))"

subsection \<open>The writer thread\<close>

record writer_env =
  we_write :: "exc option"
  we_due :: bool
  we_sync :: "exc option"

definition item_kind :: "json \<Rightarrow> string" where
  "item_kind item = (case json_get ''kind'' item of Some (JStr k) \<Rightarrow> k | _ \<Rightarrow> [])"

definition count_up :: "string \<Rightarrow> (string, int) dict \<Rightarrow> (string, int) dict" where
  "count_up k d = dict_set k ((case dict_get d k of None \<Rightarrow> 0 | Some n \<Rightarrow> n) + 1) d"

definition writer_fail :: "exc \<Rightarrow> capture_state \<Rightarrow> capture_state" where
  "writer_fail e s = (set_error ''writer'' e s)\<lparr>mc_writer_thread := Exited, mc_writer_failed := True\<rparr>"

text \<open>Flush and \<open>fsync\<close> of everything written so far.\<close>

definition writer_sync :: "writer_env \<Rightarrow> capture_state \<Rightarrow> capture_state" where
  "writer_sync env s =
     (if we_due env \<or> mc_writer_done s
      then (case we_sync env of
              Some e \<Rightarrow> writer_fail e s
            | None \<Rightarrow> s\<lparr>mc_synced := length (mc_file s)\<rparr>)
      else s)"

definition writer_round :: "writer_env \<Rightarrow> capture_state \<Rightarrow> capture_state" where
  "writer_round env s =
     (if mc_writer_done s \<and> mc_items s = [] then s\<lparr>mc_writer_thread := Exited\<rparr>
      else case mc_items s of
        [] \<Rightarrow> writer_sync env s
      | item # rest \<Rightarrow>
          (case we_write env of
             Some e \<Rightarrow> writer_fail e (s\<lparr>mc_items := rest, mc_lost := mc_lost s @ [item]\<rparr>)
           | None \<Rightarrow> writer_sync env
               (s\<lparr>mc_items := rest, mc_file := mc_file s @ [item],
                  mc_written := count_up (item_kind item) (mc_written s)\<rparr>)))"

subsection \<open>Start, stop and summary\<close>

definition capture_start :: "exc + pyobj \<Rightarrow> capture_state \<Rightarrow> (py_error + exc) option \<times> capture_state" where
  "capture_start set_buffer_size s =
     (if mc_started s then (Some (Inl (RuntimeError ''capture already started'')), s)
      else if mc_writer_done s
      then (Some (Inl (RuntimeError ''capture has stopped; create a new instance'')), s)
      else case set_buffer_size of
        Inl e \<Rightarrow> (Some (Inr e), s)
      | Inr r \<Rightarrow>
          if \<not> success r then (Some (Inl (RuntimeError ''msPTI set_buffer_size failed'')), s)
          else (None, s\<lparr>mc_writer_thread := Running, mc_started := True, mc_flush_thread := Running\<rparr>))"

text \<open>
  \<open>stop\<close> in its three parts: requesting the stop, what happens when the wait for the flush thread
  ends, and what happens when the wait for the writer ends.
\<close>

definition stop_request :: "capture_state \<Rightarrow> capture_state" where
  "stop_request s = (if \<not> mc_started s then s else s\<lparr>mc_stop_requested := True\<rparr>)"

definition stop_flush_joined :: "capture_state \<Rightarrow> py_error option \<times> capture_state" where
  "stop_flush_joined s =
     (if mc_flush_thread s \<noteq> Exited
      then (Some (RuntimeError ''msPTI flush thread did not stop; monitor remains active''), s)
      else (None, s\<lparr>mc_writer_done := True\<rparr>))"

definition stop_writer_joined :: "capture_state \<Rightarrow> capture_state" where
  "stop_writer_joined s = s\<lparr>mc_started := False\<rparr>"

definition summary :: "string \<Rightarrow> int \<Rightarrow> capture_state \<Rightarrow> json" where
  "summary output pid s = JObj
     [(''output'', JStr output), (''pid'', JInt pid), (''interval_s'', JFloat (mc_interval_s s)),
      (''counts'', JObj (map (\<lambda>(k, n). (k, JInt n)) (mc_written s))),
      (''enable_file'', (case mc_enable_file s of None \<Rightarrow> JNull | Some p \<Rightarrow> JStr p)),
      (''monitor_active'', JBool (mc_monitor_active s)), (''transitions'', JInt (mc_transitions s)),
      (''dropped'', JInt (mc_dropped s)), (''callback_errors'', JInt (mc_callback_errors s)),
      (''flush_errors'', JInt (mc_flush_errors s)),
      (''last_error'', (case mc_last_error s of None \<Rightarrow> JNull | Some m \<Rightarrow> JStr m)),
      (''pipe_utilization'', JNull),
      (''pipe_utilization_note'', JStr (''msPTI 26.1 Python Kernel/CommunicationMonitor does not '' @
         ''expose AICore/MTE/Vector counters''))]"

text \<open>
  \<open>stop\<close> as a whole: \<open>wait_flush\<close> and \<open>wait_writer\<close> are what the other threads do while it waits for
  them; \<open>write_error\<close> is the error of writing the summary file.
\<close>

definition capture_stop ::
  "(capture_state \<Rightarrow> capture_state) \<Rightarrow> (capture_state \<Rightarrow> capture_state) \<Rightarrow> os_error option \<Rightarrow> string \<Rightarrow> int \<Rightarrow>
    capture_state \<Rightarrow> (py_error + json) \<times> capture_state" where
  "capture_stop wait_flush wait_writer write_error output pid s =
     (if \<not> mc_started s then (Inr (summary output pid s), s)
      else case stop_flush_joined (wait_flush (stop_request s)) of
        (Some e, s) \<Rightarrow> (Inl e, s)
      | (None, s) \<Rightarrow>
          (let s = stop_writer_joined (wait_writer s)
           in (case write_error of
                 Some e \<Rightarrow> Inl (raised e)
               | None \<Rightarrow> Inr (summary output pid s), s)))"

subsection \<open>The threads together\<close>

text \<open>
  \<open>capture_step\<close>: one call of a thread. A monitor that is on may deliver a record at any time; the
  threads run while they are alive; \<open>stop\<close> goes on when its waits end, by the thread's exit or by
  their time limit.
\<close>

inductive capture_step :: "(monitor_env \<Rightarrow> bool) \<Rightarrow> capture_state \<Rightarrow> capture_state \<Rightarrow> bool" for ok where
  kernel_record: "mc_kernel_on s \<Longrightarrow> capture_step ok s (enqueue ''kernel'' data s)"
| comm_record: "mc_comm_on s \<Longrightarrow> capture_step ok s (enqueue ''communication'' data s)"
| start: "capture_start r s = (None, s') \<Longrightarrow> capture_step ok s s'"
| flush: "mc_flush_thread s = Running \<Longrightarrow> ok env \<Longrightarrow> capture_step ok s (flush_round env s)"
| open_failed: "mc_writer_thread s = Running \<Longrightarrow> capture_step ok s (writer_fail e s)"
| writer: "mc_writer_thread s = Running \<Longrightarrow> capture_step ok s (writer_round wenv s)"
| request: "capture_step ok s (stop_request s)"
| joined: "mc_started s \<Longrightarrow> mc_stop_requested s \<Longrightarrow> stop_flush_joined s = (r, s') \<Longrightarrow> capture_step ok s s'"
| stopped: "mc_started s \<Longrightarrow> mc_writer_done s \<Longrightarrow> capture_step ok s (stop_writer_joined s)"

inductive capture_reach :: "(monitor_env \<Rightarrow> bool) \<Rightarrow> capture_state \<Rightarrow> bool" for ok where
  create: "capture_init i b q f = Inr s \<Longrightarrow> capture_reach ok s"
| step: "capture_reach ok s \<Longrightarrow> capture_step ok s s' \<Longrightarrow> capture_reach ok s'"

text \<open>What was accepted, in the order of acceptance.\<close>

definition accepted :: "capture_state \<Rightarrow> json list" where
  "accepted s = mc_file s @ mc_lost s @ mc_items s"

definition accounts :: "capture_state \<Rightarrow> bool" where
  "accounts s \<longleftrightarrow> subseq (accepted s) (mc_offered s) \<and>
     int (length (mc_offered s)) = int (length (accepted s)) + mc_dropped s \<and>
     length (mc_items s) \<le> mc_queue_size s \<and> length (mc_lost s) \<le> 1 \<and> mc_synced s \<le> length (mc_file s)"

definition life :: "capture_state \<Rightarrow> bool" where
  "life s \<longleftrightarrow> (\<not> mc_started s \<and> \<not> mc_writer_done s \<longrightarrow>
       mc_writer_thread s = Not_Started \<and> mc_flush_thread s = Not_Started) \<and>
     (mc_writer_done s \<longrightarrow> mc_flush_thread s = Exited) \<and>
     (mc_writer_failed s \<longrightarrow> mc_writer_thread s = Exited) \<and> (mc_lost s \<noteq> [] \<longrightarrow> mc_writer_failed s) \<and>
     (mc_writer_thread s = Exited \<longrightarrow> mc_writer_failed s \<or> mc_writer_done s)"

subsection \<open>What the flush thread does to the queue\<close>

text \<open>Same queue, file and life cycle; counters, texts and monitors may differ.\<close>

definition same_queue :: "capture_state \<Rightarrow> capture_state \<Rightarrow> bool" where
  "same_queue s t \<longleftrightarrow> mc_offered t = mc_offered s \<and> mc_items t = mc_items s \<and> mc_dropped t = mc_dropped s \<and>
     mc_queue_size t = mc_queue_size s \<and> mc_file t = mc_file s \<and> mc_lost t = mc_lost s \<and>
     mc_synced t = mc_synced s \<and> mc_writer_failed t = mc_writer_failed s \<and>
     mc_writer_thread t = mc_writer_thread s \<and> mc_writer_done t = mc_writer_done s \<and>
     mc_started t = mc_started s \<and> mc_stop_requested t = mc_stop_requested s \<and>
     mc_flush_thread t = mc_flush_thread s"

inductive emits :: "capture_state \<Rightarrow> capture_state \<Rightarrow> bool" for s where
  same: "same_queue s t \<Longrightarrow> emits s t"
| put: "emits s t \<Longrightarrow> same_queue (put_control item t) u \<Longrightarrow> emits s u"

lemma same_queue_refl [simp]: "same_queue s s"
  by (simp add: same_queue_def)

lemma same_queue_trans: "same_queue s t \<Longrightarrow> same_queue t u \<Longrightarrow> same_queue s u"
  by (simp add: same_queue_def)

lemma same_queue_put: "same_queue s t \<Longrightarrow> same_queue (put_control item s) (put_control item t)"
  by (simp add: same_queue_def put_control_def Let_def)

lemma emits_trans: "emits t u \<Longrightarrow> emits s t \<Longrightarrow> emits s u"
proof (induction rule: emits.induct)
  case (same u)
  from same(2) show ?case
  proof cases
    case 1: same
    from emits.same [OF same_queue_trans [OF 1 same(1)]] show ?thesis .
  next
    case 2: (put v item)
    from emits.put [OF 2(1) same_queue_trans [OF 2(2) same(1)]] show ?thesis .
  qed
next
  case (put v item u)
  from emits.put [OF put(3) [OF put(4)] put(2)] show ?case .
qed

lemma emits_put: "emits s t \<Longrightarrow> emits s (put_control item t)"
  by (rule emits.put [OF _ same_queue_refl])

lemma emits_same: "emits s t \<Longrightarrow> same_queue t u \<Longrightarrow> emits s u"
  by (rule emits_trans [OF emits.same])

lemmas queue_defs = same_queue_def set_error_def note_stop_def

lemma enabled_by_file_same: "enabled_by_file r s = (x, t) \<Longrightarrow> same_queue s t"
  by (auto simp: enabled_by_file_def queue_defs Let_def split: option.splits enable_read.splits if_splits)

lemma start_monitors_same: "start_monitors env s = (x, t) \<Longrightarrow> same_queue s t"
  by (auto simp: start_monitors_def queue_defs Let_def split: sum.splits if_splits)

lemma stop_monitors_same: "stop_monitors env s = (x, t) \<Longrightarrow> same_queue s t"
  by (auto simp: stop_monitors_def queue_defs Let_def split: sum.splits if_splits)

lemma flush_monitors_same: "flush_monitors env s = (x, j, t) \<Longrightarrow> same_queue s t"
  by (auto simp: flush_monitors_def queue_defs split: sum.splits if_splits)

lemma set_monitor_active_emits:
  assumes "set_monitor_active enabled env s = (x, t)"
  shows "emits s t"
proof (cases "enabled = mc_monitor_active s")
  case True
  with assms show ?thesis by (simp add: set_monitor_active_def emits.same)
next
  case False
  obtain r u where u: "(if enabled then start_monitors env s else stop_monitors env s) = (r, u)" by force
  then have su: "same_queue s u" by (auto split: if_splits dest: start_monitors_same stop_monitors_same)
  show ?thesis
  proof (cases r)
    case None
    have "same_queue s (u\<lparr>mc_transitions := mc_transitions u + 1\<rparr>)" using su by (simp add: same_queue_def)
    with assms u None False show ?thesis by (auto simp: set_monitor_active_def intro: emits_put emits.same)
  next
    case (Some e)
    with assms u False su show ?thesis by (auto simp: set_monitor_active_def intro: emits.same)
  qed
qed

lemma flush_body_emits:
  assumes "flush_body env s = (x, t)"
  shows "emits s t"
proof -
  obtain a u where u: "enabled_by_file (me_enable env) s = (a, u)" by force
  show ?thesis
  proof (cases a)
    case (Inl e)
    with assms u enabled_by_file_same [OF u] show ?thesis by (auto simp: flush_body_def intro: emits.same)
  next
    case (Inr enabled)
    obtain b v where v: "set_monitor_active enabled env u = (b, v)" by force
    have sv: "emits s v"
      using emits_trans [OF set_monitor_active_emits [OF v] emits.same [OF enabled_by_file_same [OF u]]] .
    obtain c j w where w: "flush_monitors env v = (c, j, w)" by (metis prod_cases3)
    have sw: "emits s w" using emits_same [OF sv flush_monitors_same [OF w]] .
    show ?thesis
    proof (cases b)
      case None
      with assms u Inr v w sw show ?thesis
        by (cases c) (auto simp: flush_body_def intro: emits_put)
    next
      case (Some e)
      with assms u Inr v sv show ?thesis by (simp add: flush_body_def)
    qed
  qed
qed

lemma flush_round_emits:
  "\<exists>t. emits s t \<and> (\<not> mc_stop_requested s \<and> flush_round env s = t \<or>
    mc_stop_requested s \<and> flush_round env s = t\<lparr>mc_flush_thread := Exited\<rparr>)"
proof (cases "mc_stop_requested s")
  case False
  obtain x t where b: "flush_body env s = (x, t)" by force
  from flush_body_emits [OF b] have t: "emits s t" .
  have "same_queue t (set_error ''monitor loop'' e (t\<lparr>mc_flush_errors := mc_flush_errors t + 1\<rparr>))" for e
    by (simp add: queue_defs)
  with t b False show ?thesis by (cases x) (auto simp: flush_round_def intro: emits_same)
next
  case True
  obtain x t where b: "set_monitor_active False env s = (x, t)" by force
  from set_monitor_active_emits [OF b] have t: "emits s t" .
  have e: "same_queue t (set_error ''final stop'' e t)" for e by (simp add: queue_defs)
  have r: "flush_round env s = (if mc_monitor_active s
      then (case x of None \<Rightarrow> t | Some e \<Rightarrow> set_error ''final stop'' e t) else s)\<lparr>mc_flush_thread := Exited\<rparr>"
    using True b by (simp add: flush_round_def Let_def)
  have "emits s (if mc_monitor_active s then (case x of None \<Rightarrow> t | Some e \<Rightarrow> set_error ''final stop'' e t) else s)"
    using t emits_same [OF t e] by (simp add: emits.same split: option.split)
  with True r show ?thesis by blast
qed

subsection \<open>The accounts are kept\<close>

lemma accounts_same: "accounts s \<Longrightarrow> same_queue s t \<Longrightarrow> accounts t"
  by (simp add: accounts_def accepted_def same_queue_def)

lemma accounts_put:
  assumes "accounts s"
  shows "accounts (put_control item s)"
proof -
  have "subseq (accepted s) (mc_offered s @ [item])" "subseq (accepted s @ [item]) (mc_offered s @ [item])"
    using assms list_emb_append_mono [of "(=)" "accepted s" "mc_offered s" "[]" "[item]"]
      list_emb_append_mono [of "(=)" "accepted s" "mc_offered s" "[item]" "[item]"]
    by (simp_all add: accounts_def)
  with assms show ?thesis by (simp add: accounts_def accepted_def put_control_def Let_def)
qed

lemma accounts_emits: "emits s t \<Longrightarrow> accounts s \<Longrightarrow> accounts t"
  by (induction rule: emits.induct) (blast intro: accounts_same accounts_put)+

lemma accounts_enqueue:
  assumes "accounts s"
  shows "accounts (enqueue kind data s)"
proof (cases "record_item kind data")
  case (Inl e)
  have "same_queue s (enqueue kind data s)" using Inl by (simp add: enqueue_def queue_defs)
  with assms show ?thesis by (rule accounts_same)
next
  case (Inr item)
  with assms accounts_put show ?thesis by (simp add: enqueue_def)
qed

lemma writer_sync_frame [simp]:
  "mc_offered (writer_sync env s) = mc_offered s" "mc_items (writer_sync env s) = mc_items s"
  "mc_dropped (writer_sync env s) = mc_dropped s" "mc_queue_size (writer_sync env s) = mc_queue_size s"
  "mc_file (writer_sync env s) = mc_file s" "mc_lost (writer_sync env s) = mc_lost s"
  "mc_kernel_on (writer_sync env s) = mc_kernel_on s" "mc_comm_on (writer_sync env s) = mc_comm_on s"
  "mc_monitor_active (writer_sync env s) = mc_monitor_active s"
  by (simp_all add: writer_sync_def writer_fail_def set_error_def split: option.split)

lemma accounts_sync: "accounts s \<Longrightarrow> accounts (writer_sync env s)"
proof -
  have "mc_synced (writer_sync env s) = mc_synced s \<or> mc_synced (writer_sync env s) = length (mc_file s)"
    by (simp add: writer_sync_def writer_fail_def set_error_def split: option.split)
  then show "accounts s \<Longrightarrow> accounts (writer_sync env s)" by (auto simp: accounts_def accepted_def)
qed

lemma accounts_writer:
  assumes "accounts s" and "mc_lost s = []"
  shows "accounts (writer_round env s)"
proof -
  have "accounts (s\<lparr>mc_items := rest, mc_file := mc_file s @ [item],
      mc_written := count_up (item_kind item) (mc_written s)\<rparr>)" if "mc_items s = item # rest" for item rest
    using assms that by (simp add: accounts_def accepted_def)
  moreover have "accounts (s\<lparr>mc_items := rest, mc_lost := mc_lost s @ [item]\<rparr>)"
    if "mc_items s = item # rest" for item rest
    using assms that by (simp add: accounts_def accepted_def)
  moreover have "accounts (s\<lparr>mc_writer_thread := Exited\<rparr>)" using assms by (simp add: accounts_def accepted_def)
  moreover have "accounts (writer_fail e t)" if "accounts t" for e t
    using that by (simp add: accounts_def accepted_def writer_fail_def set_error_def)
  ultimately show ?thesis
    using assms(1) accounts_sync by (auto simp: writer_round_def split: list.split option.split)
qed

lemma accounts_step:
  assumes "capture_step ok s t" and "accounts s" and "life s"
  shows "accounts t"
  using assms(1)
proof cases
  case (start r)
  then show ?thesis using assms(2)
    by (auto simp: capture_start_def accounts_def accepted_def split: if_splits sum.splits)
next
  case (joined r)
  then show ?thesis using assms(2)
    by (auto simp: stop_flush_joined_def accounts_def accepted_def split: if_splits)
next
  case (writer wenv)
  then have "mc_lost s = []" using assms(3) by (auto simp: life_def)
  with accounts_writer [OF assms(2)] writer(1) show ?thesis by simp
next
  case (flush env)
  from flush_round_emits [of s env] obtain u where "emits s u"
    "t = u \<or> t = u\<lparr>mc_flush_thread := Exited\<rparr>" using flush(1) by blast
  with accounts_emits [OF _ assms(2), of u] show ?thesis by (auto simp: accounts_def accepted_def)
next
  case (open_failed e)
  then show ?thesis using assms(2) by (simp add: writer_fail_def set_error_def accounts_def accepted_def)
next
  case request
  then show ?thesis using assms(2) by (simp add: stop_request_def accounts_def accepted_def)
next
  case stopped
  then show ?thesis using assms(2) by (simp add: stop_writer_joined_def accounts_def accepted_def)
qed (use assms(2) accounts_enqueue in simp_all)

subsection \<open>The life cycle\<close>

lemma same_queue_life:
  "emits s t \<Longrightarrow> mc_writer_thread t = mc_writer_thread s \<and> mc_writer_done t = mc_writer_done s \<and>
    mc_started t = mc_started s \<and> mc_writer_failed t = mc_writer_failed s \<and> mc_lost t = mc_lost s \<and>
    mc_file t = mc_file s \<and> mc_synced t = mc_synced s \<and> mc_flush_thread t = mc_flush_thread s"
  by (induction rule: emits.induct) (auto simp: same_queue_def put_control_def Let_def)

lemma put_control_frame [simp]:
  "mc_flush_thread (put_control item s) = mc_flush_thread s" "mc_kernel_on (put_control item s) = mc_kernel_on s"
  "mc_comm_on (put_control item s) = mc_comm_on s" "mc_monitor_active (put_control item s) = mc_monitor_active s"
  "mc_stop_requested (put_control item s) = mc_stop_requested s"
  by (simp_all add: put_control_def Let_def)

lemma enqueue_frame:
  "mc_flush_thread (enqueue kind data s) = mc_flush_thread s"
  "mc_writer_thread (enqueue kind data s) = mc_writer_thread s"
  "mc_writer_done (enqueue kind data s) = mc_writer_done s" "mc_started (enqueue kind data s) = mc_started s"
  "mc_writer_failed (enqueue kind data s) = mc_writer_failed s" "mc_lost (enqueue kind data s) = mc_lost s"
  "mc_kernel_on (enqueue kind data s) = mc_kernel_on s" "mc_comm_on (enqueue kind data s) = mc_comm_on s"
  "mc_monitor_active (enqueue kind data s) = mc_monitor_active s"
  by (simp_all add: enqueue_def put_control_def set_error_def Let_def split: sum.split)

lemma life_fail: "life s \<Longrightarrow> mc_started s \<or> mc_writer_done s \<Longrightarrow> life (writer_fail e s)"
  by (auto simp: life_def writer_fail_def set_error_def)

lemma life_running: "life s \<Longrightarrow> mc_writer_thread s = Running \<Longrightarrow> mc_started s \<or> mc_writer_done s"
  by (auto simp: life_def)

lemma life_sync: "life s \<Longrightarrow> mc_writer_thread s = Running \<Longrightarrow> life (writer_sync env s)"
proof -
  assume l: "life s" "mc_writer_thread s = Running"
  from life_fail [OF l(1) life_running [OF l]] have "life (writer_fail e s)" for e .
  moreover have "life (s\<lparr>mc_synced := n\<rparr>)" for n using l(1) by (simp add: life_def)
  ultimately show ?thesis using l(1) by (simp add: writer_sync_def split: option.split)
qed

lemma life_writer:
  assumes "life s" and "mc_writer_thread s = Running"
  shows "life (writer_round env s)"
proof -
  from life_running [OF assms] assms have run: "mc_started s \<or> mc_writer_done s" "\<not> mc_writer_failed s" "mc_lost s = []"
    by (auto simp: life_def)
  have "life (s\<lparr>mc_items := rest, mc_file := f, mc_written := w\<rparr>)" for rest f w
    using assms by (auto simp: life_def)
  then have "life (writer_sync env (s\<lparr>mc_items := rest, mc_file := f, mc_written := w\<rparr>))" for rest f w
    using assms(2) by (intro life_sync) simp_all
  moreover have "life (writer_fail e (s\<lparr>mc_items := rest, mc_lost := l\<rparr>))" for e rest l
    using assms run by (auto simp: life_def writer_fail_def set_error_def)
  moreover have "life (s\<lparr>mc_writer_thread := Exited\<rparr>)" if "mc_writer_done s"
    using assms that by (auto simp: life_def)
  ultimately show ?thesis
    using life_sync [OF assms] by (simp add: writer_round_def split: list.split option.split)
qed

lemma life_step:
  assumes "capture_step ok s t" and "life s"
  shows "life t"
  using assms(1)
proof cases
  case (start r)
  then show ?thesis using assms(2)
    by (auto simp: capture_start_def life_def split: if_splits sum.splits)
next
  case (joined r)
  then show ?thesis using assms(2) by (auto simp: stop_flush_joined_def life_def split: if_splits)
next
  case (writer wenv)
  with life_writer [OF assms(2)] show ?thesis by simp
next
  case (flush env)
  from flush_round_emits [of s env] obtain u where "emits s u"
    "t = u \<or> t = u\<lparr>mc_flush_thread := Exited\<rparr>" using flush(1) by blast
  with same_queue_life [of s u] assms(2) flush(2) show ?thesis by (auto simp: life_def)
next
  case (open_failed e)
  then show ?thesis using assms(2) by (auto simp: writer_fail_def set_error_def life_def)
next
  case request
  then show ?thesis using assms(2) by (simp add: stop_request_def life_def)
next
  case stopped
  then show ?thesis using assms(2) by (auto simp: stop_writer_joined_def life_def)
qed (use assms(2) in \<open>simp_all add: life_def enqueue_frame\<close>)

lemma capture_init_fields:
  "capture_init i b q f = Inr s \<Longrightarrow> accounts s \<and> life s \<and> \<not> mc_kernel_on s \<and> \<not> mc_comm_on s \<and>
    \<not> mc_monitor_active s \<and> mc_items s = [] \<and> mc_writer_thread s = Not_Started"
  by (auto simp: capture_init_def accounts_def accepted_def life_def split: if_splits)

lemma capture_reach_accounts: "capture_reach ok s \<Longrightarrow> accounts s \<and> life s"
  by (induction rule: capture_reach.induct)
    (blast dest: capture_init_fields intro: accounts_step life_step)+

subsection \<open>After the writer has ended\<close>

definition drained :: "capture_state \<Rightarrow> bool" where
  "drained s \<longleftrightarrow> (mc_writer_thread s = Exited \<and> \<not> mc_writer_failed s \<and> \<not> mc_kernel_on s \<and> \<not> mc_comm_on s \<longrightarrow>
     mc_items s = [])"

lemma writer_round_drained:
  assumes "mc_writer_thread s = Running" and "life s"
  shows "drained (writer_round env s)"
proof -
  have sync: "drained (writer_sync env u)" if "mc_writer_thread u = Running" "\<not> mc_writer_failed u" for u
    using that by (auto simp: drained_def writer_sync_def writer_fail_def split: option.split)
  have "\<not> mc_writer_failed s" using assms by (auto simp: life_def)
  moreover have "drained (writer_fail e u)" "mc_items u = [] \<Longrightarrow> drained (u\<lparr>mc_writer_thread := Exited\<rparr>)" for e u
    by (simp_all add: drained_def writer_fail_def)
  ultimately show ?thesis
    using assms(1) sync by (simp add: writer_round_def split: list.split option.split)
qed

lemma drained_step:
  assumes "capture_step ok s t" and "drained s" and "life s"
  shows "drained t"
  using assms(1)
proof cases
  case (kernel_record data)
  then show ?thesis by (simp add: drained_def enqueue_frame)
next
  case (comm_record data)
  then show ?thesis by (simp add: drained_def enqueue_frame)
next
  case (start r)
  then show ?thesis using assms(2) by (auto simp: capture_start_def drained_def split: if_splits sum.splits)
next
  case (flush env)
  then have "\<not> mc_writer_done s" using assms(3) by (auto simp: life_def)
  then have "mc_writer_thread s = Exited \<longrightarrow> mc_writer_failed s" using assms(3) by (auto simp: life_def)
  moreover from flush_round_emits [of s env] obtain u where "emits s u"
    "t = u \<or> t = u\<lparr>mc_flush_thread := Exited\<rparr>" using flush(1) by blast
  ultimately show ?thesis using same_queue_life [of s u] by (auto simp: drained_def)
next
  case (joined r)
  then show ?thesis using assms(2) by (auto simp: stop_flush_joined_def drained_def split: if_splits)
next
  case (writer wenv)
  with writer_round_drained [OF _ assms(3)] show ?thesis by simp
next
  case (open_failed e)
  then show ?thesis by (simp add: writer_fail_def drained_def)
next
  case request
  then show ?thesis using assms(2) by (simp add: stop_request_def drained_def)
next
  case stopped
  then show ?thesis using assms(2) by (simp add: stop_writer_joined_def drained_def)
qed

lemma capture_reach_drained: "capture_reach ok s \<Longrightarrow> drained s"
proof (induction rule: capture_reach.induct)
  case (create i b q f s)
  then show ?case using capture_init_fields [of i b q f s] by (simp add: drained_def)
next
  case (step s s')
  then show ?case using capture_reach_accounts drained_step by blast
qed

subsection \<open>The monitors\<close>

text \<open>
  A round in which \<open>CommunicationMonitor.start\<close> does not raise (it may report a failure) and both \<open>stop\<close>
  calls report success.
\<close>

definition stops_work :: "monitor_env \<Rightarrow> bool" where
  "stops_work env \<longleftrightarrow> (\<exists>r. me_comm_start env = Inr r) \<and> (\<exists>r. me_kernel_stop env = Inr r \<and> success r) \<and>
     (\<exists>r. me_comm_stop env = Inr r \<and> success r)"

definition in_step :: "capture_state \<Rightarrow> bool" where
  "in_step s \<longleftrightarrow> mc_kernel_on s = mc_monitor_active s \<and> mc_comm_on s = mc_monitor_active s"

lemma set_monitor_in_step:
  assumes "in_step s" and "stops_work env" and "set_monitor_active enabled env s = (r, t)"
  shows "in_step t \<and> (r = None \<longrightarrow> mc_monitor_active t = enabled)"
proof (cases "enabled = mc_monitor_active s")
  case True
  with assms show ?thesis by (simp add: set_monitor_active_def)
next
  case False
  from assms(2) obtain a b c where calls: "me_comm_start env = Inr a" "me_kernel_stop env = Inr b" "success b"
    "me_comm_stop env = Inr c" "success c"
    by (auto simp: stops_work_def)
  show ?thesis
  proof (cases enabled)
    case True
    with False assms(1,3) calls show ?thesis
      by (cases "me_kernel_start env")
        (auto simp: set_monitor_active_def start_monitors_def in_step_def Let_def put_control_frame split: if_splits)
  next
    case 2: False
    with False assms(1,3) calls show ?thesis
      by (auto simp: set_monitor_active_def stop_monitors_def in_step_def note_stop_def Let_def split: if_splits)
  qed
qed

lemma enabled_by_file_frame:
  "enabled_by_file r s = (x, t) \<Longrightarrow> in_step s \<Longrightarrow> in_step t"
  by (auto simp: enabled_by_file_def set_error_def in_step_def Let_def split: option.splits enable_read.splits if_splits)

lemma flush_monitors_frame: "flush_monitors env s = (x, j, t) \<Longrightarrow> in_step s \<Longrightarrow> in_step t"
  by (auto simp: flush_monitors_def in_step_def split: sum.splits if_splits)

lemma flush_body_in_step:
  assumes "in_step s" and "stops_work env" and "flush_body env s = (x, t)"
  shows "in_step t"
proof -
  obtain a u where u: "enabled_by_file (me_enable env) s = (a, u)" by force
  note su = enabled_by_file_frame [OF u assms(1)]
  show ?thesis
  proof (cases a)
    case (Inl e)
    with assms(3) u su show ?thesis by (simp add: flush_body_def)
  next
    case (Inr enabled)
    obtain b v where v: "set_monitor_active enabled env u = (b, v)" by force
    from set_monitor_in_step [OF su assms(2) v] have sv: "in_step v" ..
    obtain c j w where w: "flush_monitors env v = (c, j, w)" by (metis prod_cases3)
    note sw = flush_monitors_frame [OF w sv]
    then have "in_step (put_control item w)" for item by (simp add: in_step_def)
    with assms(3) u Inr v w sv sw show ?thesis
      by (cases b; cases c) (auto simp: flush_body_def)
  qed
qed

text \<open>The monitors are together, and off once the flush thread has ended.\<close>

definition monitors_ok :: "capture_state \<Rightarrow> bool" where
  "monitors_ok s \<longleftrightarrow> in_step s \<and> (mc_flush_thread s = Exited \<longrightarrow> \<not> mc_monitor_active s)"

lemma flush_round_monitors:
  assumes "in_step s" and "stops_work env" and "mc_flush_thread s = Running"
  shows "monitors_ok (flush_round env s)"
proof (cases "mc_stop_requested s")
  case False
  obtain x t where b: "flush_body env s = (x, t)" by force
  have "mc_flush_thread t = Running" using same_queue_life [OF flush_body_emits [OF b]] assms(3) by simp
  with flush_body_in_step [OF assms(1,2) b] b False show ?thesis
    by (cases x) (auto simp: flush_round_def monitors_ok_def in_step_def set_error_def)
next
  case True
  obtain x t where b: "set_monitor_active False env s = (x, t)" by force
  note t = set_monitor_in_step [OF assms(1,2) b]
  have "x = None" if "mc_monitor_active s"
    using b assms(2) that
    by (auto simp: set_monitor_active_def stop_monitors_def stops_work_def Let_def)
  with t b True assms(1) show ?thesis
    by (auto simp: flush_round_def monitors_ok_def in_step_def Let_def)
qed

lemma monitors_step:
  assumes "capture_step ok s t" and "monitors_ok s" and works: "\<And>env. ok env \<Longrightarrow> stops_work env"
  shows "monitors_ok t"
  using assms(1)
proof cases
  case (start r)
  then show ?thesis using assms(2)
    by (auto simp: capture_start_def monitors_ok_def in_step_def split: if_splits sum.splits)
next
  case (flush env)
  then show ?thesis using assms(2) flush_round_monitors works by (simp add: monitors_ok_def)
next
  case (joined r)
  then show ?thesis using assms(2) by (auto simp: stop_flush_joined_def monitors_ok_def in_step_def split: if_splits)
next
  case (writer wenv)
  have "mc_flush_thread (writer_sync wenv u) = mc_flush_thread u" for u
    by (simp add: writer_sync_def writer_fail_def set_error_def split: option.split)
  with writer assms(2) show ?thesis
    by (auto simp: writer_round_def writer_fail_def set_error_def monitors_ok_def in_step_def
        split: list.split option.split)
next
  case (open_failed e)
  then show ?thesis using assms(2) by (simp add: writer_fail_def set_error_def monitors_ok_def in_step_def)
next
  case request
  then show ?thesis using assms(2) by (simp add: stop_request_def monitors_ok_def in_step_def)
next
  case stopped
  then show ?thesis using assms(2) by (simp add: stop_writer_joined_def monitors_ok_def in_step_def)
next
  case (kernel_record data)
  then show ?thesis using assms(2) by (auto simp: monitors_ok_def in_step_def enqueue_frame)
next
  case (comm_record data)
  then show ?thesis using assms(2) by (auto simp: monitors_ok_def in_step_def enqueue_frame)
qed

lemma capture_reach_monitors:
  "capture_reach ok s \<Longrightarrow> (\<And>env. ok env \<Longrightarrow> stops_work env) \<Longrightarrow> monitors_ok s"
proof (induction rule: capture_reach.induct)
  case (create i b q f s)
  then show ?case by (auto simp: capture_init_def monitors_ok_def in_step_def split: if_splits)
next
  case (step s s')
  from step(4) have "monitors_ok s" by (rule step.IH)
  from step(2) this step(4) show ?case by (rule monitors_step)
qed

end
