(* ===== verification/Capture_Properties.thy ===== *)
theory Capture_Properties
  imports Activity_Capture
begin

text \<open>
  What the in-process activity capture promises: the accounts of the queue, what a normal stop leaves
  behind, and how the two monitors and the flag of the object go together. Three lemmas show where
  it breaks: a start that raises, a stop that reports a failure, and the last lines before the end of
  the writer.
\<close>

subsection \<open>A sample run\<close>

lemma reach_flush:
  assumes "capture_reach stops_work s" and "mc_flush_thread s = Running" and "stops_work env"
  shows "capture_reach stops_work (flush_round env s)"
  by (rule capture_reach.step [OF assms(1) capture_step.flush]) (rule assms)+

definition sample_ok :: pyobj where
  "sample_ok = Enum (JInt 0) ''SUCCESS''"

definition sample_monitors :: monitor_env where
  "sample_monitors = \<lparr>me_kernel_start = Inr sample_ok, me_comm_start = Inr sample_ok,
     me_kernel_stop = Inr sample_ok, me_comm_stop = Inr sample_ok, me_flush_all = Inr sample_ok,
     me_enable = Enable_Missing, me_time_ns = 5\<rparr>"

definition sample_write :: writer_env where
  "sample_write = \<lparr>we_write = None, we_due = False, we_sync = None\<rparr>"

definition sample_created :: capture_state where
  "sample_created = (case capture_init 1 64 2 (Some ''/home/enable_prof'') of Inr s \<Rightarrow> s)"

definition sample_waiting :: capture_state where
  "sample_waiting = flush_round sample_monitors (stop_request
     (flush_round sample_monitors (snd (capture_start (Inr sample_ok) sample_created))))"

definition sample_stopped :: capture_state where
  "sample_stopped = writer_round sample_write (snd (stop_flush_joined (writer_round sample_write sample_waiting)))"

lemma sample_created_init: "capture_init 1 64 2 (Some ''/home/enable_prof'') = Inr sample_created"
  by (simp add: sample_created_def capture_init_def)

lemmas sample_eval = sample_waiting_def sample_created_def capture_init_def capture_start_def sample_ok_def
  success_def flush_round_def flush_body_def enabled_by_file_def sample_monitors_def set_monitor_active_def
  flush_monitors_def put_control_def stop_request_def

lemma sample_waiting_fields:
  "mc_started sample_waiting" "mc_stop_requested sample_waiting" "mc_flush_thread sample_waiting = Exited"
  "mc_writer_thread sample_waiting = Running" "\<not> mc_writer_done sample_waiting"
  "length (mc_items sample_waiting) = 1" "mc_file sample_waiting = []" "mc_synced sample_waiting = 0"
  "\<not> mc_writer_failed sample_waiting" "length (mc_offered sample_waiting) = 1"
  by (simp_all add: sample_eval)

lemma sample_returns: "stops_work sample_monitors"
  by (simp add: stops_work_def sample_monitors_def sample_ok_def success_def)

lemma sample_waiting_reach: "capture_reach stops_work sample_waiting"
proof -
  let ?s1 = "snd (capture_start (Inr sample_ok) sample_created)"
  have "capture_start (Inr sample_ok) sample_created = (None, ?s1)" by (simp add: sample_eval)
  then have 1: "capture_reach stops_work ?s1"
    by (rule capture_reach.step [OF capture_reach.create [OF sample_created_init] capture_step.start])
  have "mc_flush_thread ?s1 = Running" by (simp add: sample_eval)
  from reach_flush [OF 1 this sample_returns]
  have 2: "capture_reach stops_work (stop_request (flush_round sample_monitors ?s1))"
    by (rule capture_reach.step) (rule capture_step.request)
  have "mc_flush_thread (stop_request (flush_round sample_monitors ?s1)) = Running" by (simp add: sample_eval)
  from reach_flush [OF 2 this sample_returns]
  show ?thesis by (simp add: sample_waiting_def)
qed

lemma sample_stopped_reach: "capture_reach stops_work sample_stopped"
  and sample_stopped_fields: "mc_writer_thread sample_stopped = Exited" "\<not> mc_writer_failed sample_stopped"
    "mc_synced sample_stopped = 0" "length (mc_file sample_stopped) = 1" "mc_items sample_stopped = []"
    "mc_flush_thread sample_stopped = Exited"
proof -
  let ?s1 = "writer_round sample_write sample_waiting"
  have 1: "capture_reach stops_work ?s1"
    by (rule capture_reach.step [OF sample_waiting_reach capture_step.writer]) (rule sample_waiting_fields)
  obtain item where item: "mc_items sample_waiting = [item]"
    using sample_waiting_fields(6) by (metis length_0_conv length_Suc_conv One_nat_def)
  have s1: "mc_started ?s1" "mc_stop_requested ?s1" "mc_flush_thread ?s1 = Exited" "mc_writer_thread ?s1 = Running"
    "mc_items ?s1 = []" "mc_file ?s1 = [item]" "mc_synced ?s1 = 0" "\<not> mc_writer_failed ?s1"
    using sample_waiting_fields item
    by (simp_all add: writer_round_def sample_write_def writer_sync_def)
  then have j: "stop_flush_joined ?s1 = (None, ?s1\<lparr>mc_writer_done := True\<rparr>)" by (simp add: stop_flush_joined_def)
  have 2: "capture_reach stops_work (?s1\<lparr>mc_writer_done := True\<rparr>)"
    by (rule capture_reach.step [OF 1 capture_step.joined [OF s1(1,2) j]])
  show "capture_reach stops_work sample_stopped"
    unfolding sample_stopped_def j snd_conv
    by (rule capture_reach.step [OF 2 capture_step.writer]) (simp add: s1)
  show "mc_writer_thread sample_stopped = Exited" "\<not> mc_writer_failed sample_stopped"
    "mc_synced sample_stopped = 0" "length (mc_file sample_stopped) = 1" "mc_items sample_stopped = []"
    "mc_flush_thread sample_stopped = Exited"
    unfolding sample_stopped_def j snd_conv using s1 by (simp_all add: writer_round_def)
qed

subsection \<open>The accounts\<close>

text \<open>C20: In every interleaving of callbacks, flush rounds, writer rounds and the stop, the queue stays
  within its size and nothing vanishes: what was offered is what is in the file, in the queue or
  lost by a failing write, plus exactly the number of dropped records, and what was accepted keeps
  the order in which it was offered.\<close>

theorem capture_accounting:
  assumes "capture_reach ok s"
  shows "subseq (mc_file s @ mc_lost s @ mc_items s) (mc_offered s) \<and>
    int (length (mc_offered s)) =
      int (length (mc_file s)) + int (length (mc_lost s)) + int (length (mc_items s)) + mc_dropped s \<and>
    length (mc_items s) \<le> mc_queue_size s \<and> length (mc_lost s) \<le> 1"
  using capture_reach_accounts [OF assms] by (simp add: accounts_def accepted_def)

theorem capture_accounting_witness:
  "length (mc_offered sample_waiting) = length (mc_items sample_waiting) \<and> mc_dropped sample_waiting = 0"
  using capture_accounting [OF sample_waiting_reach] sample_waiting_fields
  by (simp add: sample_eval)

text \<open>C21: Once the writer has ended without an exception, whatever the calls of the msPTI package returned or
  raised: the file holds, in order, exactly the records that were offered and neither dropped nor still
  in the queue, and the queue is empty unless a monitor was left on. If every round's
  \<open>CommunicationMonitor.start\<close> returned (even with a failure) and every \<open>stop\<close> of a monitor reported
  success, both monitors are off, so that the queue is empty and the file holds every record that was
  not counted as dropped.\<close>

theorem stop_drains:
  assumes "capture_reach ok s"
    and "mc_writer_thread s = Exited" and "\<not> mc_writer_failed s"
  shows "subseq (mc_file s) (mc_offered s) \<and>
    int (length (mc_offered s)) = int (length (mc_file s)) + int (length (mc_items s)) + mc_dropped s \<and>
    (mc_items s = [] \<or> mc_kernel_on s \<or> mc_comm_on s) \<and>
    ((\<forall>env. ok env \<longrightarrow> stops_work env) \<longrightarrow> \<not> mc_kernel_on s \<and> \<not> mc_comm_on s \<and> mc_items s = [])"
proof -
  have a: "accounts s" and l: "life s" using capture_reach_accounts [OF assms(1)] by simp_all
  then have ended: "mc_flush_thread s = Exited" "mc_lost s = []" using assms(2,3) by (auto simp: life_def)
  have empty: "mc_items s = [] \<or> mc_kernel_on s \<or> mc_comm_on s"
    using capture_reach_drained [OF assms(1)] assms(2,3) by (auto simp: drained_def)
  have "\<not> mc_kernel_on s \<and> \<not> mc_comm_on s" if "\<forall>env. ok env \<longrightarrow> stops_work env"
    using capture_reach_monitors [OF assms(1)] that ended(1) by (auto simp: monitors_ok_def in_step_def)
  moreover have "subseq (mc_file s) (mc_file s @ mc_items s)" by (simp add: list_emb_prefix)
  ultimately show ?thesis
    using a ended(2) empty by (auto simp: accounts_def accepted_def intro: subseq_order.trans)
qed

theorem stop_drains_witness: "mc_items sample_stopped = [] \<and> \<not> mc_kernel_on sample_stopped"
  using stop_drains [OF sample_stopped_reach sample_stopped_fields(1,2)] by simp

subsection \<open>The monitors\<close>

text \<open>As long as \<open>CommunicationMonitor.start\<close> does not raise and every \<open>stop\<close> reports success, the two
  monitors are always on or off together, exactly when the object says so, and off once the flush
  thread has ended.\<close>

lemma monitors_together:
  assumes "capture_reach stops_work s"
  shows "mc_kernel_on s = mc_monitor_active s \<and> mc_comm_on s = mc_monitor_active s \<and>
    (mc_flush_thread s = Exited \<longrightarrow> \<not> mc_monitor_active s)"
  using capture_reach_monitors [OF assms] by (simp add: monitors_ok_def in_step_def)

text \<open>A \<open>stop\<close> that returns a failure is only noted in \<open>last_error\<close>: the object counts as inactive, the
  flush thread ends, and the kernel monitor may go on delivering records into a queue that nobody
  empties once the writer has ended.\<close>

lemma failed_stop_leaks:
  assumes "mc_monitor_active s" and "mc_kernel_on s" and "mc_stop_requested s"
    and "me_kernel_stop env = Inr r" and "\<not> success r" and "me_comm_stop env = Inr r'"
  shows "mc_kernel_on (flush_round env s) \<and> \<not> mc_monitor_active (flush_round env s) \<and>
    mc_flush_thread (flush_round env s) = Exited"
  using assms
  by (simp add: flush_round_def set_monitor_active_def stop_monitors_def note_stop_def Let_def)

text \<open>A \<open>CommunicationMonitor.start\<close> that raises, instead of reporting a failure, leaves the kernel
  monitor on: the object counts as inactive, so neither switching off nor the final round of the
  flush thread ever stops it.\<close>

lemma raised_start_leaks:
  assumes "\<not> mc_monitor_active s" and "\<not> mc_stop_requested s" and "mc_enable_file s = None"
    and "me_kernel_start env = Inr r" and "success r" and "me_comm_start env = Inl e"
  shows "mc_kernel_on (flush_round env s) \<and> \<not> mc_monitor_active (flush_round env s) \<and>
    mc_kernel_on (flush_round env' ((flush_round env s)\<lparr>mc_stop_requested := True\<rparr>)) \<and>
    mc_flush_thread (flush_round env' ((flush_round env s)\<lparr>mc_stop_requested := True\<rparr>)) = Exited"
proof -
  have "flush_round env s = set_error ''monitor loop'' e
      (s\<lparr>mc_kernel_on := True, mc_flush_errors := mc_flush_errors s + 1\<rparr>)"
    using assms by (simp add: flush_round_def flush_body_def enabled_by_file_def set_monitor_active_def start_monitors_def)
  then show ?thesis using assms(1) by (simp add: flush_round_def set_error_def)
qed

text \<open>The writer can end normally with lines that were never synchronised to disk: when the stop is
  signalled after its last test of the flag and the queue is empty, the loop ends without the
  \<open>flush\<close> and \<open>fsync\<close> that every batch is said to get.\<close>

lemma last_batch_unsynced:
  "\<exists>s. capture_reach stops_work s \<and> mc_writer_thread s = Exited \<and> \<not> mc_writer_failed s \<and>
    mc_synced s < length (mc_file s)"
  using sample_stopped_reach sample_stopped_fields by (intro exI [of _ sample_stopped]) simp

end
