(* ===== verification/Checkpoint_Pool.thy ===== *)
theory Checkpoint_Pool
  imports Flight_Writer
begin

text \<open>
  \<open>src/flight_checkpoint.cpp\<close>: the pool of device events behind \<open>flightrecorder/checkpoint.py\<close>.
  Threads submit checkpoints and one of them polls; each atomic access to a slot's state, each backend
  call and each \<open>flight_record\<close> is a step of its own, so that the steps of the threads interleave as
  on the machine. The backend (\<open>create\<close>, \<open>record\<close>, \<open>query\<close>) is a parameter: its return codes are
  arguments of the steps.
\<close>

subsection \<open>The manager\<close>

datatype slot_state = FREE | RESERVED | PENDING | QUERYING

record pool_slot =
  ps_event :: u64
  ps_state :: slot_state
  ps_generation :: u64
  ps_submitted_seq :: u64
  ps_checkpoint_id :: u64
  ps_query_error_reported :: u64
  ps_not_ready_reported :: u64

record pool_stream =
  st_id :: u32
  st_handle :: u64
  st_slots :: "pool_slot list"
  st_cursor :: u32

text \<open>
  \<open>cm_poller\<close> is the budget of the poller thread while it is joinable; \<open>cm_log\<close> the calls of
  \<open>flight_record\<close> so far.
\<close>

record manager =
  cm_slots_per_stream :: u32
  cm_streams :: "pool_stream list"
  cm_polling :: bool
  cm_poll_cursor :: u64
  cm_stop_poller :: bool
  cm_poller_running :: bool
  cm_poller :: "u32 option"
  cm_log :: "record_call list"

definition EIO :: int where "EIO = 5"
definition ENOENT :: int where "ENOENT = 2"
definition EAGAIN :: int where "EAGAIN = 11"
definition EBUSY :: int where "EBUSY = 16"
definition EEXIST :: int where "EEXIST = 17"
definition EALREADY :: int where "EALREADY = 114"

definition find_stream :: "manager \<Rightarrow> u32 \<Rightarrow> nat option" where
  "find_stream m sid = list_index (map st_id (cm_streams m)) sid"

definition slot_of :: "manager \<Rightarrow> nat \<Rightarrow> nat \<Rightarrow> pool_slot" where
  "slot_of m i k = st_slots (cm_streams m ! i) ! k"

definition stream_id :: "manager \<Rightarrow> nat \<Rightarrow> u32" where
  "stream_id m i = st_id (cm_streams m ! i)"

definition set_slot :: "nat \<Rightarrow> nat \<Rightarrow> (pool_slot \<Rightarrow> pool_slot) \<Rightarrow> manager \<Rightarrow> manager" where
  "set_slot i k f m = m\<lparr>cm_streams := (cm_streams m)[i :=
     (cm_streams m ! i)\<lparr>st_slots := (st_slots (cm_streams m ! i))[k := f (slot_of m i k)]\<rparr>]\<rparr>"

definition backend_error :: "int \<Rightarrow> int" where
  "backend_error rc = (if rc > 0 then rc else EIO)"

subsection \<open>Set-up\<close>

text \<open>\<open>given\<close>: the backend and its four functions are there, \<open>memory\<close>: the allocation succeeds.\<close>

definition checkpoint_create :: "bool \<Rightarrow> bool \<Rightarrow> u32 \<Rightarrow> manager option" where
  "checkpoint_create given memory slots =
     (if \<not> given \<or> slots = 0 \<or> slots > 1024 \<or> \<not> memory then None
      else Some \<lparr>cm_slots_per_stream = slots, cm_streams = [], cm_polling = False,
             cm_poll_cursor = 0, cm_stop_poller = False, cm_poller_running = False,
             cm_poller = None, cm_log = []\<rparr>)"

definition new_slot :: "u64 \<Rightarrow> pool_slot" where
  "new_slot event = \<lparr>ps_event = event, ps_state = FREE, ps_generation = 0, ps_submitted_seq = 0,
     ps_checkpoint_id = 0, ps_query_error_reported = 0, ps_not_ready_reported = 0\<rparr>"

text \<open>
  The loop over the slots: \<open>creates\<close> are the results of \<open>backend.create\<close>, a return code and an event.
  On an error the events created before are handed to \<open>backend.destroy\<close>.
\<close>

fun create_slots :: "nat \<Rightarrow> (int \<times> u64) list \<Rightarrow> pool_slot list \<Rightarrow> (int \<times> u64 list) + pool_slot list" where
  "create_slots 0 creates slots = Inr slots"
| "create_slots (Suc n) [] slots = Inl (EIO, map ps_event slots)"
| "create_slots (Suc n) ((rc, event) # creates) slots =
     (if rc \<noteq> 0 then Inl (backend_error rc, map ps_event slots)
      else create_slots n creates (slots @ [new_slot event]))"

definition register_stream :: "(int \<times> u64) list \<Rightarrow> u32 \<Rightarrow> u64 \<Rightarrow> manager \<Rightarrow> int \<times> manager" where
  "register_stream creates sid handle m =
     (if find_stream m sid \<noteq> None then (EEXIST, m)
      else case create_slots (unat (cm_slots_per_stream m)) creates [] of
        Inl (rc, _) \<Rightarrow> (rc, m)
      | Inr slots \<Rightarrow> (0, m\<lparr>cm_streams := cm_streams m @
            [\<lparr>st_id = sid, st_handle = handle, st_slots = slots, st_cursor = 0\<rparr>]\<rparr>))"

subsection \<open>Where a thread is\<close>

text \<open>
  The program counter of a thread with its locals. \<open>Try\<close> is one round of the search of \<open>submit\<close>,
  \<open>Reject\<close> the pool-full branch, \<open>Fill\<close> follows the reservation, \<open>Note\<close> the accepted
  \<open>backend.record\<close>, \<open>Publish\<close> the submission record. \<open>Look\<close> is one round of the loop of \<open>poll\<close>,
  \<open>Query\<close> follows its compare-exchange, \<open>Release\<close> is the store that ends the round.
\<close>

record poll_loop =
  pl_start :: u64
  pl_offset :: u64
  pl_checked :: u32
  pl_completed :: int
  pl_budget :: u32

datatype pc =
    Idle
  | Try nat u32 u32 u64 u64
  | Reject nat u64 u64
  | Fill nat nat u64 u64
  | Note nat nat u64 u64 u64
  | Publish nat nat u64
  | Look poll_loop
  | Query nat nat u64 poll_loop
  | Release nat nat slot_state poll_loop
  | Unlock int
  | Return int "u64 option"

text \<open>What a step gets from outside: the backend's return code, the clock and the thread id.\<close>

record step_env =
  pe_rc :: int
  pe_now :: u64
  pe_tid :: u32

definition FL_CHECKPOINT :: u16 where "FL_CHECKPOINT = 23"
definition FL_DEVICE_CONFIRMED :: u16 where "FL_DEVICE_CONFIRMED = 24"
definition SUBMITTED :: u16 where "SUBMITTED = 1"
definition POOL_FULL :: u16 where "POOL_FULL = 2"
definition QUERY_ERROR :: u16 where "QUERY_ERROR = 4"
definition NOT_READY :: u16 where "NOT_READY = 8"

definition log_call ::
  "step_env \<Rightarrow> u16 \<Rightarrow> u32 \<Rightarrow> u64 \<Rightarrow> u64 \<Rightarrow> u64 \<Rightarrow> u16 \<Rightarrow> manager \<Rightarrow> manager" where
  "log_call env type stream correlation arg0 arg1 flags m =
     m\<lparr>cm_log := cm_log m @ [\<lparr>rc_type = type, rc_stream = stream, rc_correlation = correlation,
        rc_arg0 = arg0, rc_arg1 = arg1, rc_flags = flags, rc_now = pe_now env, rc_tid = pe_tid env\<rparr>]\<rparr>"

subsection \<open>Submit\<close>

text \<open>Up to the fetch-and-add of the stream's cursor; \<open>start + n\<close> is a \<open>uint32_t\<close>.\<close>

definition submit_call :: "u32 \<Rightarrow> u64 \<Rightarrow> u64 \<Rightarrow> manager \<Rightarrow> pc \<times> manager" where
  "submit_call sid submitted_seq checkpoint_id m =
     (if submitted_seq = 0 then (Return EINVAL None, m)
      else case find_stream m sid of
        None \<Rightarrow> (Return ENOENT None, m)
      | Some i \<Rightarrow>
          (Try i (st_cursor (cm_streams m ! i)) 0 submitted_seq checkpoint_id,
           m\<lparr>cm_streams := (cm_streams m)[i :=
             (cm_streams m ! i)\<lparr>st_cursor := st_cursor (cm_streams m ! i) + 1\<rparr>]\<rparr>))"

definition try_index :: "manager \<Rightarrow> u32 \<Rightarrow> u32 \<Rightarrow> nat" where
  "try_index m start n = unat ((start + n) mod cm_slots_per_stream m)"

subsection \<open>Poll\<close>

definition pool_total :: "manager \<Rightarrow> u64" where
  "pool_total m = word_of_nat (length (cm_streams m) * unat (cm_slots_per_stream m))"

definition poll_call :: "u32 \<Rightarrow> manager \<Rightarrow> pc \<times> manager" where
  "poll_call budget m =
     (if budget = 0 \<or> cm_polling m then (Return 0 None, m)
      else if pool_total m = 0 then (Unlock 0, m\<lparr>cm_polling := True\<rparr>)
      else (Look \<lparr>pl_start = cm_poll_cursor m, pl_offset = 0, pl_checked = 0, pl_completed = 0,
                  pl_budget = budget\<rparr>,
            m\<lparr>cm_polling := True, cm_poll_cursor := cm_poll_cursor m + ucast budget\<rparr>))"

definition poll_flat :: "manager \<Rightarrow> poll_loop \<Rightarrow> nat" where
  "poll_flat m l = unat ((pl_start l + pl_offset l) mod pool_total m)"

definition next_offset :: "poll_loop \<Rightarrow> poll_loop" where
  "next_offset l = l\<lparr>pl_offset := pl_offset l + 1\<rparr>"

subsection \<open>One step of a thread\<close>

definition query_result :: "step_env \<Rightarrow> nat \<Rightarrow> nat \<Rightarrow> u64 \<Rightarrow> poll_loop \<Rightarrow> manager \<Rightarrow> pc \<times> manager" where
  "query_result env i k gen l m =
     (let slot = slot_of m i k; sid = stream_id m i;
          note = (\<lambda>type flags. log_call env type sid (ps_checkpoint_id slot) (ps_submitted_seq slot) gen flags m)
      in if pe_rc env = 1
         then (Release i k FREE (l\<lparr>pl_completed := pl_completed l + 1\<rparr>), note FL_DEVICE_CONFIRMED 0)
         else if pe_rc env = 0
         then (Release i k PENDING l,
               if ps_not_ready_reported slot \<noteq> gen
               then set_slot i k (\<lambda>s. s\<lparr>ps_not_ready_reported := gen\<rparr>) (note FL_CHECKPOINT NOT_READY)
               else m)
         else (Release i k PENDING l,
               if ps_query_error_reported slot \<noteq> gen
               then set_slot i k (\<lambda>s. s\<lparr>ps_query_error_reported := gen\<rparr>) (note FL_CHECKPOINT QUERY_ERROR)
               else m))"

fun pool_step :: "step_env \<Rightarrow> pc \<Rightarrow> manager \<Rightarrow> pc \<times> manager" where
  "pool_step env Idle m = (Idle, m)"
| "pool_step env (Try i start n seq ckpt) m =
     (if n < cm_slots_per_stream m
      then (let k = try_index m start n
            in if ps_state (slot_of m i k) = FREE
               then (Fill i k seq ckpt, set_slot i k (\<lambda>s. s\<lparr>ps_state := RESERVED\<rparr>) m)
               else (Try i start (n + 1) seq ckpt, m))
      else (Reject i seq ckpt, m))"
| "pool_step env (Reject i seq ckpt) m =
     (Return EAGAIN None,
      log_call env FL_CHECKPOINT (stream_id m i) ckpt seq 0 POOL_FULL m)"
| "pool_step env (Fill i k seq ckpt) m =
     (let gen = ps_generation (slot_of m i k) + 1;
          m = set_slot i k (\<lambda>s. s\<lparr>ps_generation := gen, ps_submitted_seq := seq, ps_checkpoint_id := ckpt\<rparr>) m
      in if pe_rc env \<noteq> 0
         then (Return (backend_error (pe_rc env)) None, set_slot i k (\<lambda>s. s\<lparr>ps_state := FREE\<rparr>) m)
         else (Note i k seq ckpt gen, m))"
| "pool_step env (Note i k seq ckpt gen) m =
     (Publish i k gen,
      log_call env FL_CHECKPOINT (stream_id m i) ckpt seq gen SUBMITTED m)"
| "pool_step env (Publish i k gen) m =
     (Return 0 (Some gen), set_slot i k (\<lambda>s. s\<lparr>ps_state := PENDING\<rparr>) m)"
| "pool_step env (Look l) m =
     (if pl_offset l < pool_total m \<and> pl_checked l < pl_budget l
      then (let flat = poll_flat m l; i = flat div unat (cm_slots_per_stream m);
                k = flat mod unat (cm_slots_per_stream m)
            in if ps_state (slot_of m i k) = PENDING
               then (Query i k (ps_generation (slot_of m i k)) (l\<lparr>pl_checked := pl_checked l + 1\<rparr>),
                     set_slot i k (\<lambda>s. s\<lparr>ps_state := QUERYING\<rparr>) m)
               else (Look (next_offset l), m))
      else (Unlock (pl_completed l), m))"
| "pool_step env (Query i k gen l) m = query_result env i k gen l m"
| "pool_step env (Release i k st l) m =
     (Look (next_offset l), set_slot i k (\<lambda>s. s\<lparr>ps_state := st\<rparr>) m)"
| "pool_step env (Unlock completed) m = (Return completed None, m\<lparr>cm_polling := False\<rparr>)"
| "pool_step env (Return rc gen) m = (Idle, m)"

subsection \<open>The poller thread and the end of the manager\<close>

text \<open>
  \<open>spawned\<close>: the thread could be started. Assigning to a joinable \<open>std::thread\<close> terminates the
  process: \<open>None\<close>.
\<close>

definition start_poller :: "u32 \<Rightarrow> u32 \<Rightarrow> bool \<Rightarrow> manager \<Rightarrow> (int \<times> manager) option" where
  "start_poller interval_us budget spawned m =
     (if interval_us = 0 \<or> budget = 0 then Some (EINVAL, m)
      else if cm_poller_running m then Some (EALREADY, m)
      else let m = m\<lparr>cm_poller_running := True, cm_stop_poller := False\<rparr>
           in if \<not> spawned then Some (EAGAIN, m\<lparr>cm_poller_running := False\<rparr>)
              else if cm_poller m \<noteq> None then None
              else Some (0, m\<lparr>cm_poller := Some budget\<rparr>))"

text \<open>\<open>stop_poller\<close> raises the flag, then waits for the thread to end, which clears \<open>poller_running\<close>.\<close>

definition request_stop :: "manager \<Rightarrow> manager" where
  "request_stop m = m\<lparr>cm_stop_poller := True\<rparr>"

definition poller_exit :: "manager \<Rightarrow> manager" where
  "poller_exit m = m\<lparr>cm_poller_running := False\<rparr>"

definition join_poller :: "manager \<Rightarrow> manager" where
  "join_poller m = m\<lparr>cm_poller := None\<rparr>"

text \<open>The events that \<open>destroy\<close> hands back to the backend, when it does not refuse.\<close>

definition checkpoint_destroy :: "manager \<Rightarrow> int \<times> u64 list" where
  "checkpoint_destroy m =
     (if cm_poller_running m \<or> cm_poller m \<noteq> None then (EBUSY, [])
      else let slots = concat (map st_slots (cm_streams m))
           in if list_ex (\<lambda>s. ps_state s \<noteq> FREE) slots then (EBUSY, [])
              else (0, map ps_event slots))"

end
