(* ===== verification/Checkpoint_System.thy ===== *)
theory Checkpoint_System
  imports Checkpoint_Pool
begin

text \<open>
  The checkpoint pool under any interleaving of its threads, together with the device: per stream the
  queue of recorded events, how many of them the device has finished, and for each event object the
  place of its last recording. Thread 0 is the poller thread of \<open>flight_checkpoint_start_poller\<close>. The
  parameter \<open>answers place done rc\<close> says which return codes of \<open>backend.query\<close> are possible.
\<close>

unbundle bit_operations_syntax

subsection \<open>The system\<close>

record pool_sys =
  sy_pool :: manager
  sy_threads :: "nat \<Rightarrow> pc"
  sy_queue :: "nat \<Rightarrow> (u64 \<times> u64 \<times> u64) list"
  sy_place :: "nat \<Rightarrow> nat \<Rightarrow> nat"
  sy_done :: "nat \<Rightarrow> nat"

text \<open>\<open>backend.record\<close> appends the event to the queue of its stream.\<close>

fun device_step :: "step_env \<Rightarrow> pc \<Rightarrow> pool_sys \<Rightarrow> pool_sys" where
  "device_step env (Fill i k seq ckpt) s =
     (if pe_rc env \<noteq> 0 then s
      else s\<lparr>sy_place := (sy_place s)(i := (sy_place s i)(k := length (sy_queue s i))),
             sy_queue := (sy_queue s)(i := sy_queue s i @
               [(ckpt, seq, ps_generation (slot_of (sy_pool s) i k) + 1)])\<rparr>)"
| "device_step env _ s = s"

definition run_thread :: "nat \<Rightarrow> step_env \<Rightarrow> pool_sys \<Rightarrow> pool_sys" where
  "run_thread t env s =
     (case pool_step env (sy_threads s t) (sy_pool s) of
        (pc, m) \<Rightarrow> (device_step env (sy_threads s t) s)\<lparr>sy_pool := m, sy_threads := (sy_threads s)(t := pc)\<rparr>)"

definition call_thread :: "nat \<Rightarrow> pc \<times> manager \<Rightarrow> pool_sys \<Rightarrow> pool_sys" where
  "call_thread t r s = s\<lparr>sy_pool := snd r, sy_threads := (sy_threads s)(t := fst r)\<rparr>"

fun may_answer :: "(nat \<Rightarrow> nat \<Rightarrow> int \<Rightarrow> bool) \<Rightarrow> step_env \<Rightarrow> pc \<Rightarrow> pool_sys \<Rightarrow> bool" where
  "may_answer answers env (Query i k gen l) s = answers (sy_place s i k) (sy_done s i) (pe_rc env)"
| "may_answer answers env _ s = True"

definition all_idle :: "pool_sys \<Rightarrow> bool" where
  "all_idle s \<longleftrightarrow> (\<forall>t. sy_threads s t = Idle)"

definition pool_start :: "manager \<Rightarrow> pool_sys" where
  "pool_start m = \<lparr>sy_pool = m, sy_threads = (\<lambda>t. Idle), sy_queue = (\<lambda>i. []), sy_place = (\<lambda>i k. 0),
     sy_done = (\<lambda>i. 0)\<rparr>"

text \<open>Streams are registered while no thread is inside the pool.\<close>

inductive pool_trans :: "(nat \<Rightarrow> nat \<Rightarrow> int \<Rightarrow> bool) \<Rightarrow> pool_sys \<Rightarrow> pool_sys \<Rightarrow> bool" for answers where
  register: "all_idle s \<Longrightarrow>
    pool_trans answers s (s\<lparr>sy_pool := snd (register_stream creates sid handle (sy_pool s))\<rparr>)"
| submit: "sy_threads s t = Idle \<Longrightarrow> t \<noteq> 0 \<Longrightarrow>
    pool_trans answers s (call_thread t (submit_call sid seq ckpt (sy_pool s)) s)"
| poll: "sy_threads s t = Idle \<Longrightarrow> t \<noteq> 0 \<Longrightarrow>
    pool_trans answers s (call_thread t (poll_call budget (sy_pool s)) s)"
| thread: "sy_threads s t \<noteq> Idle \<Longrightarrow> may_answer answers env (sy_threads s t) s \<Longrightarrow>
    pool_trans answers s (run_thread t env s)"
| device: "sy_done s i < length (sy_queue s i) \<Longrightarrow>
    pool_trans answers s (s\<lparr>sy_done := (sy_done s)(i := Suc (sy_done s i))\<rparr>)"
| start: "start_poller interval_us budget spawned (sy_pool s) = Some (rc, m) \<Longrightarrow>
    pool_trans answers s (s\<lparr>sy_pool := m\<rparr>)"
| poller: "sy_threads s 0 = Idle \<Longrightarrow> cm_poller_running (sy_pool s) \<Longrightarrow> \<not> cm_stop_poller (sy_pool s) \<Longrightarrow>
    cm_poller (sy_pool s) = Some budget \<Longrightarrow>
    pool_trans answers s (call_thread 0 (poll_call budget (sy_pool s)) s)"
| stopped: "sy_threads s 0 = Idle \<Longrightarrow> cm_poller_running (sy_pool s) \<Longrightarrow> cm_stop_poller (sy_pool s) \<Longrightarrow>
    pool_trans answers s (s\<lparr>sy_pool := poller_exit (sy_pool s)\<rparr>)"
| request: "pool_trans answers s (s\<lparr>sy_pool := request_stop (sy_pool s)\<rparr>)"
| join: "\<not> cm_poller_running (sy_pool s) \<Longrightarrow>
    pool_trans answers s (s\<lparr>sy_pool := join_poller (sy_pool s)\<rparr>)"

text \<open>The states reached when every state on the way satisfies \<open>sched\<close>.\<close>

inductive pool_reach ::
  "(nat \<Rightarrow> nat \<Rightarrow> int \<Rightarrow> bool) \<Rightarrow> (pool_sys \<Rightarrow> bool) \<Rightarrow> pool_sys \<Rightarrow> bool" for answers sched where
  create: "checkpoint_create given memory slots = Some m \<Longrightarrow> pool_reach answers sched (pool_start m)"
| trans: "pool_reach answers sched s \<Longrightarrow> pool_trans answers s s' \<Longrightarrow> sched s' \<Longrightarrow>
    pool_reach answers sched s'"

subsection \<open>Access to the slots\<close>

definition in_pool :: "manager \<Rightarrow> nat \<Rightarrow> nat \<Rightarrow> bool" where
  "in_pool m i k \<longleftrightarrow> i < length (cm_streams m) \<and> k < length (st_slots (cm_streams m ! i))"

lemma slot_of_set_slot :
  "in_pool m i k \<Longrightarrow> slot_of (set_slot i k f m) i' k' =
    (if i' = i \<and> k' = k then f (slot_of m i k) else slot_of m i' k')"
  by (auto simp: slot_of_def set_slot_def in_pool_def nth_list_update)

lemma set_slot_frame [simp]:
  "cm_slots_per_stream (set_slot i k f m) = cm_slots_per_stream m"
  "cm_log (set_slot i k f m) = cm_log m"
  "cm_polling (set_slot i k f m) = cm_polling m"
  "length (cm_streams (set_slot i k f m)) = length (cm_streams m)"
  "in_pool (set_slot i k f m) i' k' = in_pool m i' k'"
  "stream_id (set_slot i k f m) i' = stream_id m i'"
  by (cases "i < length (cm_streams m)";
      auto simp: set_slot_def in_pool_def stream_id_def nth_list_update list_update_beyond)+

lemma log_call_frame [simp]:
  "cm_slots_per_stream (log_call env ty sid c a0 a1 fl m) = cm_slots_per_stream m"
  "cm_streams (log_call env ty sid c a0 a1 fl m) = cm_streams m"
  "cm_polling (log_call env ty sid c a0 a1 fl m) = cm_polling m"
  "slot_of (log_call env ty sid c a0 a1 fl m) i k = slot_of m i k"
  "in_pool (log_call env ty sid c a0 a1 fl m) i k = in_pool m i k"
  "stream_id (log_call env ty sid c a0 a1 fl m) i = stream_id m i"
  by (simp_all add: log_call_def slot_of_def in_pool_def stream_id_def)

lemma pool_field_frame [simp]:
  "slot_of (m\<lparr>cm_polling := b\<rparr>) = slot_of m" "in_pool (m\<lparr>cm_polling := b\<rparr>) = in_pool m"
  "stream_id (m\<lparr>cm_polling := b\<rparr>) = stream_id m"
  "slot_of (m\<lparr>cm_polling := b, cm_poll_cursor := w\<rparr>) = slot_of m"
  "in_pool (m\<lparr>cm_polling := b, cm_poll_cursor := w\<rparr>) = in_pool m"
  "stream_id (m\<lparr>cm_polling := b, cm_poll_cursor := w\<rparr>) = stream_id m"
  by (simp_all add: slot_of_def in_pool_def stream_id_def fun_eq_iff)

subsection \<open>Ownership\<close>

text \<open>
  The slot a thread has taken, the state it keeps it in, and whether the log already holds the
  submission of what is in the slot without its confirmation.
\<close>

fun owned :: "pc \<Rightarrow> (nat \<times> nat \<times> slot_state \<times> bool) option" where
  "owned (Fill i k seq ckpt) = Some (i, k, RESERVED, False)"
| "owned (Note i k seq ckpt gen) = Some (i, k, RESERVED, False)"
| "owned (Publish i k gen) = Some (i, k, RESERVED, True)"
| "owned (Query i k gen l) = Some (i, k, QUERYING, True)"
| "owned (Release i k st l) = Some (i, k, QUERYING, st = PENDING)"
| "owned _ = None"

fun in_poll :: "pc \<Rightarrow> bool" where
  "in_poll (Look l) = True"
| "in_poll (Query i k gen l) = True"
| "in_poll (Release i k st l) = True"
| "in_poll (Unlock completed) = True"
| "in_poll _ = False"

definition owned_slot :: "pc \<Rightarrow> (nat \<times> nat) option" where
  "owned_slot pc = map_option (\<lambda>(i, k, st, b). (i, k)) (owned pc)"

definition shape_ok :: "manager \<Rightarrow> bool" where
  "shape_ok m \<longleftrightarrow> 0 < cm_slots_per_stream m \<and> cm_slots_per_stream m \<le> 1024 \<and>
     distinct (map st_id (cm_streams m)) \<and>
     (\<forall>i < length (cm_streams m). length (st_slots (cm_streams m ! i)) = unat (cm_slots_per_stream m))"

fun pc_ok :: "manager \<Rightarrow> pc \<Rightarrow> bool" where
  "pc_ok m (Try i start n seq ckpt) \<longleftrightarrow> i < length (cm_streams m)"
| "pc_ok m (Reject i seq ckpt) \<longleftrightarrow> i < length (cm_streams m)"
| "pc_ok m (Note i k seq ckpt gen) \<longleftrightarrow> ps_submitted_seq (slot_of m i k) = seq \<and>
     ps_checkpoint_id (slot_of m i k) = ckpt \<and> ps_generation (slot_of m i k) = gen"
| "pc_ok m (Publish i k gen) \<longleftrightarrow> ps_generation (slot_of m i k) = gen"
| "pc_ok m (Query i k gen l) \<longleftrightarrow> ps_generation (slot_of m i k) = gen"
| "pc_ok m (Release i k st l) \<longleftrightarrow> st = FREE \<or> st = PENDING"
| "pc_ok m _ \<longleftrightarrow> True"

definition resting :: "slot_state \<Rightarrow> bool" where
  "resting st \<longleftrightarrow> st = FREE \<or> st = PENDING"

definition owners_ok :: "(nat \<Rightarrow> pc) \<Rightarrow> manager \<Rightarrow> bool" where
  "owners_ok T m \<longleftrightarrow>
     (\<forall>t i k st b. owned (T t) = Some (i, k, st, b) \<longrightarrow> in_pool m i k \<and> ps_state (slot_of m i k) = st) \<and>
     (\<forall>t t' i k st b st' b'. owned (T t) = Some (i, k, st, b) \<longrightarrow> owned (T t') = Some (i, k, st', b') \<longrightarrow> t = t') \<and>
     (\<forall>i k. in_pool m i k \<longrightarrow> \<not> resting (ps_state (slot_of m i k)) \<longrightarrow> (\<exists>t st b. owned (T t) = Some (i, k, st, b)))"

definition pool_ok :: "pool_sys \<Rightarrow> bool" where
  "pool_ok s \<longleftrightarrow> shape_ok (sy_pool s) \<and> owners_ok (sy_threads s) (sy_pool s) \<and>
     (\<forall>t. pc_ok (sy_pool s) (sy_threads s t)) \<and>
     (\<forall>t. in_poll (sy_threads s t) \<longrightarrow> cm_polling (sy_pool s)) \<and>
     (\<forall>t t'. in_poll (sy_threads s t) \<longrightarrow> in_poll (sy_threads s t') \<longrightarrow> t = t')"

lemma shape_in_pool: "shape_ok m \<Longrightarrow> in_pool m i k \<longleftrightarrow> i < length (cm_streams m) \<and> k < unat (cm_slots_per_stream m)"
  by (auto simp: shape_ok_def in_pool_def)

lemma slots_positive: "shape_ok m \<Longrightarrow> 0 < unat (cm_slots_per_stream m)"
  by (simp add: shape_ok_def unat_gt_0 word_gt_0_no) (simp add: word_neq_0_conv)

lemma try_index_in_pool:
  assumes "shape_ok m" and "i < length (cm_streams m)"
  shows "in_pool m i (try_index m start n)"
proof -
  have "unat ((start + n) mod cm_slots_per_stream m) < unat (cm_slots_per_stream m)"
    using assms(1) by (simp add: shape_ok_def word_less_nat_alt unat_mod)
  with assms show ?thesis by (simp add: shape_in_pool try_index_def)
qed

lemma poll_flat_in_pool:
  assumes "shape_ok m" and "offset < pool_total m"
  shows "in_pool m (poll_flat m l div unat (cm_slots_per_stream m)) (poll_flat m l mod unat (cm_slots_per_stream m))"
proof -
  let ?n = "unat (cm_slots_per_stream m)"
  have "poll_flat m l < unat (pool_total m)"
    using assms(2) unfolding poll_flat_def by (simp add: unat_mod word_less_nat_alt)
  also have "\<dots> \<le> length (cm_streams m) * ?n"
    unfolding pool_total_def unat_of_nat by (rule mod_less_eq_dividend)
  finally have "poll_flat m l < length (cm_streams m) * ?n" .
  then show ?thesis
    using slots_positive [OF assms(1)] by (simp add: shape_in_pool [OF assms(1)] less_mult_imp_div_less)
qed

subsection \<open>What a step changes\<close>

lemma shape_ok_set_slot [simp]: "shape_ok (set_slot i k f m) = shape_ok m"
proof (cases "i < length (cm_streams m)")
  case True
  then have "map st_id (cm_streams (set_slot i k f m)) = map st_id (cm_streams m)"
    by (simp add: set_slot_def map_update list_update_same_conv)
  moreover have "length (st_slots (cm_streams (set_slot i k f m) ! j)) = length (st_slots (cm_streams m ! j))"
    if "j < length (cm_streams m)" for j
    using that True by (simp add: set_slot_def nth_list_update)
  ultimately show ?thesis by (simp add: shape_ok_def)
next
  case False
  then show ?thesis by (simp add: shape_ok_def set_slot_def list_update_beyond)
qed

lemma shape_ok_fields [simp]:
  "shape_ok (log_call env ty sid c a0 a1 fl m) = shape_ok m"
  "shape_ok (m\<lparr>cm_polling := b\<rparr>) = shape_ok m"
  "shape_ok (m\<lparr>cm_polling := b, cm_poll_cursor := w\<rparr>) = shape_ok m"
  by (simp_all add: shape_ok_def log_call_def)

lemma step_frame:
  "shape_ok (snd (pool_step env pc m)) = shape_ok m"
  "length (cm_streams (snd (pool_step env pc m))) = length (cm_streams m)"
  "in_pool (snd (pool_step env pc m)) i k = in_pool m i k"
  "stream_id (snd (pool_step env pc m)) i = stream_id m i"
  by (cases pc; simp add: Let_def query_result_def)+

text \<open>A slot the thread neither holds nor takes stays as it is.\<close>

lemma step_other_slot:
  assumes "shape_ok m" and "pc_ok m pc" and "\<And>i k. owned_slot pc = Some (i, k) \<Longrightarrow> in_pool m i k"
    and "owned_slot pc \<noteq> Some (i, k)" and "owned_slot (fst (pool_step env pc m)) \<noteq> Some (i, k)"
  shows "slot_of (snd (pool_step env pc m)) i k = slot_of m i k"
proof (cases pc)
  case (Try j start n seq ckpt)
  then show ?thesis using assms(2,5) try_index_in_pool [OF assms(1), of j start n]
    by (auto simp: owned_slot_def slot_of_set_slot Let_def split: if_splits)
next
  case (Look l)
  show ?thesis
  proof (cases "pl_offset l < pool_total m \<and> pl_checked l < pl_budget l")
    case True
    then show ?thesis using Look assms(5) poll_flat_in_pool [OF assms(1), of "pl_offset l" l]
      by (auto simp: owned_slot_def slot_of_set_slot Let_def split: if_splits)
  qed (use Look in auto)
qed (use assms(3,4) in \<open>auto simp: owned_slot_def slot_of_set_slot Let_def query_result_def\<close>)

text \<open>How a slot is taken, kept and given back.\<close>

lemma step_take:
  assumes "shape_ok m" and "pc_ok m pc" and "owned pc = None"
    and "owned (fst (pool_step env pc m)) = Some (i, k, st, b)"
  shows "in_pool m i k \<and> resting (ps_state (slot_of m i k)) \<and> b = (ps_state (slot_of m i k) = PENDING) \<and>
    slot_of (snd (pool_step env pc m)) i k = (slot_of m i k)\<lparr>ps_state := st\<rparr> \<and>
    cm_log (snd (pool_step env pc m)) = cm_log m \<and> pc_ok (snd (pool_step env pc m)) (fst (pool_step env pc m))"
proof (cases pc)
  case (Try j start n seq ckpt)
  then show ?thesis using assms(2,4) try_index_in_pool [OF assms(1), of j start n]
    by (auto simp: slot_of_set_slot resting_def Let_def split: if_splits)
next
  case (Look l)
  show ?thesis
  proof (cases "pl_offset l < pool_total m \<and> pl_checked l < pl_budget l")
    case True
    then show ?thesis using Look assms(4) poll_flat_in_pool [OF assms(1), of "pl_offset l" l]
      by (auto simp: slot_of_set_slot resting_def Let_def split: if_splits)
  qed (use Look assms in auto)
qed (use assms in auto)

lemma step_hold:
  assumes "pc_ok m pc" and "owned pc = Some (i, k, st, b)" and "in_pool m i k" and "ps_state (slot_of m i k) = st"
  shows "case owned (fst (pool_step env pc m)) of
      Some (i', k', st', b') \<Rightarrow> i' = i \<and> k' = k \<and> st' = st \<and> ps_state (slot_of (snd (pool_step env pc m)) i k) = st
    | None \<Rightarrow> resting (ps_state (slot_of (snd (pool_step env pc m)) i k)) \<and>
        b = (ps_state (slot_of (snd (pool_step env pc m)) i k) = PENDING)"
  using assms by (cases pc) (auto simp: slot_of_set_slot resting_def Let_def query_result_def)

lemma step_pc_ok:
  assumes "shape_ok m" and "pc_ok m pc" and "\<And>i k st b. owned pc = Some (i, k, st, b) \<Longrightarrow> in_pool m i k"
  shows "pc_ok (snd (pool_step env pc m)) (fst (pool_step env pc m))"
proof (cases "owned (fst (pool_step env pc m))")
  case None
  then show ?thesis
    using assms(2) by (cases pc) (auto simp: Let_def query_result_def split: if_splits)
next
  case (Some o')
  show ?thesis
  proof (cases "owned pc")
    case None
    with Some show ?thesis using step_take [OF assms(1,2) None, of env] by (cases o') auto
  next
    case (Some o'')
    then obtain i k st b where o: "owned pc = Some (i, k, st, b)" by (cases o'') auto
    with assms(3) have "in_pool m i k" by blast
    with o assms(2) show ?thesis
      by (cases pc) (auto simp: slot_of_set_slot Let_def query_result_def)
  qed
qed

subsection \<open>The invariant\<close>

text \<open>What the generic part of the proofs needs to know of a step of thread \<open>t\<close> from \<open>pc\<close> to \<open>pc'\<close>.\<close>

definition slot_move :: "pc \<Rightarrow> manager \<Rightarrow> pc \<Rightarrow> manager \<Rightarrow> bool" where
  "slot_move pc m pc' m' \<longleftrightarrow>
     (\<forall>i k. in_pool m' i k = in_pool m i k) \<and>
     (\<forall>i k. owned_slot pc \<noteq> Some (i, k) \<longrightarrow> owned_slot pc' \<noteq> Some (i, k) \<longrightarrow> slot_of m' i k = slot_of m i k) \<and>
     (case owned pc of
        None \<Rightarrow> (case owned pc' of None \<Rightarrow> True
          | Some (i, k, st, b) \<Rightarrow> in_pool m i k \<and> resting (ps_state (slot_of m i k)) \<and>
              b = (ps_state (slot_of m i k) = PENDING) \<and> ps_state (slot_of m' i k) = st)
      | Some (i, k, st, b) \<Rightarrow> in_pool m i k \<and>
          (case owned pc' of
             None \<Rightarrow> resting (ps_state (slot_of m' i k))
           | Some (i', k', st', b') \<Rightarrow> i' = i \<and> k' = k \<and> ps_state (slot_of m' i k) = st'))"

lemma step_slot_move:
  assumes "shape_ok m" and "pc_ok m pc"
    and "\<And>i k st b. owned pc = Some (i, k, st, b) \<Longrightarrow> in_pool m i k \<and> ps_state (slot_of m i k) = st"
  shows "slot_move pc m (fst (pool_step env pc m)) (snd (pool_step env pc m))"
proof -
  have own: "in_pool m i k" if "owned_slot pc = Some (i, k)" for i k
    using that assms(3) by (auto simp: owned_slot_def)
  have "slot_of (snd (pool_step env pc m)) i k = slot_of m i k"
    if "owned_slot pc \<noteq> Some (i, k)" "owned_slot (fst (pool_step env pc m)) \<noteq> Some (i, k)" for i k
    by (rule step_other_slot [OF assms(1,2) own that])
  moreover have "case owned pc of
        None \<Rightarrow> (case owned (fst (pool_step env pc m)) of None \<Rightarrow> True
          | Some (i, k, st, b) \<Rightarrow> in_pool m i k \<and> resting (ps_state (slot_of m i k)) \<and>
              b = (ps_state (slot_of m i k) = PENDING) \<and> ps_state (slot_of (snd (pool_step env pc m)) i k) = st)
      | Some (i, k, st, b) \<Rightarrow> in_pool m i k \<and>
          (case owned (fst (pool_step env pc m)) of
             None \<Rightarrow> resting (ps_state (slot_of (snd (pool_step env pc m)) i k))
           | Some (i', k', st', b') \<Rightarrow> i' = i \<and> k' = k \<and> ps_state (slot_of (snd (pool_step env pc m)) i k) = st')"
  proof (cases "owned pc")
    case None
    then show ?thesis
      using step_take [OF assms(1,2) None, of env] by (auto split: option.split)
  next
    case (Some o')
    then obtain i k st b where o: "owned pc = Some (i, k, st, b)" by (cases o') auto
    with assms(3) have "in_pool m i k" "ps_state (slot_of m i k) = st" by blast+
    with o show ?thesis
      using step_hold [OF assms(2) o, of env] by (auto split: option.splits)
  qed
  ultimately show ?thesis by (simp add: slot_move_def step_frame)
qed

lemma owners_move:
  assumes "owners_ok T m" and "slot_move (T t) m pc' m'"
  shows "owners_ok (T(t := pc')) m'"
proof -
  let ?T = "T(t := pc')"
  from assms(1) have held: "\<And>t i k st b. owned (T t) = Some (i, k, st, b) \<Longrightarrow>
        in_pool m i k \<and> ps_state (slot_of m i k) = st"
    and single: "\<And>t t' i k st b st' b'. owned (T t) = Some (i, k, st, b) \<Longrightarrow>
        owned (T t') = Some (i, k, st', b') \<Longrightarrow> t = t'"
    and taken: "\<And>i k. in_pool m i k \<Longrightarrow> \<not> resting (ps_state (slot_of m i k)) \<Longrightarrow>
        \<exists>t st b. owned (T t) = Some (i, k, st, b)"
    unfolding owners_ok_def by blast+
  from assms(2) have frame: "\<And>i k. in_pool m' i k = in_pool m i k"
    and other: "\<And>i k. owned_slot (T t) \<noteq> Some (i, k) \<Longrightarrow> owned_slot pc' \<noteq> Some (i, k) \<Longrightarrow>
        slot_of m' i k = slot_of m i k"
    unfolding slot_move_def by blast+
  have busy: "\<not> resting st" if "owned p = Some (i, k, st, b)" for p i k st b
    using that by (cases p) (auto simp: resting_def)
  have mine: "in_pool m i k \<and> ps_state (slot_of m' i k) = st \<and>
      (owned_slot (T t) = Some (i, k) \<or> resting (ps_state (slot_of m i k)))"
    if "owned pc' = Some (i, k, st, b)" for i k st b
    using assms(2) that unfolding slot_move_def owned_slot_def by (auto split: option.splits)
  have elsewhere: "owned_slot (T t) \<noteq> Some (i, k) \<and> owned_slot pc' \<noteq> Some (i, k)"
    if "owned (T u) = Some (i, k, st, b)" "u \<noteq> t" for u i k st b
  proof
    show "owned_slot (T t) \<noteq> Some (i, k)"
      using that single by (fastforce simp: owned_slot_def)
    then show "owned_slot pc' \<noteq> Some (i, k)"
      using that mine held busy by (fastforce simp: owned_slot_def)
  qed
  show ?thesis
    unfolding owners_ok_def
  proof (intro conjI allI impI)
    fix u i k st b
    assume u: "owned (?T u) = Some (i, k, st, b)"
    have "in_pool m' i k \<and> ps_state (slot_of m' i k) = st"
    proof (cases "u = t")
      case True
      with u have "owned pc' = Some (i, k, st, b)" by simp
      from mine [OF this] frame show ?thesis by simp
    next
      case False
      with u have u': "owned (T u) = Some (i, k, st, b)" by simp
      from elsewhere [OF u' False] other have "slot_of m' i k = slot_of m i k" by blast
      with held [OF u'] frame show ?thesis by simp
    qed
    then show "in_pool m' i k" "ps_state (slot_of m' i k) = st" by simp_all
  next
    fix u u' i k st b st' b'
    assume u: "owned (?T u) = Some (i, k, st, b)" and u': "owned (?T u') = Some (i, k, st', b')"
    have clash: "False" if "owned (?T v) = Some (i, k, x, y)" "owned pc' = Some (i, k, x', y')" "v \<noteq> t" for v x y x' y'
      using elsewhere [of v i k x y] that by (simp add: owned_slot_def)
    show "u = u'"
    proof (cases "u = t \<or> u' = t")
      case True
      with u u' clash show ?thesis by (metis fun_upd_same)
    next
      case False
      with u u' show ?thesis using single [of u i k st b u' st' b'] by simp
    qed
  next
    fix i k
    assume ik: "in_pool m' i k" and busy': "\<not> resting (ps_state (slot_of m' i k))"
    show "\<exists>u st b. owned (?T u) = Some (i, k, st, b)"
    proof (cases "owned_slot pc' = Some (i, k)")
      case True
      then show ?thesis by (intro exI [of _ t]) (auto simp: owned_slot_def)
    next
      case False
      have "owned_slot (T t) \<noteq> Some (i, k)"
      proof
        assume "owned_slot (T t) = Some (i, k)"
        then obtain st b where "owned (T t) = Some (i, k, st, b)" by (auto simp: owned_slot_def)
        with assms(2) busy' have "owned_slot pc' = Some (i, k)"
          by (cases "owned pc'") (auto simp: slot_move_def owned_slot_def)
        with False show False by simp
      qed
      with False ik busy' frame other obtain u st b where u: "owned (T u) = Some (i, k, st, b)"
        using taken [of i k] by auto
      with \<open>owned_slot (T t) \<noteq> Some (i, k)\<close> have "u \<noteq> t" by (auto simp: owned_slot_def)
      with u show ?thesis by (intro exI [of _ u]) auto
    qed
  qed
qed

text \<open>Transitions that leave the slots alone keep the invariant.\<close>

lemma owners_cong:
  "owners_ok T m \<Longrightarrow> (\<And>i k. in_pool m' i k = in_pool m i k) \<Longrightarrow>
    (\<And>i k. in_pool m i k \<Longrightarrow> ps_state (slot_of m' i k) = ps_state (slot_of m i k)) \<Longrightarrow> owners_ok T m'"
  by (simp add: owners_ok_def)

lemma call_slot_move:
  assumes "owned pc' = None" and "owned (T t) = None"
    and "\<And>i k. in_pool m' i k = in_pool m i k" and "\<And>i k. slot_of m' i k = slot_of m i k"
  shows "slot_move (T t) m pc' m'"
  using assms by (simp add: slot_move_def)

lemma submit_call_frame:
  "shape_ok (snd (submit_call sid seq ckpt m)) = shape_ok m"
  "in_pool (snd (submit_call sid seq ckpt m)) i k = in_pool m i k"
  "slot_of (snd (submit_call sid seq ckpt m)) i k = slot_of m i k"
  "stream_id (snd (submit_call sid seq ckpt m)) i = stream_id m i"
  "length (cm_streams (snd (submit_call sid seq ckpt m))) = length (cm_streams m)"
  "cm_log (snd (submit_call sid seq ckpt m)) = cm_log m"
  "cm_polling (snd (submit_call sid seq ckpt m)) = cm_polling m"
proof -
  have streams: "length ((cm_streams m)[j := (cm_streams m ! j)\<lparr>st_cursor := c\<rparr>]) = length (cm_streams m)"
    "map st_id ((cm_streams m)[j := (cm_streams m ! j)\<lparr>st_cursor := c\<rparr>]) = map st_id (cm_streams m)"
    "i < length (cm_streams m) \<Longrightarrow> st_slots ((cm_streams m)[j := (cm_streams m ! j)\<lparr>st_cursor := c\<rparr>] ! i) = st_slots (cm_streams m ! i)"
    "st_slots ((cm_streams m)[j := (cm_streams m ! j)\<lparr>st_cursor := c\<rparr>] ! i) = st_slots (cm_streams m ! i)"
    "st_id ((cm_streams m)[j := (cm_streams m ! j)\<lparr>st_cursor := c\<rparr>] ! i) = st_id (cm_streams m ! i)"
    for i j c
    by (cases "j < length (cm_streams m)";
        simp add: map_update list_update_same_conv list_update_beyond nth_list_update)+
  show "shape_ok (snd (submit_call sid seq ckpt m)) = shape_ok m"
    "in_pool (snd (submit_call sid seq ckpt m)) i k = in_pool m i k"
    "slot_of (snd (submit_call sid seq ckpt m)) i k = slot_of m i k"
    "stream_id (snd (submit_call sid seq ckpt m)) i = stream_id m i"
    "length (cm_streams (snd (submit_call sid seq ckpt m))) = length (cm_streams m)"
    "cm_log (snd (submit_call sid seq ckpt m)) = cm_log m"
    "cm_polling (snd (submit_call sid seq ckpt m)) = cm_polling m"
    by (simp_all add: submit_call_def shape_ok_def in_pool_def slot_of_def stream_id_def streams split: option.split)
qed

lemma poll_call_frame:
  "shape_ok (snd (poll_call budget m)) = shape_ok m"
  "in_pool (snd (poll_call budget m)) = in_pool m"
  "slot_of (snd (poll_call budget m)) = slot_of m"
  "stream_id (snd (poll_call budget m)) = stream_id m"
  "length (cm_streams (snd (poll_call budget m))) = length (cm_streams m)"
  "cm_log (snd (poll_call budget m)) = cm_log m"
  by (simp_all add: poll_call_def)

lemma pc_ok_cong:
  assumes "pc_ok m pc" and "length (cm_streams m) \<le> length (cm_streams m')"
    and "\<And>i k. owned_slot pc = Some (i, k) \<Longrightarrow> slot_of m' i k = slot_of m i k"
  shows "pc_ok m' pc"
  using assms by (cases pc) (auto simp: owned_slot_def)

lemma create_slots_Inr:
  "create_slots n creates acc = Inr slots \<Longrightarrow> \<forall>s \<in> set acc. \<exists>e. s = new_slot e \<Longrightarrow>
    length slots = length acc + n \<and> (\<forall>s \<in> set slots. \<exists>e. s = new_slot e)"
  by (induction n creates acc rule: create_slots.induct) (auto split: if_splits)

text \<open>What a registration adds: slots that are free.\<close>

lemma register_stream_cases:
  assumes "register_stream creates sid handle m = (rc, m')"
  obtains "m' = m" | slots where "find_stream m sid = None" and "length slots = unat (cm_slots_per_stream m)"
    and "\<forall>s \<in> set slots. \<exists>e. s = new_slot e"
    and "m' = m\<lparr>cm_streams := cm_streams m @ [\<lparr>st_id = sid, st_handle = handle, st_slots = slots, st_cursor = 0\<rparr>]\<rparr>"
proof (cases "find_stream m sid = None")
  case True
  show ?thesis
  proof (cases "create_slots (unat (cm_slots_per_stream m)) creates []")
    case (Inl e)
    with True assms that(1) show ?thesis by (auto simp: register_stream_def split: prod.splits)
  next
    case (Inr slots)
    with True assms that(2) [of slots] create_slots_Inr [OF Inr] show ?thesis
      by (auto simp: register_stream_def)
  qed
qed (use assms that(1) in \<open>auto simp: register_stream_def\<close>)

lemma appended_stream:
  assumes "m' = m\<lparr>cm_streams := cm_streams m @ [st]\<rparr>"
  shows "in_pool m' i k \<longleftrightarrow> in_pool m i k \<or> (i = length (cm_streams m) \<and> k < length (st_slots st))"
    and "i < length (cm_streams m) \<Longrightarrow> slot_of m' i k = slot_of m i k"
    and "i < length (cm_streams m) \<Longrightarrow> stream_id m' i = stream_id m i"
    and "slot_of m' (length (cm_streams m)) k = st_slots st ! k"
  using assms by (auto simp: in_pool_def slot_of_def stream_id_def nth_append)

lemma register_shape:
  assumes "shape_ok m"
  shows "shape_ok (snd (register_stream creates sid handle m))"
proof -
  obtain rc m' where r: "register_stream creates sid handle m = (rc, m')" by fastforce
  from r show ?thesis
  proof (cases rule: register_stream_cases)
    case 1
    with assms r show ?thesis by simp
  next
    case (2 slots)
    then have "sid \<notin> st_id ` set (cm_streams m)" by (simp add: find_stream_def)
    with 2 assms r show ?thesis by (auto simp: shape_ok_def nth_append less_Suc_eq)
  qed
qed

lemma register_idle:
  assumes "owners_ok T m" and "\<forall>t. T t = Idle"
  shows "owners_ok T (snd (register_stream creates sid handle m))"
proof -
  obtain rc m' where r: "register_stream creates sid handle m = (rc, m')" by fastforce
  from assms have rest: "in_pool m i k \<Longrightarrow> resting (ps_state (slot_of m i k))" for i k
    by (simp add: owners_ok_def)
  from r have "in_pool m' i k \<Longrightarrow> resting (ps_state (slot_of m' i k))" for i k
  proof (cases rule: register_stream_cases)
    case 1
    then show "in_pool m' i k \<Longrightarrow> resting (ps_state (slot_of m' i k))" using rest by simp
  next
    case (2 slots)
    assume "in_pool m' i k"
    then consider "in_pool m i k" | "i = length (cm_streams m)" "k < length slots"
      using appended_stream(1) [OF 2(4), of i k] by auto
    then show "resting (ps_state (slot_of m' i k))"
    proof cases
      case 1
      with rest show ?thesis using appended_stream(2) [OF 2(4), of i k] by (simp add: in_pool_def)
    next
      case old: 2
      with 2(3) have "\<exists>e. slots ! k = new_slot e" by simp
      with old appended_stream(4) [OF 2(4), of k] show ?thesis by (auto simp: resting_def new_slot_def)
    qed
  qed
  with r assms(2) show ?thesis by (simp add: owners_ok_def)
qed

text \<open>A step or a call of thread \<open>t\<close> keeps the whole invariant.\<close>

lemma pool_ok_move:
  assumes "pool_ok s" and "slot_move (sy_threads s t) (sy_pool s) pc' m'"
    and "shape_ok m'" and "length (cm_streams m') = length (cm_streams (sy_pool s))" and "pc_ok m' pc'"
    and "in_poll pc' \<Longrightarrow> cm_polling m' \<and> (in_poll (sy_threads s t) \<or> \<not> cm_polling (sy_pool s))"
    and "cm_polling m' = cm_polling (sy_pool s) \<or> in_poll (sy_threads s t) \<or> cm_polling m'"
    and "s' = s\<lparr>sy_pool := m', sy_threads := (sy_threads s)(t := pc')\<rparr>"
  shows "pool_ok s'"
proof -
  let ?T = "sy_threads s" and ?m = "sy_pool s"
  from assms(1) have owners: "owners_ok ?T ?m" and pcs: "\<And>u. pc_ok ?m (?T u)"
    and polls: "\<And>u. in_poll (?T u) \<Longrightarrow> cm_polling ?m"
    and alone: "\<And>u u'. in_poll (?T u) \<Longrightarrow> in_poll (?T u') \<Longrightarrow> u = u'"
    unfolding pool_ok_def by blast+
  have new: "owners_ok (?T(t := pc')) m'" by (rule owners_move [OF owners assms(2)])
  have "pc_ok m' (?T u)" if "u \<noteq> t" for u
  proof (rule pc_ok_cong [OF pcs])
    fix i k
    assume u: "owned_slot (?T u) = Some (i, k)"
    have "owned_slot (?T t) \<noteq> Some (i, k)"
      using owners u that unfolding owners_ok_def owned_slot_def by fastforce
    moreover have "owned_slot pc' \<noteq> Some (i, k)"
    proof
      assume "owned_slot pc' = Some (i, k)"
      then obtain st' b' where "owned ((?T(t := pc')) t) = Some (i, k, st', b')"
        by (auto simp: owned_slot_def)
      moreover from u that obtain st b where "owned ((?T(t := pc')) u) = Some (i, k, st, b)"
        by (auto simp: owned_slot_def)
      ultimately have "owned ((?T(t := pc')) u) = Some (i, k, st, b)"
        "owned ((?T(t := pc')) t) = Some (i, k, st', b')" by simp_all
      with new that show False unfolding owners_ok_def by blast
    qed
    ultimately show "slot_of m' i k = slot_of ?m i k"
      using assms(2) unfolding slot_move_def by blast
  qed (simp add: assms(4))
  then have pcs': "pc_ok m' ((?T(t := pc')) u)" for u using assms(5) by simp
  have quiet: "\<not> in_poll (?T u)" if "in_poll pc' \<or> in_poll (?T t)" "u \<noteq> t" for u
    using that alone polls assms(6) by blast
  have "cm_polling m'" if "in_poll ((?T(t := pc')) u)" for u
    using that assms(6,7) polls quiet by (cases "u = t") auto
  moreover have "u = u'" if "in_poll ((?T(t := pc')) u)" "in_poll ((?T(t := pc')) u')" for u u'
  proof (rule ccontr)
    assume "u \<noteq> u'"
    then consider "u = t" "u' \<noteq> t" | "u \<noteq> t" "u' = t" | "u \<noteq> t" "u' \<noteq> t" by blast
    then show False
    proof cases
      case 1
      with that quiet [of u'] show False by simp
    next
      case 2
      with that quiet [of u] show False by simp
    next
      case 3
      with that alone [of u u'] \<open>u \<noteq> u'\<close> show False by simp
    qed
  qed
  moreover have "sy_pool s' = m'" "sy_threads s' = ?T(t := pc')" by (simp_all add: assms(8))
  ultimately show ?thesis
    using assms(3) new pcs' unfolding pool_ok_def by metis
qed

lemma step_poll:
  "in_poll (fst (pool_step env pc m)) \<Longrightarrow> in_poll pc \<and> (\<forall>c. pc \<noteq> Unlock c)"
  "cm_polling (snd (pool_step env pc m)) = (cm_polling m \<and> (\<forall>c. pc \<noteq> Unlock c))"
  by (cases pc; auto simp: Let_def query_result_def log_call_def split: if_splits)+

lemma pool_ok_other:
  assumes "pool_ok s" and "cm_streams m' = cm_streams (sy_pool s)"
    and "cm_slots_per_stream m' = cm_slots_per_stream (sy_pool s)" and "cm_polling m' = cm_polling (sy_pool s)"
  shows "pool_ok (s\<lparr>sy_pool := m'\<rparr>)"
proof -
  have same: "in_pool m' = in_pool (sy_pool s)" "slot_of m' = slot_of (sy_pool s)"
    using assms(2) by (simp_all add: in_pool_def slot_of_def fun_eq_iff)
  have "pc_ok m' pc" if "pc_ok (sy_pool s) pc" for pc
    by (rule pc_ok_cong [OF that]) (simp_all add: assms(2) same)
  moreover have "owners_ok (sy_threads s) m'"
    using assms(1) same by (simp add: pool_ok_def owners_ok_def)
  ultimately show ?thesis
    using assms by (simp add: pool_ok_def shape_ok_def)
qed

lemma device_step_frame [simp]:
  "sy_pool (device_step env pc s) = sy_pool s" "sy_threads (device_step env pc s) = sy_threads s"
  "sy_done (device_step env pc s) = sy_done s"
  by (cases pc; simp)+

lemma pool_ok_fields [simp]:
  "pool_ok (s\<lparr>sy_done := d\<rparr>) = pool_ok s"
  "pool_ok (device_step env pc s\<lparr>sy_pool := m, sy_threads := T\<rparr>) = pool_ok (s\<lparr>sy_pool := m, sy_threads := T\<rparr>)"
  by (simp_all add: pool_ok_def)

lemma start_poller_frame:
  "start_poller iv budget spawned m = Some (rc, m') \<Longrightarrow> cm_streams m' = cm_streams m \<and>
    cm_slots_per_stream m' = cm_slots_per_stream m \<and> cm_polling m' = cm_polling m \<and> cm_log m' = cm_log m"
  by (auto simp: start_poller_def Let_def split: if_splits)

lemma pool_ok_run:
  assumes "pool_ok s"
  shows "pool_ok (run_thread t env s)"
proof -
  let ?pc = "sy_threads s t" and ?m = "sy_pool s"
  obtain pc' m' where r: "pool_step env ?pc ?m = (pc', m')" by fastforce
  from assms have ok: "shape_ok ?m" "pc_ok ?m ?pc" by (simp_all add: pool_ok_def)
  have own: "owned ?pc = Some (i, k, st, b) \<Longrightarrow> in_pool ?m i k \<and> ps_state (slot_of ?m i k) = st" for i k st b
    using assms unfolding pool_ok_def owners_ok_def by blast
  have "pool_ok (s\<lparr>sy_pool := m', sy_threads := (sy_threads s)(t := pc')\<rparr>)"
  proof (rule pool_ok_move [OF assms _ _ _ _ _ _ refl])
    show "slot_move ?pc ?m pc' m'" using step_slot_move [OF ok own, where env = env] r by simp
    show "shape_ok m'" "length (cm_streams m') = length (cm_streams ?m)"
      using step_frame [of env ?pc ?m] r ok by simp_all
    show "pc_ok m' pc'" using step_pc_ok [OF ok conjunct1 [OF own], where env = env] r by simp
    show "cm_polling m' \<and> (in_poll ?pc \<or> \<not> cm_polling ?m)" if "in_poll pc'"
    proof -
      have "in_poll ?pc \<Longrightarrow> cm_polling ?m" using assms unfolding pool_ok_def by blast
      then show ?thesis using that r step_poll [of env ?pc ?m] by simp
    qed
    show "cm_polling m' = cm_polling ?m \<or> in_poll ?pc \<or> cm_polling m'"
      using r step_poll(2) [of env ?pc ?m] by (cases ?pc) auto
  qed
  then show ?thesis by (simp add: run_thread_def r)
qed

lemma find_stream_Some:
  assumes "find_stream m sid = Some i"
  shows "i < length (cm_streams m) \<and> stream_id m i = sid"
proof -
  let ?ids = "map st_id (cm_streams m)"
  obtain pre post where ids: "?ids = pre @ sid # post" "length pre = i"
    using assms list_index_Some unfolding find_stream_def by metis
  have "i < length ?ids \<and> ?ids ! i = sid" unfolding ids(1) ids(2) [symmetric] by simp
  then show ?thesis by (auto simp: stream_id_def)
qed

lemma pool_ok_call:
  assumes "pool_ok s" and "sy_threads s t = Idle"
    and "r = submit_call sid seq ckpt (sy_pool s) \<or> r = poll_call budget (sy_pool s)"
  shows "pool_ok (call_thread t r s)"
proof -
  let ?m = "sy_pool s"
  obtain pc' m' where r: "r = (pc', m')" by fastforce
  note frames = submit_call_frame [of sid seq ckpt ?m] poll_call_frame [of budget ?m]
  from assms(3) r have m': "m' = snd (submit_call sid seq ckpt ?m) \<or> m' = snd (poll_call budget ?m)"
    by (metis snd_conv)
  have same: "in_pool m' i k = in_pool ?m i k" "slot_of m' i k = slot_of ?m i k"
      "length (cm_streams m') = length (cm_streams ?m)" "shape_ok m' = shape_ok ?m" for i k
    using m' by (auto simp: frames)
  have fresh: "owned pc' = None"
    using assms(3) r by (auto simp: submit_call_def poll_call_def split: if_splits option.splits)
  have "pool_ok (s\<lparr>sy_pool := m', sy_threads := (sy_threads s)(t := pc')\<rparr>)"
  proof (rule pool_ok_move [OF assms(1) _ _ _ _ _ _ refl])
    show "slot_move (sy_threads s t) ?m pc' m'"
      by (rule call_slot_move) (simp_all add: fresh assms(2) same)
    show "shape_ok m'" using assms(1) same by (simp add: pool_ok_def)
    show "length (cm_streams m') = length (cm_streams ?m)" by (rule same)
    show "pc_ok m' pc'"
      using assms(3) r same(3)
      by (auto simp: submit_call_def poll_call_def dest: find_stream_Some
        split: if_splits option.splits)
    show "cm_polling m' \<and> (in_poll (sy_threads s t) \<or> \<not> cm_polling ?m)" if "in_poll pc'"
      using that assms(3) r by (auto simp: submit_call_def poll_call_def split: if_splits option.splits)
    show "cm_polling m' = cm_polling ?m \<or> in_poll (sy_threads s t) \<or> cm_polling m'"
      using m' frames(7) by (auto simp: poll_call_def)
  qed
  then show ?thesis by (simp add: call_thread_def r)
qed

lemma pool_ok_trans:
  assumes "pool_trans answers s s'" and "pool_ok s"
  shows "pool_ok s'"
  using assms
proof (induction rule: pool_trans.induct)
  case (register s creates sid handle)
  let ?m = "snd (register_stream creates sid handle (sy_pool s))"
  have idle: "sy_threads s t = Idle" for t using register by (simp add: all_idle_def)
  have "shape_ok ?m" "owners_ok (sy_threads s) ?m"
    using register register_shape register_idle idle by (simp_all add: pool_ok_def)
  then show ?case by (simp add: pool_ok_def idle)
next
  case (submit s t sid seq ckpt)
  then show ?case by (intro pool_ok_call [OF _ _ disjI1 [OF refl]])
next
  case (poll s t budget)
  then show ?case by (intro pool_ok_call [OF _ _ disjI2 [OF refl]])
next
  case (thread s t env)
  then show ?case by (intro pool_ok_run)
next
  case (start interval_us budget spawned s rc m)
  then show ?case using start_poller_frame [OF start(1)] by (intro pool_ok_other) simp_all
next
  case (poller s budget)
  then show ?case by (intro pool_ok_call [OF _ _ disjI2 [OF refl]])
qed (simp_all add: pool_ok_other poller_exit_def request_stop_def join_poller_def)

lemma pool_ok_start: "checkpoint_create given memory slots = Some m \<Longrightarrow> pool_ok (pool_start m)"
  by (auto simp: checkpoint_create_def pool_start_def pool_ok_def shape_ok_def owners_ok_def in_pool_def
    word_neq_0_conv split: if_splits)

theorem pool_reach_ok: "pool_reach answers sched s \<Longrightarrow> pool_ok s"
  by (induction rule: pool_reach.induct) (simp_all add: pool_ok_start pool_ok_trans)

subsection \<open>Submissions, confirmations and what is outstanding\<close>

type_synonym call_key = "u32 \<times> u64 \<times> u64 \<times> u64"

definition call_key :: "record_call \<Rightarrow> call_key" where
  "call_key c = (rc_stream c, rc_correlation c, rc_arg0 c, rc_arg1 c)"

definition is_submission :: "record_call \<Rightarrow> bool" where
  "is_submission c \<longleftrightarrow> rc_type c = FL_CHECKPOINT \<and> rc_flags c AND SUBMITTED \<noteq> 0"

definition is_confirmation :: "record_call \<Rightarrow> bool" where
  "is_confirmation c \<longleftrightarrow> rc_type c = FL_DEVICE_CONFIRMED"

definition submissions :: "call_key \<Rightarrow> record_call list \<Rightarrow> nat" where
  "submissions key log = length (filter (\<lambda>c. is_submission c \<and> call_key c = key) log)"

definition confirmations :: "call_key \<Rightarrow> record_call list \<Rightarrow> nat" where
  "confirmations key log = length (filter (\<lambda>c. is_confirmation c \<and> call_key c = key) log)"

definition slot_key :: "manager \<Rightarrow> nat \<Rightarrow> nat \<Rightarrow> call_key" where
  "slot_key m i k = (stream_id m i, ps_checkpoint_id (slot_of m i k), ps_submitted_seq (slot_of m i k),
     ps_generation (slot_of m i k))"

text \<open>The slots whose checkpoint is on the log as submitted and not as confirmed.\<close>

definition outstanding :: "(nat \<Rightarrow> pc) \<Rightarrow> manager \<Rightarrow> call_key \<Rightarrow> (nat \<times> nat) set" where
  "outstanding T m key = {(i, k). in_pool m i k \<and> slot_key m i k = key \<and>
     (ps_state (slot_of m i k) = PENDING \<or> (\<exists>t st. owned (T t) = Some (i, k, st, True)))}"

definition accounted :: "pool_sys \<Rightarrow> bool" where
  "accounted s \<longleftrightarrow> (\<forall>key. submissions key (cm_log (sy_pool s)) =
     confirmations key (cm_log (sy_pool s)) + card (outstanding (sy_threads s) (sy_pool s) key))"

lemmas log_defs = submissions_def confirmations_def is_submission_def is_confirmation_def call_key_def
  FL_CHECKPOINT_def FL_DEVICE_CONFIRMED_def SUBMITTED_def POOL_FULL_def QUERY_ERROR_def NOT_READY_def

lemma finite_outstanding [simp]: "finite (outstanding T m key)"
proof (rule finite_subset)
  show "outstanding T m key \<subseteq> (SIGMA i:{..<length (cm_streams m)}. {..<length (st_slots (cm_streams m ! i))})"
    by (auto simp: outstanding_def in_pool_def)
qed simp

text \<open>Only the slot at \<open>(i, k)\<close> is touched, and its owner changes its mind from \<open>b\<close> to \<open>b'\<close>.\<close>

lemma outstanding_at:
  assumes "owners_ok T m" and "owned (T t) = Some (i, k, st, b)"
  shows "(i, k) \<in> outstanding T m key \<longleftrightarrow> slot_key m i k = key \<and> b"
proof -
  from assms have ik: "in_pool m i k" "ps_state (slot_of m i k) = st"
    and single: "\<And>u st' b'. owned (T u) = Some (i, k, st', b') \<Longrightarrow> u = t"
    unfolding owners_ok_def by blast+
  have "st \<noteq> PENDING" using assms(2) by (cases "T t") auto
  then have "(i, k) \<in> outstanding T m key \<longleftrightarrow> slot_key m i k = key \<and> (\<exists>u st'. owned (T u) = Some (i, k, st', True))"
    using ik by (simp add: outstanding_def)
  also have "(\<exists>u st'. owned (T u) = Some (i, k, st', True)) \<longleftrightarrow> b"
    using assms(2) single by fastforce
  finally show ?thesis .
qed

lemma outstanding_free:
  assumes "\<And>t. owned_slot (T t) \<noteq> Some (i, k)" and "in_pool m i k"
  shows "(i, k) \<in> outstanding T m key \<longleftrightarrow> slot_key m i k = key \<and> ps_state (slot_of m i k) = PENDING"
  using assms by (force simp: outstanding_def owned_slot_def)

lemma outstanding_elsewhere:
  assumes "slot_move (T t) m pc' m'" and "stream_id m' i = stream_id m i"
    and "owned_slot (T t) \<noteq> Some (i, k)" and "owned_slot pc' \<noteq> Some (i, k)"
  shows "(i, k) \<in> outstanding (T(t := pc')) m' key \<longleftrightarrow> (i, k) \<in> outstanding T m key"
proof -
  have "in_pool m' i k = in_pool m i k" "slot_of m' i k = slot_of m i k"
    using assms unfolding slot_move_def by blast+
  moreover have "(\<exists>u st. owned ((T(t := pc')) u) = Some (i, k, st, True)) \<longleftrightarrow>
      (\<exists>u st. owned (T u) = Some (i, k, st, True))"
  proof
    assume "\<exists>u st. owned ((T(t := pc')) u) = Some (i, k, st, True)"
    then show "\<exists>u st. owned (T u) = Some (i, k, st, True)"
      using assms(4) by (auto simp: owned_slot_def split: if_splits)
  next
    assume "\<exists>u st. owned (T u) = Some (i, k, st, True)"
    then obtain u st where "owned (T u) = Some (i, k, st, True)" by blast
    moreover with assms(3) have "u \<noteq> t" by (auto simp: owned_slot_def)
    ultimately show "\<exists>u st. owned ((T(t := pc')) u) = Some (i, k, st, True)"
      by (intro exI [of _ u] exI [of _ st]) simp
  qed
  ultimately show ?thesis
    using assms(2) by (simp add: outstanding_def slot_key_def)
qed

lemma card_except_one:
  assumes "finite A" and "finite B" and "\<And>y. y \<noteq> x \<Longrightarrow> y \<in> A \<longleftrightarrow> y \<in> B"
  shows "card B + of_bool (x \<in> A) = card A + of_bool (x \<in> B)"
proof -
  have "A - {x} = B - {x}" using assms(3) by auto
  moreover have "card C = card (C - {x}) + of_bool (x \<in> C)" if "finite C" for C
    using that card_Suc_Diff1 [of C x] by (cases "x \<in> C") auto
  ultimately show ?thesis using assms(1,2) by (metis add.assoc add.commute)
qed

text \<open>What the log gains in a step, against what the touched slot stands for before and after.\<close>

definition log_balance :: "call_key \<Rightarrow> record_call list \<Rightarrow> record_call list \<Rightarrow> bool \<Rightarrow> bool \<Rightarrow> bool" where
  "log_balance key log log' b b' \<longleftrightarrow>
     submissions key log' + confirmations key log + of_bool b =
     submissions key log + confirmations key log' + of_bool b'"

lemma accounted_move:
  assumes "accounted s" and "slot_move (sy_threads s t) (sy_pool s) pc' m'"
    and "\<And>j. stream_id m' j = stream_id (sy_pool s) j"
    and "\<And>x. owned_slot (sy_threads s t) = Some x \<or> owned_slot pc' = Some x \<Longrightarrow> x = (i, k)"
    and "\<And>key. log_balance key (cm_log (sy_pool s)) (cm_log m')
      ((i, k) \<in> outstanding (sy_threads s) (sy_pool s) key)
      ((i, k) \<in> outstanding ((sy_threads s)(t := pc')) m' key)"
    and "sy_pool s' = m'" and "sy_threads s' = (sy_threads s)(t := pc')"
  shows "accounted s'"
  unfolding accounted_def assms(6,7)
proof
  fix key
  let ?A = "outstanding (sy_threads s) (sy_pool s) key" and ?B = "outstanding ((sy_threads s)(t := pc')) m' key"
  have "y \<in> ?A \<longleftrightarrow> y \<in> ?B" if "y \<noteq> (i, k)" for y
  proof -
    obtain i' k' where y: "y = (i', k')" by fastforce
    have "owned_slot (sy_threads s t) \<noteq> Some (i', k')" "owned_slot pc' \<noteq> Some (i', k')"
      using that assms(4) y by blast+
    with outstanding_elsewhere [of "sy_threads s" t "sy_pool s" pc' m' i' k' key] assms(2,3) y
    show ?thesis by simp
  qed
  then have "card ?B + of_bool ((i, k) \<in> ?A) = card ?A + of_bool ((i, k) \<in> ?B)"
    by (intro card_except_one) simp_all
  moreover have "submissions key (cm_log (sy_pool s)) = confirmations key (cm_log (sy_pool s)) + card ?A"
    using assms(1) unfolding accounted_def by blast
  ultimately show "submissions key (cm_log m') = confirmations key (cm_log m') + card ?B"
    using assms(5) [of key] unfolding log_balance_def by linarith
qed

lemma log_balance_same [simp]: "log_balance key log log b b"
  by (simp add: log_balance_def)

lemma counts_log_call:
  "submissions key (cm_log (log_call env ty sid c a0 a1 fl m)) =
    submissions key (cm_log m) + of_bool (ty = FL_CHECKPOINT \<and> fl AND SUBMITTED \<noteq> 0 \<and> (sid, c, a0, a1) = key)"
  "confirmations key (cm_log (log_call env ty sid c a0 a1 fl m)) =
    confirmations key (cm_log m) + of_bool (ty = FL_DEVICE_CONFIRMED \<and> (sid, c, a0, a1) = key)"
  by (auto simp: log_call_def submissions_def confirmations_def is_submission_def is_confirmation_def call_key_def)

lemma log_types [simp]:
  "FL_CHECKPOINT \<noteq> FL_DEVICE_CONFIRMED" "FL_DEVICE_CONFIRMED \<noteq> FL_CHECKPOINT"
  "POOL_FULL AND SUBMITTED = 0" "QUERY_ERROR AND SUBMITTED = 0" "NOT_READY AND SUBMITTED = 0"
  "SUBMITTED \<noteq> 0"
  by (simp_all add: log_defs)

lemma owned_busy: "owned pc = Some (i, k, st, b) \<Longrightarrow> \<not> resting st"
  by (cases pc) (auto simp: resting_def)

lemma unowned:
  "owners_ok T m \<Longrightarrow> resting (ps_state (slot_of m i k)) \<Longrightarrow> owned_slot (T u) \<noteq> Some (i, k)"
  unfolding owners_ok_def owned_slot_def using owned_busy by fastforce

lemma accounted_run:
  assumes "pool_ok s" and "accounted s"
  shows "accounted (run_thread t env s)"
proof -
  let ?T = "sy_threads s" and ?m = "sy_pool s"
  obtain pc' m' where r: "pool_step env (?T t) ?m = (pc', m')" by fastforce
  have next_ok: "pool_ok (run_thread t env s)" by (rule pool_ok_run [OF assms(1)])
  have next_fields: "sy_pool (run_thread t env s) = m'" "sy_threads (run_thread t env s) = ?T(t := pc')"
    by (simp_all add: run_thread_def r)
  from assms(1) have ok: "shape_ok ?m" "pc_ok ?m (?T t)" and owners: "owners_ok ?T ?m"
    by (simp_all add: pool_ok_def)
  from next_ok have owners': "owners_ok (?T(t := pc')) m'"
    unfolding pool_ok_def next_fields by blast
  have own: "owned (?T t) = Some (i, k, st, b) \<Longrightarrow> in_pool ?m i k \<and> ps_state (slot_of ?m i k) = st" for i k st b
    using owners unfolding owners_ok_def by blast
  have move: "slot_move (?T t) ?m pc' m'" using step_slot_move [OF ok own, where env = env] r by simp
  have ids: "stream_id m' j = stream_id ?m j" for j using step_frame(4) [of env "?T t" ?m j] r by simp
  have quiet: "log_balance key (cm_log ?m) (cm_log m') B B" if "owned (?T t) = None" for key B
  proof -
    have "submissions key (cm_log m') = submissions key (cm_log ?m)"
      "confirmations key (cm_log m') = confirmations key (cm_log ?m)"
      using that r by (cases "?T t"; auto simp: counts_log_call Let_def split: if_splits)+
    then show ?thesis by (simp add: log_balance_def)
  qed
  have held: "log_balance key (cm_log ?m) (cm_log m') (slot_key ?m i k = key \<and> b) (slot_key m' i k = key \<and> b')"
    if "owned (?T t) = Some (i, k, st, b)" and
      "case owned pc' of None \<Rightarrow> b' = (ps_state (slot_of m' i k) = PENDING) | Some (_, _, _, c') \<Rightarrow> b' = c'"
    for key i k st b b'
    using that own [OF that(1)] ok(2) r
    by (cases "?T t")
      (auto simp: log_balance_def counts_log_call slot_key_def slot_of_set_slot Let_def query_result_def
        split: if_splits)
  show ?thesis
  proof (cases "owned (?T t)")
    case None
    show ?thesis
    proof (cases "owned pc'")
      case none: None
      have "(0, 0) \<in> outstanding (?T(t := pc')) m' key \<longleftrightarrow> (0, 0) \<in> outstanding ?T ?m key" for key
        using outstanding_elsewhere [of ?T t ?m pc' m' 0 0 key] move ids None none by (simp add: owned_slot_def)
      then show ?thesis
        using quiet [OF None] None none
        by (intro accounted_move [OF assms(2) move ids, of 0 0]) (simp_all add: owned_slot_def next_fields)
    next
      case (Some o')
      then obtain i k st b where o: "owned pc' = Some (i, k, st, b)" by (cases o') auto
      from None have t: "owned (?T t) = None" .
      have take: "in_pool ?m i k" "resting (ps_state (slot_of ?m i k))" "b = (ps_state (slot_of ?m i k) = PENDING)"
        and key: "slot_key m' i k = slot_key ?m i k"
        using step_take [OF ok t, of env i k st b] o r ids by (simp_all add: slot_key_def)
      have before: "(i, k) \<in> outstanding ?T ?m key \<longleftrightarrow> slot_key ?m i k = key \<and> b" for key
        using outstanding_free [of ?T i k ?m key] unowned [OF owners] take by simp
      have after: "(i, k) \<in> outstanding (?T(t := pc')) m' key \<longleftrightarrow> slot_key m' i k = key \<and> b" for key
        using outstanding_at [OF owners', of t i k st b] o by simp
      show ?thesis
        using quiet [OF t] t o before after key
        by (intro accounted_move [OF assms(2) move ids, of i k]) (auto simp: owned_slot_def next_fields)
    qed
  next
    case (Some o')
    then obtain i k st b where o: "owned (?T t) = Some (i, k, st, b)" by (cases o') auto
    have before: "(i, k) \<in> outstanding ?T ?m key \<longleftrightarrow> slot_key ?m i k = key \<and> b" for key
      by (rule outstanding_at [OF owners o])
    show ?thesis
    proof (cases "owned pc'")
      case None
      have ik: "in_pool m' i k" "resting (ps_state (slot_of m' i k))"
        using move o None by (simp_all add: slot_move_def)
      have after: "(i, k) \<in> outstanding (?T(t := pc')) m' key \<longleftrightarrow>
          slot_key m' i k = key \<and> ps_state (slot_of m' i k) = PENDING" for key
        using outstanding_free [of "?T(t := pc')" i k m' key] unowned [OF owners' ik(2)] ik(1) by blast
      show ?thesis
        using held [OF o] None o before after
        by (intro accounted_move [OF assms(2) move ids, of i k]) (auto simp: owned_slot_def next_fields)
    next
      case (Some o2)
      then obtain st' b' where o2: "owned pc' = Some (i, k, st', b')"
        using move o by (cases o2) (simp add: slot_move_def)
      have after: "(i, k) \<in> outstanding (?T(t := pc')) m' key \<longleftrightarrow> slot_key m' i k = key \<and> b'" for key
        using outstanding_at [OF owners', of t i k st' b'] o2 by simp
      show ?thesis
        using held [OF o] o2 o before after
        by (intro accounted_move [OF assms(2) move ids, of i k]) (auto simp: owned_slot_def next_fields)
    qed
  qed
qed

text \<open>Transitions of no thread.\<close>

lemma accounted_cong:
  assumes "accounted s" and "cm_log m' = cm_log (sy_pool s)"
    and "\<And>i k. in_pool (sy_pool s) i k \<Longrightarrow>
      in_pool m' i k \<and> slot_of m' i k = slot_of (sy_pool s) i k \<and> stream_id m' i = stream_id (sy_pool s) i"
    and "\<And>i k. in_pool m' i k \<Longrightarrow> \<not> in_pool (sy_pool s) i k \<Longrightarrow> ps_state (slot_of m' i k) = FREE"
    and "\<And>t i k st b. owned (sy_threads s t) = Some (i, k, st, b) \<Longrightarrow> in_pool (sy_pool s) i k"
  shows "accounted (s\<lparr>sy_pool := m'\<rparr>)"
proof -
  have "outstanding (sy_threads s) m' key = outstanding (sy_threads s) (sy_pool s) key" for key
    using assms(3,4,5) unfolding outstanding_def slot_key_def by (fastforce)
  with assms(1,2) show ?thesis by (simp add: accounted_def)
qed

lemma accounted_call:
  assumes "accounted s" and "sy_threads s t = Idle"
    and "r = submit_call sid seq ckpt (sy_pool s) \<or> r = poll_call budget (sy_pool s)"
  shows "accounted (call_thread t r s)"
proof -
  let ?m = "sy_pool s"
  obtain pc' m' where r: "r = (pc', m')" by fastforce
  note frames = submit_call_frame [of sid seq ckpt ?m] poll_call_frame [of budget ?m]
  from assms(3) r have m': "m' = snd (submit_call sid seq ckpt ?m) \<or> m' = snd (poll_call budget ?m)"
    by (metis snd_conv)
  have same: "in_pool m' i k = in_pool ?m i k" "slot_of m' i k = slot_of ?m i k"
      "stream_id m' i = stream_id ?m i" "cm_log m' = cm_log ?m" for i k
    using m' by (auto simp: frames)
  have fresh: "owned pc' = None"
    using assms(3) r by (auto simp: submit_call_def poll_call_def split: if_splits option.splits)
  have "slot_move (sy_threads s t) ?m pc' m'"
    by (rule call_slot_move) (simp_all add: fresh assms(2) same)
  moreover from this have "(0, 0) \<in> outstanding ((sy_threads s)(t := pc')) m' key \<longleftrightarrow>
      (0, 0) \<in> outstanding (sy_threads s) ?m key" for key
    using outstanding_elsewhere [of "sy_threads s" t ?m pc' m' 0 0 key] same(3) assms(2) fresh
    by (simp add: owned_slot_def)
  ultimately show ?thesis
    by (intro accounted_move [OF assms(1) _ same(3), of t pc' 0 0])
      (simp_all add: owned_slot_def assms(2) fresh same(4) call_thread_def r)
qed

lemma accounted_trans:
  assumes "pool_trans answers s s'" and "pool_ok s" and "accounted s"
  shows "accounted s'"
  using assms
proof (induction rule: pool_trans.induct)
  case (register s creates sid handle)
  have idle: "sy_threads s t = Idle" for t using register by (simp add: all_idle_def)
  obtain rc m' where r: "register_stream creates sid handle (sy_pool s) = (rc, m')" by fastforce
  from r have "accounted (s\<lparr>sy_pool := m'\<rparr>)"
  proof (cases rule: register_stream_cases)
    case 1
    with register show ?thesis by simp
  next
    case (2 slots)
    show ?thesis
    proof (rule accounted_cong [OF register(3)])
      fix i k
      assume "in_pool (sy_pool s) i k"
      then show "in_pool m' i k \<and> slot_of m' i k = slot_of (sy_pool s) i k \<and> stream_id m' i = stream_id (sy_pool s) i"
        using appended_stream(1,2) [OF 2(4), of i k] appended_stream(3) [OF 2(4), of i] by (simp add: in_pool_def)
    next
      fix i k
      assume "in_pool m' i k" "\<not> in_pool (sy_pool s) i k"
      then have new: "i = length (cm_streams (sy_pool s))" "k < length slots"
        using appended_stream(1) [OF 2(4), of i k] by simp_all
      with 2(3) have "\<exists>e. slots ! k = new_slot e" by simp
      with new appended_stream(4) [OF 2(4), of k] show "ps_state (slot_of m' i k) = FREE"
        by (auto simp: new_slot_def)
    qed (simp_all add: 2(4) idle)
  qed
  with r show ?case by simp
next
  case (submit s t sid seq ckpt)
  then show ?case by (intro accounted_call [OF _ _ disjI1 [OF refl]])
next
  case (poll s t budget)
  then show ?case by (intro accounted_call [OF _ _ disjI2 [OF refl]])
next
  case (thread s t env)
  then show ?case by (intro accounted_run)
next
  case (device s i)
  then show ?case by (simp add: accounted_def)
next
  case (start interval_us budget spawned s rc m)
  have "in_pool m = in_pool (sy_pool s)" "slot_of m = slot_of (sy_pool s)" "stream_id m = stream_id (sy_pool s)"
    using start_poller_frame [OF start(1)] by (simp_all add: in_pool_def slot_of_def stream_id_def fun_eq_iff)
  then show ?case
    using start start_poller_frame [OF start(1)]
    by (simp add: accounted_def outstanding_def slot_key_def)
next
  case (poller s budget)
  then show ?case by (intro accounted_call [OF _ _ disjI2 [OF refl]])
qed (simp_all add: accounted_def outstanding_def slot_key_def in_pool_def slot_of_def stream_id_def
    poller_exit_def request_stop_def join_poller_def)

theorem pool_reach_accounted: "pool_reach answers sched s \<Longrightarrow> pool_ok s \<and> accounted s"
proof (induction rule: pool_reach.induct)
  case (create given memory slots m)
  then have "accounted (pool_start m)"
    by (auto simp: checkpoint_create_def pool_start_def accounted_def outstanding_def in_pool_def
      submissions_def confirmations_def split: if_splits)
  with create pool_ok_start show ?case by blast
qed (simp_all add: pool_ok_trans accounted_trans)

lemma cm_log_call [simp]:
  "cm_log (log_call env ty sid c a0 a1 fl m) = cm_log m @ [\<lparr>rc_type = ty, rc_stream = sid,
    rc_correlation = c, rc_arg0 = a0, rc_arg1 = a1, rc_flags = fl, rc_now = pe_now env, rc_tid = pe_tid env\<rparr>]"
  by (simp add: log_call_def)

end
