(* ===== verification/Checkpoint_Device.thy ===== *)
theory Checkpoint_Device
  imports Checkpoint_System
begin

text \<open>
  The pool against the device: the order of the submission records of a stream is the order in which
  the device got the events, and only finished events are confirmed, provided that one thread at a
  time submits to a stream and the device works on a stream in order.
\<close>

subsection \<open>The invariant\<close>

fun submits_to :: "pc \<Rightarrow> nat option" where
  "submits_to (Try i start n seq ckpt) = Some i"
| "submits_to (Reject i seq ckpt) = Some i"
| "submits_to (Fill i k seq ckpt) = Some i"
| "submits_to (Note i k seq ckpt gen) = Some i"
| "submits_to (Publish i k gen) = Some i"
| "submits_to _ = None"

definition one_submitter :: "pool_sys \<Rightarrow> bool" where
  "one_submitter s \<longleftrightarrow> (\<forall>t t' i. submits_to (sy_threads s t) = Some i \<longrightarrow>
     submits_to (sy_threads s t') = Some i \<longrightarrow> t = t')"

text \<open>Threads that hold a slot whose event is recorded, and what a slot or a record says of it.\<close>

fun carries :: "pc \<Rightarrow> (nat \<times> nat) option" where
  "carries (Note i k seq ckpt gen) = Some (i, k)"
| "carries (Publish i k gen) = Some (i, k)"
| "carries (Query i k gen l) = Some (i, k)"
| "carries (Release i k st l) = (if st = PENDING then Some (i, k) else None)"
| "carries _ = None"

type_synonym event_key = "u64 \<times> u64 \<times> u64"

definition slot_event_key :: "manager \<Rightarrow> nat \<Rightarrow> nat \<Rightarrow> event_key" where
  "slot_event_key m i k = (ps_checkpoint_id (slot_of m i k), ps_submitted_seq (slot_of m i k),
     ps_generation (slot_of m i k))"

definition call_event_key :: "record_call \<Rightarrow> event_key" where
  "call_event_key c = (rc_correlation c, rc_arg0 c, rc_arg1 c)"

definition armed :: "(nat \<Rightarrow> pc) \<Rightarrow> manager \<Rightarrow> nat \<Rightarrow> nat \<Rightarrow> bool" where
  "armed T m i k \<longleftrightarrow> in_pool m i k \<and>
     (ps_state (slot_of m i k) = PENDING \<or> (\<exists>t. carries (T t) = Some (i, k)))"

definition places_ok :: "pool_sys \<Rightarrow> bool" where
  "places_ok s \<longleftrightarrow> (\<forall>i k. armed (sy_threads s) (sy_pool s) i k \<longrightarrow>
     sy_place s i k < length (sy_queue s i) \<and> sy_queue s i ! sy_place s i k = slot_event_key (sy_pool s) i k)"

lemma carries_owned: "carries pc = Some (i, k) \<Longrightarrow> owned_slot pc = Some (i, k)"
  by (cases pc) (auto simp: owned_slot_def split: if_splits)

lemma owned_carries: "owned pc = Some (i, k, st, True) \<Longrightarrow> carries pc = Some (i, k)"
  by (cases pc) auto

lemma carries_step:
  assumes "carries (fst (pool_step env pc m)) = Some (i, k)" and "\<And>i k seq ckpt. pc \<noteq> Fill i k seq ckpt"
  shows "carries pc = Some (i, k) \<or> owned pc = None"
  using assms by (cases pc) (auto simp: query_result_def Let_def split: if_splits)

text \<open>Only the fill step arms a slot.\<close>

lemma armed_step:
  assumes "pool_ok s" and "\<And>i k seq ckpt. sy_threads s t \<noteq> Fill i k seq ckpt"
    and "pool_step env (sy_threads s t) (sy_pool s) = (pc', m')"
    and "armed ((sy_threads s)(t := pc')) m' i k"
  shows "armed (sy_threads s) (sy_pool s) i k"
proof -
  let ?T = "sy_threads s" and ?m = "sy_pool s"
  from assms(1) have ok: "shape_ok ?m" "pc_ok ?m (?T t)" and owners: "owners_ok ?T ?m"
    by (simp_all add: pool_ok_def)
  have own: "owned (?T t) = Some (i, k, st, b) \<Longrightarrow> in_pool ?m i k \<and> ps_state (slot_of ?m i k) = st" for i k st b
    using owners unfolding owners_ok_def by blast
  have move: "slot_move (?T t) ?m pc' m'" using step_slot_move [OF ok own, where env = env] assms(3) by simp
  have frame: "in_pool m' i k = in_pool ?m i k" using move by (simp add: slot_move_def)
  with assms(4) have ik: "in_pool ?m i k" by (simp add: armed_def)
  from assms(4) consider "ps_state (slot_of m' i k) = PENDING" | u where "carries ((?T(t := pc')) u) = Some (i, k)"
    by (auto simp: armed_def)
  then show ?thesis
  proof cases
    case 1
    show ?thesis
    proof (cases "owned (?T t)")
      case None
      have "owned_slot pc' \<noteq> Some (i, k)"
      proof
        assume "owned_slot pc' = Some (i, k)"
        then obtain st b where o: "owned pc' = Some (i, k, st, b)" by (auto simp: owned_slot_def)
        with move None 1 have "st = PENDING" by (simp add: slot_move_def)
        with owned_busy [OF o] show False by (simp add: resting_def)
      qed
      with move None have "slot_of m' i k = slot_of ?m i k" by (simp add: slot_move_def owned_slot_def)
      with 1 ik show ?thesis by (simp add: armed_def)
    next
      case (Some o')
      then obtain i' k' st b where o: "owned (?T t) = Some (i', k', st, b)" by (cases o') auto
      show ?thesis
      proof (cases "i' = i \<and> k' = k")
        case True
        have "owned pc' = None"
        proof (rule ccontr)
          assume "owned pc' \<noteq> None"
          then obtain j l st' b' where o': "owned pc' = Some (j, l, st', b')" by (cases "owned pc'") auto
          with move o True 1 have "st' = PENDING" by (simp add: slot_move_def)
          with owned_busy [OF o'] show False by (simp add: resting_def)
        qed
        then have "b"
          using step_hold [OF ok(2) o, of env] own [OF o] True 1 assms(3) by simp
        with True o have "carries (?T t) = Some (i, k)" using owned_carries by simp
        with ik show ?thesis by (auto simp: armed_def)
      next
        case False
        have "owned_slot pc' \<noteq> Some (i, k)"
          using move o False by (auto simp: slot_move_def owned_slot_def split: option.splits)
        with move o False have "slot_of m' i k = slot_of ?m i k" by (simp add: slot_move_def owned_slot_def)
        with 1 ik show ?thesis by (simp add: armed_def)
      qed
    qed
  next
    case 2
    show ?thesis
    proof (cases "u = t")
      case True
      with 2 have c: "carries pc' = Some (i, k)" by simp
      from carries_step [of env "?T t" ?m i k] assms(2,3) c
      consider "carries (?T t) = Some (i, k)" | "owned (?T t) = None" by auto
      then show ?thesis
      proof cases
        case 1
        with ik show ?thesis by (auto simp: armed_def)
      next
        case none: 2
        have "owned pc' = Some (i, k, QUERYING, True)"
          using c none assms(3) by (cases "?T t") (auto simp: Let_def split: if_splits)
        with move none have "ps_state (slot_of ?m i k) = PENDING" by (simp add: slot_move_def)
        with ik show ?thesis by (simp add: armed_def)
      qed
    next
      case False
      with 2 have "carries (?T u) = Some (i, k)" by simp
      with ik show ?thesis by (auto simp: armed_def)
    qed
  qed
qed

lemma slot_event_key_step:
  assumes "\<And>i k seq ckpt. pc \<noteq> Fill i k seq ckpt"
  shows "slot_event_key (snd (pool_step env pc m)) i k = slot_event_key m i k"
proof -
  have same: "ps_checkpoint_id (slot_of (set_slot j l f m') i k) = ps_checkpoint_id (slot_of m' i k) \<and>
      ps_submitted_seq (slot_of (set_slot j l f m') i k) = ps_submitted_seq (slot_of m' i k) \<and>
      ps_generation (slot_of (set_slot j l f m') i k) = ps_generation (slot_of m' i k)"
    if "\<And>s. ps_checkpoint_id (f s) = ps_checkpoint_id s \<and> ps_submitted_seq (f s) = ps_submitted_seq s \<and>
      ps_generation (f s) = ps_generation s" for f j l m'
  proof (cases "j < length (cm_streams m') \<and> l < length (st_slots (cm_streams m' ! j))")
    case True
    then show ?thesis using that by (simp add: slot_of_set_slot in_pool_def)
  next
    case False
    then have "slot_of (set_slot j l f m') i k = slot_of m' i k"
      by (cases "j < length (cm_streams m')")
        (auto simp: slot_of_def set_slot_def nth_list_update list_update_beyond)
    then show ?thesis by simp
  qed
  show ?thesis
    using assms by (cases pc) (auto simp: slot_event_key_def query_result_def Let_def same)
qed

lemma run_thread_fields [simp]:
  "sy_pool (run_thread t env s) = snd (pool_step env (sy_threads s t) (sy_pool s))"
  "sy_threads (run_thread t env s) = (sy_threads s)(t := fst (pool_step env (sy_threads s t) (sy_pool s)))"
  "sy_done (run_thread t env s) = sy_done s"
  by (simp_all add: run_thread_def split: prod.split)

lemma run_thread_device:
  "sy_queue (run_thread t env s) = sy_queue (device_step env (sy_threads s t) s)"
  "sy_place (run_thread t env s) = sy_place (device_step env (sy_threads s t) s)"
  by (simp_all add: run_thread_def split: prod.split)

lemma device_step_other:
  assumes "\<And>i k seq ckpt. pc \<noteq> Fill i k seq ckpt"
  shows "device_step env pc s = s"
proof (cases pc)
  case (Fill i k seq ckpt)
  with assms show ?thesis by blast
qed simp_all

lemma places_run:
  assumes "pool_ok s" and "places_ok s"
  shows "places_ok (run_thread t env s)"
proof (cases "\<exists>i k seq ckpt. sy_threads s t = Fill i k seq ckpt")
  case False
  then have nofill: "sy_threads s t \<noteq> Fill i k seq ckpt" for i k seq ckpt by blast
  have same: "sy_queue (run_thread t env s) = sy_queue s" "sy_place (run_thread t env s) = sy_place s"
    using device_step_other [OF nofill] by (simp_all add: run_thread_device)
  show ?thesis
    unfolding places_ok_def same
  proof (intro allI impI)
    fix i k
    assume "armed (sy_threads (run_thread t env s)) (sy_pool (run_thread t env s)) i k"
    then have "armed (sy_threads s) (sy_pool s) i k"
      using armed_step [OF assms(1) nofill prod.collapse [symmetric]] by simp
    then show "sy_place s i k < length (sy_queue s i) \<and>
        sy_queue s i ! sy_place s i k = slot_event_key (sy_pool (run_thread t env s)) i k"
      using assms(2) slot_event_key_step [OF nofill] by (simp add: places_ok_def)
  qed
next
  case True
  then obtain i k seq ckpt where fill: "sy_threads s t = Fill i k seq ckpt" by blast
  let ?T = "sy_threads s" and ?m = "sy_pool s"
  from assms(1) have owners: "owners_ok ?T ?m" by (simp add: pool_ok_def)
  have o: "owned (?T t) = Some (i, k, RESERVED, False)" using fill by simp
  then have ik: "in_pool ?m i k" using owners unfolding owners_ok_def by blast
  have alone: "u = t" if "carries (?T u) = Some (i, k)" for u
    using carries_owned [OF that] o owners unfolding owners_ok_def owned_slot_def by fastforce
  have nocarry: "carries (?T t) \<noteq> Some x" for x using fill by simp
  show ?thesis
    unfolding places_ok_def
  proof (intro allI impI)
    fix i' k'
    assume armed: "armed (sy_threads (run_thread t env s)) (sy_pool (run_thread t env s)) i' k'"
    show "sy_place (run_thread t env s) i' k' < length (sy_queue (run_thread t env s) i') \<and>
      sy_queue (run_thread t env s) i' ! sy_place (run_thread t env s) i' k' =
        slot_event_key (sy_pool (run_thread t env s)) i' k'"
    proof (cases "i' = i \<and> k' = k")
      case True
      have "pe_rc env = 0"
      proof (rule ccontr)
        assume "pe_rc env \<noteq> 0"
        with armed True ik fill obtain u where "carries (((?T)(t := Return (backend_error (pe_rc env)) None)) u) = Some (i, k)"
          by (auto simp: armed_def slot_of_set_slot Let_def)
        then show False using alone nocarry by (auto split: if_splits)
      qed
      with True fill ik show ?thesis
        by (simp add: run_thread_device slot_event_key_def slot_of_set_slot Let_def)
    next
      case False
      have other: "slot_of (snd (pool_step env (?T t) ?m)) i' k' = slot_of ?m i' k'"
        using fill False ik by (auto simp: slot_of_set_slot Let_def)
      have "armed ?T ?m i' k'"
        using armed fill False other
        by (auto simp: armed_def step_frame Let_def split: if_splits)
      with assms(2) have old: "sy_place s i' k' < length (sy_queue s i')"
        "sy_queue s i' ! sy_place s i' k' = slot_event_key ?m i' k'" by (simp_all add: places_ok_def)
      have "slot_event_key (snd (pool_step env (?T t) ?m)) i' k' = slot_event_key ?m i' k'"
        using other by (simp add: slot_event_key_def)
      with old fill False show ?thesis
        by (auto simp: run_thread_device nth_append)
    qed
  qed
qed

subsection \<open>Order of the records and of the device\<close>

fun noted :: "pc \<Rightarrow> nat \<Rightarrow> event_key list" where
  "noted (Note j k seq ckpt gen) i = (if j = i then [(ckpt, seq, gen)] else [])"
| "noted _ i = []"

definition logged :: "manager \<Rightarrow> nat \<Rightarrow> event_key list" where
  "logged m i = map call_event_key
     (filter (\<lambda>c. is_submission c \<and> rc_stream c = stream_id m i) (cm_log m))"

definition order_ok :: "pool_sys \<Rightarrow> bool" where
  "order_ok s \<longleftrightarrow> (\<forall>i < length (cm_streams (sy_pool s)).
     ((\<forall>t. noted (sy_threads s t) i = []) \<longrightarrow> sy_queue s i = logged (sy_pool s) i) \<and>
     (\<forall>t. noted (sy_threads s t) i \<noteq> [] \<longrightarrow>
        sy_queue s i = logged (sy_pool s) i @ noted (sy_threads s t) i))"

definition confirmed_ok :: "pool_sys \<Rightarrow> bool" where
  "confirmed_ok s \<longleftrightarrow> (\<forall>i < length (cm_streams (sy_pool s)). \<forall>c \<in> set (cm_log (sy_pool s)).
     is_confirmation c \<and> rc_stream c = stream_id (sy_pool s) i \<longrightarrow>
     call_event_key c \<in> set (take (sy_done s i) (sy_queue s i)))"

definition ids_ok :: "pool_sys \<Rightarrow> bool" where
  "ids_ok s \<longleftrightarrow> (\<forall>c \<in> set (cm_log (sy_pool s)). is_submission c \<or> is_confirmation c \<longrightarrow>
     rc_stream c \<in> st_id ` set (cm_streams (sy_pool s)))"

definition queues_ok :: "pool_sys \<Rightarrow> bool" where
  "queues_ok s \<longleftrightarrow> (\<forall>i. length (cm_streams (sy_pool s)) \<le> i \<longrightarrow> sy_queue s i = [])"

lemma stream_id_inject:
  "shape_ok m \<Longrightarrow> i < length (cm_streams m) \<Longrightarrow> j < length (cm_streams m) \<Longrightarrow>
    stream_id m i = stream_id m j \<longleftrightarrow> i = j"
  using nth_eq_iff_index_eq [of "map st_id (cm_streams m)" i j]
  by (simp add: shape_ok_def stream_id_def)

lemma queue_step:
  "sy_queue (device_step env pc s) i = sy_queue s i @ noted (fst (pool_step env pc (sy_pool s))) i"
  by (cases pc) (auto simp: query_result_def Let_def)

lemma logged_step:
  assumes "shape_ok m" and "i < length (cm_streams m)"
    and "\<And>j k st b. owned pc = Some (j, k, st, b) \<Longrightarrow> in_pool m j k"
  shows "logged (snd (pool_step env pc m)) i = logged m i @ noted pc i"
proof (cases pc)
  case (Note j k seq ckpt gen)
  with assms(3) [of j k RESERVED False] have "j < length (cm_streams m)" by (simp add: in_pool_def)
  with Note stream_id_inject [OF assms(1,2), of j] show ?thesis
    by (auto simp: logged_def is_submission_def call_event_key_def)
qed (auto simp: logged_def is_submission_def call_event_key_def query_result_def Let_def)

lemma confirmations_step:
  assumes "c \<in> set (cm_log (snd (pool_step env pc m)))" and "is_confirmation c"
  shows "c \<in> set (cm_log m) \<or> (\<exists>j k gen l. pc = Query j k gen l \<and> pe_rc env = 1 \<and>
    rc_stream c = stream_id m j \<and>
    call_event_key c = (ps_checkpoint_id (slot_of m j k), ps_submitted_seq (slot_of m j k), gen))"
  using assms
  by (cases pc) (auto simp: is_confirmation_def call_event_key_def query_result_def Let_def split: if_splits)

lemma ids_step:
  assumes "pc_ok m pc" and "\<And>j k st b. owned pc = Some (j, k, st, b) \<Longrightarrow> in_pool m j k"
    and "c \<in> set (cm_log (snd (pool_step env pc m)))" and "is_submission c \<or> is_confirmation c"
  shows "c \<in> set (cm_log m) \<or> rc_stream c \<in> st_id ` set (cm_streams m)"
  using assms
  by (cases pc) (auto simp: is_confirmation_def is_submission_def query_result_def in_pool_def stream_id_def Let_def
    split: if_splits)

lemma noted_submits: "noted pc i \<noteq> [] \<Longrightarrow> submits_to pc = Some i"
  by (cases pc) (auto split: if_splits)

lemma noted_after: "noted (fst (pool_step env pc m)) i \<noteq> [] \<Longrightarrow> submits_to pc = Some i \<and> noted pc j = []"
  by (cases pc) (auto simp: query_result_def Let_def split: if_splits)

lemma order_run:
  assumes "pool_ok s" and "order_ok s" and "one_submitter s"
  shows "order_ok (run_thread t env s)"
proof -
  let ?T = "sy_threads s" and ?m = "sy_pool s"
  let ?pc' = "fst (pool_step env (?T t) ?m)" and ?m' = "snd (pool_step env (?T t) ?m)"
  from assms(1) have ok: "shape_ok ?m" and owners: "owners_ok ?T ?m" by (simp_all add: pool_ok_def)
  have own: "owned (?T t) = Some (i, k, st, b) \<Longrightarrow> in_pool ?m i k" for i k st b
    using owners unfolding owners_ok_def by blast
  have alone: "noted (?T u) i = []" if "submits_to (?T t) = Some i" "u \<noteq> t" for u i
    using that noted_submits [of "?T u" i] assms(3) unfolding one_submitter_def by blast
  show ?thesis
    unfolding order_ok_def
  proof (intro allI impI)
    fix i
    assume "i < length (cm_streams (sy_pool (run_thread t env s)))"
    then have i: "i < length (cm_streams ?m)" by (simp add: step_frame)
    from assms(2) i have none: "(\<forall>u. noted (?T u) i = []) \<Longrightarrow> sy_queue s i = logged ?m i"
      and some: "noted (?T u) i \<noteq> [] \<Longrightarrow> sy_queue s i = logged ?m i @ noted (?T u) i" for u
      unfolding order_ok_def by blast+
    have logged: "logged ?m' i = logged ?m i @ noted (?T t) i"
      by (rule logged_step [OF ok i own])
    have queue: "sy_queue (run_thread t env s) i = sy_queue s i @ noted ?pc' i"
      by (simp add: run_thread_device queue_step)
    consider (fill) "noted ?pc' i \<noteq> []" | (logs) "noted (?T t) i \<noteq> []" "noted ?pc' i = []"
      | (other) "noted (?T t) i = []" "noted ?pc' i = []" by blast
    then have "((\<forall>u. noted ((?T(t := ?pc')) u) i = []) \<longrightarrow>
          sy_queue (run_thread t env s) i = logged ?m' i) \<and>
        (\<forall>u. noted ((?T(t := ?pc')) u) i \<noteq> [] \<longrightarrow>
          sy_queue (run_thread t env s) i = logged ?m' i @ noted ((?T(t := ?pc')) u) i)"
    proof cases
      case fill
      from noted_after [OF fill, of i] have t: "submits_to (?T t) = Some i" "noted (?T t) i = []" by simp_all
      have "noted (?T u) i = []" for u using t alone by (cases "u = t") simp_all
      then have "sy_queue s i = logged ?m i" using none by simp
      then have q: "sy_queue (run_thread t env s) i = logged ?m' i @ noted ?pc' i"
        using logged queue t by simp
      have "u = t" if "noted ((?T(t := ?pc')) u) i \<noteq> []" for u
        using that alone [OF t(1), of u] by (auto split: if_splits)
      with q fill show ?thesis by (metis fun_upd_same)
    next
      case logs
      then have "sy_queue s i = logged ?m i @ noted (?T t) i" by (intro some)
      then have q: "sy_queue (run_thread t env s) i = logged ?m' i" using logged queue logs by simp
      have "noted ((?T(t := ?pc')) u) i = []" for u
        using logs alone [OF noted_submits [OF logs(1)], of u] by simp
      with q show ?thesis by simp
    next
      case other
      have same: "noted ((?T(t := ?pc')) u) i = noted (?T u) i" for u using other by simp
      show ?thesis
        unfolding same using none some logged queue other by simp
    qed
    then show "((\<forall>u. noted (sy_threads (run_thread t env s) u) i = []) \<longrightarrow>
          sy_queue (run_thread t env s) i = logged (sy_pool (run_thread t env s)) i) \<and>
        (\<forall>u. noted (sy_threads (run_thread t env s) u) i \<noteq> [] \<longrightarrow>
          sy_queue (run_thread t env s) i =
            logged (sy_pool (run_thread t env s)) i @ noted (sy_threads (run_thread t env s) u) i)"
      by simp
  qed
qed

subsection \<open>All transitions\<close>

definition in_order :: "(nat \<Rightarrow> nat \<Rightarrow> int \<Rightarrow> bool) \<Rightarrow> bool" where
  "in_order answers \<longleftrightarrow> (\<forall>place done rc. answers place done rc \<and> rc = 1 \<longrightarrow> place < done)"

definition device_ok :: "pool_sys \<Rightarrow> bool" where
  "device_ok s \<longleftrightarrow> places_ok s \<and> order_ok s \<and> confirmed_ok s \<and> ids_ok s \<and> queues_ok s"

lemma confirmed_run:
  assumes "pool_ok s" and "places_ok s" and "confirmed_ok s" and "in_order answers"
    and "may_answer answers env (sy_threads s t) s"
  shows "confirmed_ok (run_thread t env s)"
  unfolding confirmed_ok_def
proof (intro allI ballI impI)
  let ?T = "sy_threads s" and ?m = "sy_pool s"
  fix i c
  assume "i < length (cm_streams (sy_pool (run_thread t env s)))"
    and c: "c \<in> set (cm_log (sy_pool (run_thread t env s)))"
    and "is_confirmation c \<and> rc_stream c = stream_id (sy_pool (run_thread t env s)) i"
  then have i: "i < length (cm_streams ?m)" and conf: "is_confirmation c" and sid: "rc_stream c = stream_id ?m i"
    by (simp_all add: step_frame)
  have queue: "sy_queue (run_thread t env s) i = sy_queue s i @ noted (fst (pool_step env (?T t) ?m)) i"
    by (simp add: run_thread_device queue_step)
  have "call_event_key c \<in> set (take (sy_done s i) (sy_queue s i))"
    using confirmations_step [OF c [unfolded run_thread_fields] conf]
  proof (elim disjE exE conjE)
    assume "c \<in> set (cm_log ?m)"
    with assms(3) i conf sid show ?thesis unfolding confirmed_ok_def by blast
  next
    fix j k gen l
    assume q: "?T t = Query j k gen l" and rc: "pe_rc env = 1" and "rc_stream c = stream_id ?m j"
      and key: "call_event_key c = (ps_checkpoint_id (slot_of ?m j k), ps_submitted_seq (slot_of ?m j k), gen)"
    have "owned (?T t) = Some (j, k, QUERYING, True)" by (simp add: q)
    with assms(1) have jk: "in_pool ?m j k" unfolding pool_ok_def owners_ok_def by blast
    then have "j < length (cm_streams ?m)" by (simp add: in_pool_def)
    with assms(1) i sid \<open>rc_stream c = stream_id ?m j\<close> stream_id_inject [of ?m i j] have ij: "j = i"
      by (simp add: pool_ok_def)
    have "carries (?T t) = Some (j, k)" by (simp add: q)
    with jk have "armed ?T ?m j k" by (auto simp: armed_def)
    with assms(2) have p: "sy_place s j k < length (sy_queue s j)"
      "sy_queue s j ! sy_place s j k = slot_event_key ?m j k" by (simp_all add: places_ok_def)
    have "pc_ok ?m (?T t)" using assms(1) by (simp add: pool_ok_def)
    then have "slot_event_key ?m j k = call_event_key c" by (simp add: q key slot_event_key_def)
    moreover have "sy_place s j k < sy_done s j"
      using assms(4,5) q rc by (simp add: in_order_def)
    ultimately show ?thesis
      using p ij nth_mem [of "sy_place s j k" "take (sy_done s i) (sy_queue s i)"] by simp
  qed
  then show "call_event_key c \<in> set (take (sy_done (run_thread t env s) i) (sy_queue (run_thread t env s) i))"
    by (simp add: queue)
qed

lemma ids_queues_run:
  assumes "pool_ok s" and "ids_ok s" and "queues_ok s"
  shows "ids_ok (run_thread t env s) \<and> queues_ok (run_thread t env s)"
proof -
  let ?T = "sy_threads s" and ?m = "sy_pool s"
  from assms(1) have ok: "pc_ok ?m (?T t)" and shape: "shape_ok ?m" by (simp_all add: pool_ok_def)
  have own: "owned (?T t) = Some (i, k, st, b) \<Longrightarrow> in_pool ?m i k" for i k st b
    using assms(1) unfolding pool_ok_def owners_ok_def by blast
  let ?m' = "snd (pool_step env (?T t) ?m)"
  have ids: "st_id ` set (cm_streams ?m') = st_id ` set (cm_streams ?m)"
  proof -
    have "map st_id (cm_streams ?m') = map st_id (cm_streams ?m)"
      using step_frame(2,4) [of env "?T t" ?m] by (intro nth_equalityI) (simp_all add: stream_id_def)
    then show ?thesis by (metis list.set_map)
  qed
  have "ids_ok (run_thread t env s)"
    unfolding ids_ok_def run_thread_fields ids
  proof (intro ballI impI)
    fix c
    assume "c \<in> set (cm_log ?m')" and c: "is_submission c \<or> is_confirmation c"
    then have "c \<in> set (cm_log ?m) \<or> rc_stream c \<in> st_id ` set (cm_streams ?m)"
      using ids_step [of ?m "?T t" c env] ok own by blast
    with assms(2) c show "rc_stream c \<in> st_id ` set (cm_streams ?m)" unfolding ids_ok_def by blast
  qed
  moreover have "noted (fst (pool_step env (?T t) ?m)) i = []" if "length (cm_streams ?m) \<le> i" for i
  proof (rule ccontr)
    assume n: "\<not> ?thesis"
    then obtain k seq ckpt where "?T t = Fill i k seq ckpt"
      by (cases "?T t") (auto simp: query_result_def Let_def split: if_splits)
    then have "in_pool ?m i k" using own [of i k RESERVED False] by simp
    with that show False by (simp add: in_pool_def)
  qed
  then have "queues_ok (run_thread t env s)"
    using assms(3) by (simp add: queues_ok_def run_thread_device queue_step step_frame)
  ultimately show ?thesis by blast
qed

text \<open>Calls and the other transitions touch neither the log nor the slots.\<close>

lemma device_ok_cong:
  assumes "device_ok s" and "sy_queue s' = sy_queue s" and "sy_place s' = sy_place s" and "sy_done s' = sy_done s"
    and "cm_log (sy_pool s') = cm_log (sy_pool s)"
    and "length (cm_streams (sy_pool s')) = length (cm_streams (sy_pool s))"
    and "\<And>i. stream_id (sy_pool s') i = stream_id (sy_pool s) i"
    and "\<And>i k. in_pool (sy_pool s') i k = in_pool (sy_pool s) i k"
    and "\<And>i k. slot_of (sy_pool s') i k = slot_of (sy_pool s) i k"
    and "\<And>t. carries (sy_threads s' t) = carries (sy_threads s t)"
    and "\<And>t i. noted (sy_threads s' t) i = noted (sy_threads s t) i"
  shows "device_ok s'"
proof -
  have "map st_id (cm_streams (sy_pool s')) = map st_id (cm_streams (sy_pool s))"
    using assms(6,7) by (intro nth_equalityI) (simp_all add: stream_id_def)
  then have "st_id ` set (cm_streams (sy_pool s')) = st_id ` set (cm_streams (sy_pool s))"
    by (metis list.set_map)
  then have "ids_ok s'" using assms(1,5) by (simp add: device_ok_def ids_ok_def)
  moreover have "places_ok s'"
    using assms by (simp add: device_ok_def places_ok_def armed_def slot_event_key_def)
  moreover have "order_ok s'"
    using assms by (simp add: device_ok_def order_ok_def logged_def)
  moreover have "confirmed_ok s'" "queues_ok s'"
    using assms by (simp_all add: device_ok_def confirmed_ok_def queues_ok_def)
  ultimately show ?thesis by (simp add: device_ok_def)
qed

lemma device_ok_call:
  assumes "device_ok s" and "sy_threads s t = Idle"
    and "r = submit_call sid seq ckpt (sy_pool s) \<or> r = poll_call budget (sy_pool s)"
  shows "device_ok (call_thread t r s)"
proof -
  let ?m = "sy_pool s"
  note frames = submit_call_frame [of sid seq ckpt ?m] poll_call_frame [of budget ?m]
  from assms(3) have "carries (fst r) = None" "noted (fst r) i = []" for i
    by (auto simp: submit_call_def poll_call_def split: option.splits)
  moreover from assms(3) have "cm_log (snd r) = cm_log ?m" "length (cm_streams (snd r)) = length (cm_streams ?m)"
    "stream_id (snd r) i = stream_id ?m i" "in_pool (snd r) i k = in_pool ?m i k"
    "slot_of (snd r) i k = slot_of ?m i k" for i k
    by (auto simp: frames)
  ultimately show ?thesis
    using assms(2) by (intro device_ok_cong [OF assms(1)]) (simp_all add: call_thread_def)
qed

lemma device_ok_register:
  assumes "device_ok s" and "all_idle s"
  shows "device_ok (s\<lparr>sy_pool := snd (register_stream creates sid handle (sy_pool s))\<rparr>)"
proof -
  obtain rc m' where r: "register_stream creates sid handle (sy_pool s) = (rc, m')" by fastforce
  from assms(2) have idle: "sy_threads s t = Idle" for t by (simp add: all_idle_def)
  from r have "device_ok (s\<lparr>sy_pool := m'\<rparr>)"
  proof (cases rule: register_stream_cases)
    case 1
    with assms(1) show ?thesis by simp
  next
    case (2 slots)
    let ?n = "length (cm_streams (sy_pool s))"
    note new = appended_stream [OF 2(4)]
    from assms(1) have ids: "c \<in> set (cm_log (sy_pool s)) \<Longrightarrow> is_submission c \<or> is_confirmation c \<Longrightarrow>
        rc_stream c \<in> st_id ` set (cm_streams (sy_pool s))" for c
      by (auto simp: device_ok_def ids_ok_def)
    have fresh: "sid \<notin> st_id ` set (cm_streams (sy_pool s))" using 2(1) by (simp add: find_stream_def)
    have new_id: "stream_id m' ?n = sid" using 2(4) by (simp add: stream_id_def)
    have log: "cm_log m' = cm_log (sy_pool s)" using 2(4) by simp
    have fresh_log: "is_submission c \<or> is_confirmation c \<Longrightarrow> c \<in> set (cm_log (sy_pool s)) \<Longrightarrow> rc_stream c \<noteq> sid" for c
      using ids fresh by blast
    have empty: "logged m' ?n = []"
      using fresh_log by (auto simp: logged_def log new_id filter_empty_conv)
    have "logged m' i = logged (sy_pool s) i" if "i < ?n" for i
      using that new(3) by (simp add: logged_def log)
    moreover have "sy_queue s ?n = []" using assms(1) by (simp add: device_ok_def queues_ok_def)
    ultimately have "order_ok (s\<lparr>sy_pool := m'\<rparr>)"
      using assms(1) empty 2(4) by (auto simp: device_ok_def order_ok_def idle less_Suc_eq)
    moreover have "armed (sy_threads s) (sy_pool s) i k \<and> slot_event_key m' i k = slot_event_key (sy_pool s) i k"
      if "armed (sy_threads s) m' i k" for i k
    proof -
      from that have a: "in_pool m' i k" "ps_state (slot_of m' i k) = PENDING" by (simp_all add: armed_def idle)
      have "in_pool (sy_pool s) i k"
      proof (rule ccontr)
        assume "\<not> in_pool (sy_pool s) i k"
        with a(1) new(1) have at: "i = ?n" "k < length slots" by auto
        then have "\<exists>e. slots ! k = new_slot e" using 2(3) by simp
        with a(2) at new(4) show False by (auto simp: new_slot_def)
      qed
      moreover from this new(2) have "slot_of m' i k = slot_of (sy_pool s) i k" by (simp add: in_pool_def)
      ultimately show ?thesis using a by (simp add: armed_def slot_event_key_def)
    qed
    then have "places_ok (s\<lparr>sy_pool := m'\<rparr>)"
      using assms(1) by (auto simp: device_ok_def places_ok_def)
    moreover have "confirmed_ok (s\<lparr>sy_pool := m'\<rparr>)"
      unfolding confirmed_ok_def
    proof (intro allI ballI impI)
      fix i c
      assume i: "i < length (cm_streams (sy_pool (s\<lparr>sy_pool := m'\<rparr>)))"
        and c: "c \<in> set (cm_log (sy_pool (s\<lparr>sy_pool := m'\<rparr>)))"
        and conf: "is_confirmation c \<and> rc_stream c = stream_id (sy_pool (s\<lparr>sy_pool := m'\<rparr>)) i"
      have "i \<noteq> ?n" using fresh_log [of c] c conf new_id log by auto
      with i 2(4) have "i < ?n" by simp
      with assms(1) c conf log new(3) show "call_event_key c \<in>
          set (take (sy_done (s\<lparr>sy_pool := m'\<rparr>) i) (sy_queue (s\<lparr>sy_pool := m'\<rparr>) i))"
        by (simp add: device_ok_def confirmed_ok_def)
    qed
    moreover have "ids_ok (s\<lparr>sy_pool := m'\<rparr>)" "queues_ok (s\<lparr>sy_pool := m'\<rparr>)"
      using assms(1) log 2(4) by (auto simp: device_ok_def ids_ok_def queues_ok_def)
    ultimately show ?thesis by (simp add: device_ok_def)
  qed
  with r show ?thesis by simp
qed

lemma device_ok_trans:
  assumes "pool_trans answers s s'" and "pool_ok s" and "device_ok s" and "one_submitter s" and "in_order answers"
  shows "device_ok s'"
  using assms
proof (induction rule: pool_trans.induct)
  case (register s creates sid handle)
  then show ?case by (intro device_ok_register)
next
  case (submit s t sid seq ckpt)
  then show ?case by (intro device_ok_call [OF _ _ disjI1 [OF refl]])
next
  case (poll s t budget)
  then show ?case by (intro device_ok_call [OF _ _ disjI2 [OF refl]])
next
  case (thread s t env)
  then show ?case
    using places_run order_run confirmed_run ids_queues_run by (simp add: device_ok_def)
next
  case (device s i)
  let ?s = "s\<lparr>sy_done := (sy_done s)(i := Suc (sy_done s i))\<rparr>"
  have more: "set (take (sy_done s j) (sy_queue s j)) \<subseteq> set (take (sy_done ?s j) (sy_queue s j))" for j
    by (simp add: set_take_subset_set_take)
  have same: "sy_pool ?s = sy_pool s" "sy_queue ?s = sy_queue s" by simp_all
  have "confirmed_ok s" using device by (simp add: device_ok_def)
  with more have "confirmed_ok ?s" unfolding confirmed_ok_def same by blast
  with device show ?case
    by (simp add: device_ok_def places_ok_def order_ok_def ids_ok_def queues_ok_def)
next
  case (start interval_us budget spawned s rc m)
  from start_poller_frame [OF start(1)] show ?case
    by - (rule device_ok_cong [OF start(3)], simp_all add: stream_id_def in_pool_def slot_of_def)
next
  case (poller s budget)
  then show ?case by (intro device_ok_call [OF _ _ disjI2 [OF refl]])
next
  case (stopped s)
  show ?case
    by (rule device_ok_cong [of s]) (use stopped in \<open>simp_all add: poller_exit_def stream_id_def in_pool_def slot_of_def\<close>)
next
  case (request s)
  show ?case
    by (rule device_ok_cong [of s]) (use request in \<open>simp_all add: request_stop_def stream_id_def in_pool_def slot_of_def\<close>)
next
  case (join s)
  show ?case
    by (rule device_ok_cong [of s]) (use join in \<open>simp_all add: join_poller_def stream_id_def in_pool_def slot_of_def\<close>)
qed

lemma pool_reach_device:
  assumes "in_order answers"
  shows "pool_reach answers one_submitter s \<Longrightarrow> pool_ok s \<and> device_ok s \<and> one_submitter s"
proof (induction rule: pool_reach.induct)
  case (create given memory slots m)
  then have "device_ok (pool_start m)"
    by (auto simp: checkpoint_create_def pool_start_def device_ok_def places_ok_def order_ok_def
      confirmed_ok_def ids_ok_def queues_ok_def armed_def in_pool_def split: if_splits)
  with create pool_ok_start show ?case by (auto simp: pool_start_def one_submitter_def)
next
  case (trans s s')
  then show ?case using pool_ok_trans device_ok_trans assms by blast
qed

end
