(* ===== verification/Checkpoint_Evidence.thy ===== *)
theory Checkpoint_Evidence
  imports Checkpoint_Device Checkpoint_Progress
begin

text \<open>
  From the checkpoint pool to the report: the calls of \<open>flight_record\<close> that the pool made, as the
  events that the analyzer reads back, and what its progress lists say about the device.
\<close>

unbundle bit_operations_syntax

subsection \<open>Calls as events\<close>

definition call_view :: "shm \<Rightarrow> record_call \<Rightarrow> nat \<Rightarrow> event" where
  "call_view m c n = event_view (filled_event m c (of_nat n))"

definition is_checkpoint_call :: "record_call \<Rightarrow> bool" where
  "is_checkpoint_call c \<longleftrightarrow> rc_type c = FL_CHECKPOINT \<or> rc_type c = FL_DEVICE_CONFIRMED"

definition int_key :: "event_key \<Rightarrow> int \<times> int \<times> int" where
  "int_key = (\<lambda>(ckpt, seq, gen). (uint ckpt, uint seq, uint gen))"

lemma int_key_inject [simp]: "int_key a = int_key b \<longleftrightarrow> a = b"
  by (cases a; cases b) (simp add: int_key_def word_uint_eq_iff)

definition progress_key :: "event \<Rightarrow> int \<times> int \<times> int" where
  "progress_key e = (ev_correlation_id e, ev_arg0 e, ev_arg1 e)"

lemma call_view_fields [simp]:
  "ev_stream (call_view m c n) = uint (rc_stream c)" "ev_seq (call_view m c n) = uint (of_nat n :: u64)"
  "ev_flags (call_view m c n) = uint (rc_flags c)" "progress_key (call_view m c n) = int_key (call_event_key c)"
  "ev_type (call_view m c n) = type_name (uint (rc_type c))" "ev_arg1 (call_view m c n) = uint (rc_arg1 c)"
  by (simp_all add: call_view_def event_view_def filled_event_def progress_key_def int_key_def call_event_key_def)

lemma checkpoint_key_progress:
  "checkpoint_key a = checkpoint_key b \<longleftrightarrow> ev_stream a = ev_stream b \<and> progress_key a = progress_key b"
  by (auto simp: checkpoint_key_def progress_key_def)

lemma type_name_checkpoint:
  "type_name (uint (t :: u16)) = ''CHECKPOINT'' \<longleftrightarrow> t = FL_CHECKPOINT"
  "type_name (uint (t :: u16)) = ''DEVICE_CONFIRMED'' \<longleftrightarrow> t = FL_DEVICE_CONFIRMED"
proof -
  have names: "type_name 23 = ''CHECKPOINT''" "type_name 24 = ''DEVICE_CONFIRMED''"
    by (simp_all add: type_name_def NAMES_def)
  have "type_name (uint t) = type_name (uint u) \<longleftrightarrow> t = u" for u :: u16
    using type_name_eqD [of "uint t" "uint u"] word_uint_eq_iff [of t u] by auto
  from this [of 23] this [of 24]
  show "type_name (uint t) = ''CHECKPOINT'' \<longleftrightarrow> t = FL_CHECKPOINT"
    "type_name (uint t) = ''DEVICE_CONFIRMED'' \<longleftrightarrow> t = FL_DEVICE_CONFIRMED"
    by (simp_all add: names FL_CHECKPOINT_def FL_DEVICE_CONFIRMED_def)
qed

definition submitted_event :: "event \<Rightarrow> bool" where
  "submitted_event e \<longleftrightarrow> ev_type e = ''CHECKPOINT'' \<and> has_flag e CHECKPOINT_SUBMITTED"

lemma call_view_submitted [simp]: "submitted_event (call_view m c n) \<longleftrightarrow> is_submission c"
proof -
  have "uint (rc_flags c) AND 1 = uint (rc_flags c AND 1)" by (simp add: unsigned_and_eq)
  then have "uint (rc_flags c) AND 1 = 0 \<longleftrightarrow> rc_flags c AND 1 = 0" by (simp only: unsigned_eq_0_iff)
  then show ?thesis
    by (simp add: submitted_event_def is_submission_def has_flag_def CHECKPOINT_SUBMITTED_def
        type_name_checkpoint SUBMITTED_def)
qed

lemma call_view_confirmed [simp]:
  "ev_type (call_view m c n) = ''DEVICE_CONFIRMED'' \<longleftrightarrow> is_confirmation c"
  by (simp add: is_confirmation_def type_name_checkpoint)

lemma history_view: "history m cs = map (\<lambda>(n, c). call_view m c n) (zip [1..<Suc (length cs)] cs)"
  by (rule nth_equalityI) (simp_all add: history_def call_view_def del: upt_Suc)

lemma map_filter_zip:
  "length ns = length cs \<Longrightarrow> map (\<lambda>(n, c). f c) (filter (\<lambda>(n, c). P c) (zip ns cs)) = map f (filter P cs)"
  by (induction ns cs rule: list_induct2) simp_all

lemma history_drop:
  "drop d (history m cs) = map (\<lambda>(n, c). call_view m c n) (zip (drop d [1..<Suc (length cs)]) (drop d cs))"
  by (simp add: history_view drop_map drop_zip del: upt_Suc)

lemma filter_history:
  "map progress_key (filter (\<lambda>e. ev_stream e = uint sid) (filter submitted_event (drop d (history m cs)))) =
    map (int_key \<circ> call_event_key) (filter (\<lambda>c. is_submission c \<and> rc_stream c = sid) (drop d cs))"
proof -
  have "map progress_key (filter (\<lambda>e. ev_stream e = uint sid) (filter submitted_event
        (map (\<lambda>(n, c). call_view m c n) xs))) =
      map (\<lambda>(n, c). int_key (call_event_key c)) (filter (\<lambda>(n, c). is_submission c \<and> rc_stream c = sid) xs)" for xs
    by (induction xs) (auto simp: split_beta word_uint_eq_iff)
  then show ?thesis
    by (simp only: history_drop) (simp add: map_filter_zip comp_def del: upt_Suc)
qed

lemma in_drop_history:
  "e \<in> set (drop d (history m cs)) \<Longrightarrow> \<exists>c \<in> set cs. \<exists>n. e = call_view m c n"
  by (auto simp: history_drop dest!: set_zip_rightD in_set_dropD simp del: upt_Suc)

subsection \<open>What stands before a finished event is finished\<close>

lemma finished_before:
  assumes "queue = pre @ keys @ rest" and "distinct (pre @ keys)"
    and "i \<le> j" and "j < length keys" and "keys ! j \<in> set (take n queue)"
  shows "keys ! i \<in> set (take n queue)"
proof -
  let ?L = "pre @ keys"
  from assms(5) obtain p where p: "p < n" "p < length queue" "queue ! p = keys ! j"
    by (auto simp: in_set_conv_nth)
  have at: "queue ! (length pre + l) = keys ! l" if "l < length keys" for l
    using that assms(1) by (simp add: nth_append)
  have "length pre + j < n"
  proof (cases "p < length ?L")
    case True
    then have "?L ! p = ?L ! (length pre + j)"
      using p(3) assms(1,4) by (simp add: nth_append split: if_splits)
    moreover have "length pre + j < length ?L" using assms(4) by simp
    ultimately have "p = length pre + j"
      using nth_eq_iff_index_eq [OF assms(2) True] by blast
    with p show ?thesis by simp
  next
    case False
    with p assms(4) show ?thesis by simp
  qed
  then have pos: "length pre + i < length (take n queue)" using assms(1,3,4) by simp
  moreover have "take n queue ! (length pre + i) = keys ! i"
    using at [of i] assms(3,4) pos by simp
  ultimately show ?thesis by (metis nth_mem)
qed

lemma shown_confirmed:
  assumes "mp \<in> set (pr_checkpoint_mappings pr)" and "(k, pr) \<in> set (rank_progress submitted confirmed not_ready)"
    and "mp_status mp \<noteq> ''unconfirmed''"
  obtains i j where "i \<le> j" and "j < length (stream_checkpoints submitted k)"
    and "confirmed_by confirmed (stream_checkpoints submitted k ! j)"
    and "progress_key (stream_checkpoints submitted k ! i) =
      (mp_checkpoint_id mp, mp_submitted_seq mp, mp_generation mp)"
proof -
  let ?cps = "stream_checkpoints submitted k" and ?exact = "exact_confirmations confirmed"
  have "pr_checkpoint_mappings pr =
      map (checkpoint_mapping ?exact ?cps (last_confirmed ?exact ?cps)) [0..<length ?cps]"
    using rank_progress_entry(1) [OF assms(2)]
    by (simp add: stream_progress_of_def Let_def stream_checkpoints_def)
  with assms(1) obtain i where i: "i < length ?cps"
    and mp: "mp = checkpoint_mapping ?exact ?cps (last_confirmed ?exact ?cps) i" by auto
  have "\<exists>j. i \<le> j \<and> j < length ?cps \<and> confirmed_by confirmed (?cps ! j)"
  proof (cases "confirmed_by confirmed (?cps ! i)")
    case True
    with i show ?thesis by blast
  next
    case False
    with mapping_status [OF i, of confirmed] assms(3)
    have "\<exists>j. i < j \<and> j < length ?cps \<and> confirmed_by confirmed (?cps ! j)"
      unfolding mp by metis
    then show ?thesis using less_imp_le by blast
  qed
  then obtain j where "i \<le> j" "j < length ?cps" "confirmed_by confirmed (?cps ! j)" by blast
  then show thesis
    by (rule that) (simp add: mp checkpoint_mapping_def progress_key_def Let_def)
qed

subsection \<open>From the pool to the report\<close>

lemma checkpoints_in_order:
  "sorted (map ev_seq xs) \<Longrightarrow> stream_checkpoints xs k = filter (\<lambda>e. ev_stream e = k) xs"
  unfolding stream_checkpoints_def by (rule sort_key_id_if_sorted) (rule sorted_filter)

lemma shown_finished:
  assumes reach: "pool_reach answers one_submitter s" and order: "in_order answers"
    and calls: "filter is_checkpoint_call calls = cm_log (sy_pool s)"
    and distinct: "distinct (map call_key (filter is_submission calls))"
    and short: "length calls < 2 ^ 64"
    and ev: "ev = drop d (history m0 calls)"
    and progress: "(k, pr) \<in> set (rank_progress (filter submitted_event ev)
      (filter (\<lambda>e. ev_type e = ''DEVICE_CONFIRMED'') ev) not_ready)"
    and mp: "mp \<in> set (pr_checkpoint_mappings pr)" "mp_status mp \<noteq> ''unconfirmed''"
  shows "\<exists>i < length (cm_streams (sy_pool s)). k = uint (stream_id (sy_pool s) i) \<and>
    (mp_checkpoint_id mp, mp_submitted_seq mp, mp_generation mp)
      \<in> int_key ` set (take (sy_done s i) (sy_queue s i))"
proof -
  let ?m = "sy_pool s" and ?sub = "filter submitted_event ev"
  let ?conf = "filter (\<lambda>e. ev_type e = ''DEVICE_CONFIRMED'') ev"
  from pool_reach_device [OF order reach] have dev: "order_ok s" "confirmed_ok s" "ids_ok s"
    by (simp_all add: device_ok_def)
  have sub_log: "filter P calls = filter P (cm_log ?m)" if "\<And>c. P c \<Longrightarrow> is_checkpoint_call c" for P
    unfolding calls [symmetric] using that by (auto simp: filter_filter intro!: filter_cong)
  have kinds: "is_submission c \<Longrightarrow> is_checkpoint_call c" "is_confirmation c \<Longrightarrow> is_checkpoint_call c" for c
    by (simp_all add: is_submission_def is_confirmation_def is_checkpoint_call_def)
  have sorted: "sorted (map ev_seq ?sub)"
  proof -
    have "sorted (map ev_seq (history m0 calls))"
      unfolding history_seq [OF short] by (simp add: sorted_map sorted_wrt_mono_rel [OF _ sorted_upt] del: of_nat_Suc)
    then have "sorted (map ev_seq ev)" unfolding ev by (metis drop_map sorted_wrt_drop)
    then show ?thesis by (simp add: sorted_filter)
  qed
  obtain i j where ij: "i \<le> j" "j < length (stream_checkpoints ?sub k)"
    and cf: "confirmed_by ?conf (stream_checkpoints ?sub k ! j)"
    and key: "progress_key (stream_checkpoints ?sub k ! i) =
      (mp_checkpoint_id mp, mp_submitted_seq mp, mp_generation mp)"
    by (rule shown_confirmed [OF mp(1) progress mp(2)])
  have X: "stream_checkpoints ?sub k = filter (\<lambda>e. ev_stream e = k) ?sub"
    by (rule checkpoints_in_order [OF sorted])
  let ?X = "filter (\<lambda>e. ev_stream e = k) ?sub"
  from ij X have j: "j < length ?X" by simp
  then have "?X ! j \<in> set ?X" by (rule nth_mem)
  then have xj: "?X ! j \<in> set ev" "submitted_event (?X ! j)" "ev_stream (?X ! j) = k" by simp_all
  from xj(1) ev obtain cj nj where cj: "cj \<in> set calls" "?X ! j = call_view m0 cj nj"
    using in_drop_history by metis
  with xj have sj: "is_submission cj" "k = uint (rc_stream cj)" by auto
  then have "cj \<in> set (cm_log ?m)" using cj(1) kinds(1) [OF sj(1)] unfolding calls [symmetric] by simp
  with sj dev(3) have "rc_stream cj \<in> st_id ` set (cm_streams ?m)" by (auto simp: ids_ok_def)
  then obtain a where a: "a < length (cm_streams ?m)" "rc_stream cj = stream_id ?m a"
    by (auto simp: in_set_conv_nth stream_id_def)
  define sid where "sid = stream_id ?m a"
  have k: "k = uint sid" using sj(2) a(2) by (simp add: sid_def)
  let ?P = "\<lambda>c. is_submission c \<and> rc_stream c = sid"
  define keys where "keys = map call_event_key (filter ?P (drop d calls))"
  define pre where "pre = map call_event_key (filter ?P (take d calls))"
  have logged: "logged ?m a = pre @ keys"
  proof -
    have "filter ?P calls = filter ?P (cm_log ?m)" by (rule sub_log) (use kinds in blast)
    moreover have "filter ?P calls = filter ?P (take d calls) @ filter ?P (drop d calls)"
      by (metis append_take_drop_id filter_append)
    ultimately show ?thesis by (simp add: logged_def pre_def keys_def sid_def)
  qed
  have Xkeys: "map progress_key ?X = map int_key keys"
    using filter_history [of sid d m0 calls] by (simp add: ev k keys_def)
  then have len: "length ?X = length keys" by (metis length_map)
  have at: "progress_key (?X ! l) = int_key (keys ! l)" if "l < length keys" for l
  proof -
    have "map progress_key ?X ! l = map int_key keys ! l" by (simp only: Xkeys)
    with that len show ?thesis by (simp only: nth_map)
  qed
  obtain rest where queue: "sy_queue s a = pre @ keys @ rest"
  proof (cases "\<forall>t. noted (sy_threads s t) a = []")
    case True
    with dev(1) a(1) logged have "sy_queue s a = pre @ keys" by (simp add: order_ok_def)
    then show thesis by (intro that [of "[]"]) simp
  next
    case False
    then obtain t where "noted (sy_threads s t) a \<noteq> []" by blast
    with dev(1) a(1) logged have "sy_queue s a = (pre @ keys) @ noted (sy_threads s t) a"
      unfolding order_ok_def by metis
    then show thesis by (intro that [of "noted (sy_threads s t) a"]) simp
  qed
  have dist: "distinct (pre @ keys)"
  proof -
    have "distinct (map call_key (filter (\<lambda>c. rc_stream c = sid) (filter is_submission calls)))"
      by (rule distinct_map_filter [OF distinct])
    then have "distinct (map call_key (filter ?P calls))" by simp
    also have "map call_key (filter ?P calls) = map (Pair sid) (map call_event_key (filter ?P calls))"
      by (simp add: call_key_def call_event_key_def)
    finally have "distinct (map call_event_key (filter ?P calls))" by (rule distinct_map [THEN iffD1, THEN conjunct1])
    then show ?thesis unfolding pre_def keys_def by (metis append_take_drop_id filter_append map_append)
  qed
  have "keys ! j \<in> set (take (sy_done s a) (sy_queue s a))"
  proof -
    from cf X obtain c where c: "c \<in> set ?conf" "checkpoint_key c = checkpoint_key (?X ! j)"
      by (auto simp: confirmed_by_def)
    then obtain cc n where cc: "cc \<in> set calls" "c = call_view m0 cc n"
      using in_drop_history [of c d m0 calls] ev by auto
    with c(1) have "ev_type (call_view m0 cc n) = ''DEVICE_CONFIRMED''" by simp
    then have conf: "is_confirmation cc" by (simp only: call_view_confirmed)
    then have "cc \<in> set (cm_log ?m)" using cc(1) kinds(2) [OF conf] unfolding calls [symmetric] by simp
    moreover have "rc_stream cc = stream_id ?m a" "call_event_key cc = keys ! j"
      using c(2) cc(2) xj(3) k at [of j] j len by (simp_all add: checkpoint_key_progress sid_def word_uint_eq_iff)
    ultimately show ?thesis using dev(2) a(1) conf unfolding confirmed_ok_def by metis
  qed
  with finished_before [OF queue dist ij(1)] j len
  have "keys ! i \<in> set (take (sy_done s a) (sy_queue s a))" by simp
  moreover have "int_key (keys ! i) = (mp_checkpoint_id mp, mp_submitted_seq mp, mp_generation mp)"
    using at [of i] ij(1) j len key X by simp
  ultimately have "(mp_checkpoint_id mp, mp_submitted_seq mp, mp_generation mp)
      \<in> int_key ` set (take (sy_done s a) (sy_queue s a))"
    by (metis imageI)
  with a(1) k show ?thesis unfolding sid_def by blast
qed

end
