(* ===== verification/Checkpoint_Runs.thy ===== *)
theory Checkpoint_Runs
  imports Checkpoint_Evidence Sample_Runs
begin

text \<open>
  Concrete schedules of the checkpoint pool, executed: one thread that submits two checkpoints and
  polls, and two threads that submit to the same stream at the same time.
\<close>

subsection \<open>Executing a schedule\<close>

datatype action =
    Submit nat u32 u64 u64
  | Poll nat u32
  | Run nat int
  | Finish nat

definition quiet_env :: "int \<Rightarrow> step_env" where
  "quiet_env rc = \<lparr>pe_rc = rc, pe_now = 0, pe_tid = 0\<rparr>"

definition device_answers :: "nat \<Rightarrow> nat \<Rightarrow> int \<Rightarrow> bool" where
  "device_answers place done rc = (if rc = 1 then place < done else True)"

fun perform :: "action \<Rightarrow> pool_sys \<Rightarrow> pool_sys option" where
  "perform (Submit t sid seq ckpt) s =
     (if sy_threads s t = Idle \<and> t \<noteq> 0 then Some (call_thread t (submit_call sid seq ckpt (sy_pool s)) s) else None)"
| "perform (Poll t budget) s =
     (if sy_threads s t = Idle \<and> t \<noteq> 0 then Some (call_thread t (poll_call budget (sy_pool s)) s) else None)"
| "perform (Run t rc) s =
     (if sy_threads s t \<noteq> Idle \<and> may_answer device_answers (quiet_env rc) (sy_threads s t) s
      then Some (run_thread t (quiet_env rc) s) else None)"
| "perform (Finish i) s =
     (if sy_done s i < length (sy_queue s i) then Some (s\<lparr>sy_done := (sy_done s)(i := Suc (sy_done s i))\<rparr>) else None)"

fun perform_all :: "action list \<Rightarrow> pool_sys \<Rightarrow> pool_sys option" where
  "perform_all [] s = Some s"
| "perform_all (a # as) s = (case perform a s of None \<Rightarrow> None | Some s' \<Rightarrow> perform_all as s')"

lemma perform_trans: "perform a s = Some s' \<Longrightarrow> pool_trans device_answers s s'"
  by (cases a) (auto split: if_splits intro: pool_trans.intros)

lemma perform_all_reach:
  "perform_all as s = Some s' \<Longrightarrow> pool_reach device_answers (\<lambda>s. True) s \<Longrightarrow>
    pool_reach device_answers (\<lambda>s. True) s'"
proof (induction as arbitrary: s)
  case (Cons a as)
  then obtain s1 where s1: "perform a s = Some s1" "perform_all as s1 = Some s'" by (auto split: option.splits)
  from pool_reach.trans [OF Cons.prems(2) perform_trans [OF s1(1)]] have "pool_reach device_answers (\<lambda>s. True) s1"
    by simp
  with Cons.IH s1(2) show ?case by blast
qed simp

text \<open>A schedule of one thread has one submitter.\<close>

fun of_thread :: "nat \<Rightarrow> action \<Rightarrow> bool" where
  "of_thread t (Submit u sid seq ckpt) \<longleftrightarrow> u = t"
| "of_thread t (Poll u budget) \<longleftrightarrow> u = t"
| "of_thread t (Run u rc) \<longleftrightarrow> u = t"
| "of_thread t (Finish i) \<longleftrightarrow> True"

definition only_thread :: "nat \<Rightarrow> pool_sys \<Rightarrow> bool" where
  "only_thread t s \<longleftrightarrow> (\<forall>u. u \<noteq> t \<longrightarrow> sy_threads s u = Idle)"

lemma only_thread_submitter: "only_thread t s \<Longrightarrow> one_submitter s"
  unfolding only_thread_def one_submitter_def by (metis option.distinct(1) submits_to.simps(6))

lemma perform_only: "perform a s = Some s' \<Longrightarrow> of_thread t a \<Longrightarrow> only_thread t s \<Longrightarrow> only_thread t s'"
  by (cases a) (auto simp: only_thread_def call_thread_def run_thread_def split: if_splits prod.splits)

lemma perform_all_solo:
  "perform_all as s = Some s' \<Longrightarrow> list_all (of_thread t) as \<Longrightarrow> only_thread t s \<Longrightarrow>
    pool_reach device_answers one_submitter s \<Longrightarrow> pool_reach device_answers one_submitter s'"
proof (induction as arbitrary: s)
  case (Cons a as)
  then obtain s1 where s1: "perform a s = Some s1" "perform_all as s1 = Some s'" by (auto split: option.splits)
  have "only_thread t s1" using perform_only [OF s1(1)] Cons.prems by simp
  moreover from this have "pool_reach device_answers one_submitter s1"
    using pool_reach.trans [OF Cons.prems(4) perform_trans [OF s1(1)]] only_thread_submitter by blast
  ultimately show ?case using Cons s1(2) by simp
qed simp

lemma device_answers_in_order: "in_order device_answers"
  by (simp add: in_order_def device_answers_def)

subsection \<open>A pool of two slots for one stream\<close>

definition small_pool :: pool_sys where
  "small_pool = pool_start (snd (register_stream [(0, 1), (0, 2)] 7 9 (the (checkpoint_create True True 2))))"

lemma small_pool_reach: "sched small_pool \<Longrightarrow> pool_reach answers sched small_pool"
proof -
  assume sched: "sched small_pool"
  obtain m where m: "checkpoint_create True True 2 = Some m" by (simp add: checkpoint_create_def)
  let ?s = "pool_start m"
  have "pool_trans answers ?s (?s\<lparr>sy_pool := snd (register_stream [(0, 1), (0, 2)] 7 9 (sy_pool ?s))\<rparr>)"
    by (rule pool_trans.register) (simp add: all_idle_def pool_start_def)
  moreover have "?s\<lparr>sy_pool := snd (register_stream [(0, 1), (0, 2)] 7 9 (sy_pool ?s))\<rparr> = small_pool"
    by (simp add: small_pool_def pool_start_def m)
  ultimately show ?thesis
    using pool_reach.trans [OF pool_reach.create [OF m]] sched by metis
qed

lemma small_pool_idle: "sy_threads small_pool t = Idle"
  by (simp add: small_pool_def pool_start_def)

definition orderly_schedule :: "action list" where
  "orderly_schedule =
     [Submit 1 7 5 100, Run 1 0, Run 1 0, Run 1 0, Run 1 0, Run 1 0,
      Submit 1 7 6 101, Run 1 0, Run 1 0, Run 1 0, Run 1 0, Run 1 0,
      Finish 0, Poll 1 8, Run 1 0, Run 1 1, Run 1 0, Run 1 0, Run 1 0, Run 1 0, Run 1 0, Run 1 0, Run 1 0]"

definition crossing_schedule :: "action list" where
  "crossing_schedule =
     [Submit 1 7 5 100, Submit 2 7 6 101, Run 1 0, Run 1 0, Run 2 0, Run 2 0, Run 2 0, Run 1 0, Run 1 0, Run 2 0,
      Finish 0, Poll 3 1, Run 3 0, Run 3 1, Run 3 0]"

definition run_call :: "u16 \<Rightarrow> u64 \<Rightarrow> u64 \<Rightarrow> u16 \<Rightarrow> record_call" where
  "run_call kind ckpt seq fl = \<lparr>rc_type = kind, rc_stream = 7, rc_correlation = ckpt, rc_arg0 = seq,
     rc_arg1 = 1, rc_flags = fl, rc_now = 0, rc_tid = 0\<rparr>"

definition orderly_log :: "record_call list" where
  "orderly_log = [run_call 23 100 5 1, run_call 23 101 6 1, run_call 24 100 5 0, run_call 23 101 6 8]"

definition crossing_log :: "record_call list" where
  "crossing_log = [run_call 23 101 6 1, run_call 23 100 5 1, run_call 24 100 5 0]"

text \<open>The state after a schedule: its log, the device queue of the stream and what is finished.\<close>

definition seen_after :: "action list \<Rightarrow> (record_call list \<times> event_key list \<times> nat \<times> u32 list) option" where
  "seen_after as = map_option (\<lambda>s. (cm_log (sy_pool s), sy_queue s 0, sy_done s 0, map st_id (cm_streams (sy_pool s))))
     (perform_all as small_pool)"

lemma orderly_seen: "seen_after orderly_schedule = Some (orderly_log, [(100, 5, 1), (101, 6, 1)], 1, [7])"
  by code_simp

lemma crossing_seen: "seen_after crossing_schedule = Some (crossing_log, [(100, 5, 1), (101, 6, 1)], 1, [7])"
  by code_simp

lemma seen_afterE:
  assumes "seen_after as = Some (log, queue, done, ids)"
  obtains s where "perform_all as small_pool = Some s" and "cm_log (sy_pool s) = log"
    and "sy_queue s 0 = queue" and "sy_done s 0 = done" and "map st_id (cm_streams (sy_pool s)) = ids"
  using assms by (auto simp: seen_after_def)

lemma orderly_reach:
  obtains s where "pool_reach device_answers one_submitter s" and "cm_log (sy_pool s) = orderly_log"
    and "sy_queue s 0 = [(100, 5, 1), (101, 6, 1)]" and "sy_done s 0 = 1" and "map st_id (cm_streams (sy_pool s)) = [7]"
proof -
  obtain s where s: "perform_all orderly_schedule small_pool = Some s" "cm_log (sy_pool s) = orderly_log"
    "sy_queue s 0 = [(100, 5, 1), (101, 6, 1)]" "sy_done s 0 = 1" "map st_id (cm_streams (sy_pool s)) = [7]"
    by (rule seen_afterE [OF orderly_seen])
  have solo: "only_thread 1 small_pool" by (simp add: only_thread_def small_pool_idle)
  have "pool_reach device_answers one_submitter s"
  proof (rule perform_all_solo [OF s(1) _ solo])
    show "list_all (of_thread 1) orderly_schedule" by (simp add: orderly_schedule_def)
    show "pool_reach device_answers one_submitter small_pool"
      by (rule small_pool_reach) (rule only_thread_submitter [OF solo])
  qed
  from that [OF this s(2-5)] show thesis .
qed

lemma crossing_reach:
  obtains s where "pool_reach device_answers (\<lambda>s. True) s" and "cm_log (sy_pool s) = crossing_log"
    and "sy_queue s 0 = [(100, 5, 1), (101, 6, 1)]" and "sy_done s 0 = 1" and "map st_id (cm_streams (sy_pool s)) = [7]"
proof -
  obtain s where s: "perform_all crossing_schedule small_pool = Some s" "cm_log (sy_pool s) = crossing_log"
    "sy_queue s 0 = [(100, 5, 1), (101, 6, 1)]" "sy_done s 0 = 1" "map st_id (cm_streams (sy_pool s)) = [7]"
    by (rule seen_afterE [OF crossing_seen])
  have "pool_reach device_answers (\<lambda>s. True) s"
    by (rule perform_all_reach [OF s(1)]) (simp add: small_pool_reach)
  from that [OF this s(2-5)] show thesis .
qed

text \<open>What the analyzer shows of the two logs: the status of each checkpoint.\<close>

definition shown :: "record_call list \<Rightarrow> (int \<times> (int \<times> int \<times> int \<times> string) list) list" where
  "shown log =
     (let sc = scan_rank 0 (history (sample_ring 0) log) (scan_reset scan_init)
      in map (\<lambda>(k, pr). (k, map (\<lambda>mp. (mp_checkpoint_id mp, mp_submitted_seq mp, mp_generation mp, mp_status mp))
            (pr_checkpoint_mappings pr)))
          (rank_progress (sc_submitted sc) (sc_confirmed sc) (sc_not_ready sc)))"

lemma orderly_shown: "shown orderly_log =
    [(7, [(100, 5, 1, ''confirmed_exact''), (101, 6, 1, ''unconfirmed'')])]"
  by code_simp

lemma crossing_shown: "shown crossing_log =
    [(7, [(101, 6, 1, ''confirmed_by_later_checkpoint''), (100, 5, 1, ''confirmed_exact'')])]"
  by code_simp

end
