(* ===== verification/Checkpoint_Alone.thy ===== *)
theory Checkpoint_Alone
  imports Checkpoint_System
begin

text \<open>
  One thread of the checkpoint pool with no other thread in between: \<open>flight_checkpoint_submit\<close> and
  \<open>flight_checkpoint_poll\<close> from the call to the return. The fuel is one step per round of the search and
  three per round of the poll loop, which always suffices.
\<close>

subsection \<open>Running a thread to its end\<close>

fun run_alone :: "(pc \<Rightarrow> step_env) \<Rightarrow> nat \<Rightarrow> pc \<Rightarrow> manager \<Rightarrow> pc \<times> manager" where
  "run_alone env n (Return rc gen) m = (Return rc gen, m)"
| "run_alone env 0 pc m = (pc, m)"
| "run_alone env (Suc n) pc m = run_alone env n (fst (pool_step (env pc) pc m)) (snd (pool_step (env pc) pc m))"

definition checkpoint_submit ::
  "(pc \<Rightarrow> step_env) \<Rightarrow> u32 \<Rightarrow> u64 \<Rightarrow> u64 \<Rightarrow> manager \<Rightarrow> pc \<times> manager" where
  "checkpoint_submit env sid submitted_seq checkpoint_id m =
     (case submit_call sid submitted_seq checkpoint_id m of
        (pc, m') \<Rightarrow> run_alone env (unat (cm_slots_per_stream m) + 4) pc m')"

definition checkpoint_poll :: "(pc \<Rightarrow> step_env) \<Rightarrow> u32 \<Rightarrow> manager \<Rightarrow> pc \<times> manager" where
  "checkpoint_poll env budget m =
     (case poll_call budget m of (pc, m') \<Rightarrow> run_alone env (3 * unat (pool_total m) + 2) pc m')"

lemma run_alone_return [simp]: "run_alone env n (Return rc gen) m = (Return rc gen, m)"
  by (cases n) simp_all

subsection \<open>The search for a free slot\<close>

definition tried :: "manager \<Rightarrow> u32 \<Rightarrow> nat list" where
  "tried m start = map (\<lambda>n. try_index m start (word_of_nat n)) [0..<unat (cm_slots_per_stream m)]"

lemma unat_below_u32:
  assumes "j < unat (w :: u32)"
  shows "unat (word_of_nat j :: u32) = j"
proof -
  have "unat w < 2 ^ LENGTH(32)" by (rule unsigned_less)
  with assms show ?thesis by (simp add: unsigned_of_nat take_bit_nat_eq_self)
qed

definition free_slot :: "manager \<Rightarrow> nat \<Rightarrow> u32 \<Rightarrow> nat option" where
  "free_slot m i start = find (\<lambda>k. ps_state (slot_of m i k) = FREE) (tried m start)"

definition submit_result ::
  "(pc \<Rightarrow> step_env) \<Rightarrow> nat \<Rightarrow> u64 \<Rightarrow> u64 \<Rightarrow> manager \<Rightarrow> nat option \<Rightarrow> pc \<times> manager" where
  "submit_result env i seq ckpt m found =
     (case found of
        None \<Rightarrow> (Return EAGAIN None, log_call (env (Reject i seq ckpt)) FL_CHECKPOINT (stream_id m i) ckpt seq 0 POOL_FULL m)
      | Some k \<Rightarrow>
          (let rc = pe_rc (env (Fill i k seq ckpt)); gen = ps_generation (slot_of m i k) + 1;
               taken = set_slot i k (\<lambda>s. s\<lparr>ps_state := RESERVED\<rparr>) m;
               filled = set_slot i k (\<lambda>s. s\<lparr>ps_generation := gen, ps_submitted_seq := seq, ps_checkpoint_id := ckpt\<rparr>) taken
           in if rc \<noteq> 0 then (Return (backend_error rc) None, set_slot i k (\<lambda>s. s\<lparr>ps_state := FREE\<rparr>) filled)
              else (Return 0 (Some gen), set_slot i k (\<lambda>s. s\<lparr>ps_state := PENDING\<rparr>)
                (log_call (env (Note i k seq ckpt gen)) FL_CHECKPOINT (stream_id m i) ckpt seq gen SUBMITTED filled))))"

lemma run_alone_simps [simp]:
  "run_alone env (Suc n) pc m = run_alone env n (fst (pool_step (env pc) pc m)) (snd (pool_step (env pc) pc m))"
  if "\<And>rc gen. pc \<noteq> Return rc gen"
  using that by (cases pc) auto

lemma run_fill:
  assumes "in_pool m i k" and "3 \<le> N"
  shows "run_alone env N (Fill i k seq ckpt) (set_slot i k (\<lambda>s. s\<lparr>ps_state := RESERVED\<rparr>) m) =
    submit_result env i seq ckpt m (Some k)"
proof -
  define n where "n = N - 3"
  then have N: "N = Suc (Suc (Suc n))" using assms(2) by simp
  show ?thesis
    using assms(1) by (simp add: N submit_result_def slot_of_set_slot Let_def)
qed

lemma run_try:
  assumes "shape_ok m" and "i < length (cm_streams m)"
    and "n \<le> unat (cm_slots_per_stream m)" and "unat (cm_slots_per_stream m) - n + 4 \<le> N"
  shows "run_alone env N (Try i start (word_of_nat n) seq ckpt) m = submit_result env i seq ckpt m
    (find (\<lambda>k. ps_state (slot_of m i k) = FREE) (drop n (tried m start)))"
  using assms(3,4)
proof (induction "unat (cm_slots_per_stream m) - n" arbitrary: n N)
  case 0
  then have n: "n = unat (cm_slots_per_stream m)" by simp
  define f where "f = N - 2"
  then have N: "N = Suc (Suc f)" using 0 by simp
  have "word_of_nat n = cm_slots_per_stream m" by (simp add: n)
  moreover have "length (tried m start) \<le> n" by (simp add: n tried_def)
  ultimately show ?case by (simp add: N submit_result_def)
next
  case (Suc d)
  let ?k = "try_index m start (word_of_nat n)"
  from Suc have n: "n < unat (cm_slots_per_stream m)" by simp
  obtain f where N: "N = Suc f" using Suc by (cases N) auto
  have "unat (word_of_nat n :: u32) = n"
    by (rule unat_below_u32 [OF n])
  then have less: "word_of_nat n < cm_slots_per_stream m" using n by (simp add: word_less_nat_alt)
  have drop: "drop n (tried m start) = ?k # drop (Suc n) (tried m start)"
    using n by (simp add: tried_def Cons_nth_drop_Suc [symmetric])
  show ?case
  proof (cases "ps_state (slot_of m i ?k) = FREE")
    case True
    have "in_pool m i ?k" by (rule try_index_in_pool [OF assms(1,2)])
    from run_fill [OF this, of f env seq ckpt] Suc(2,4) N True less drop show ?thesis
      by (simp add: Let_def)
  next
    case False
    have "run_alone env f (Try i start (word_of_nat (Suc n)) seq ckpt) m = submit_result env i seq ckpt m
      (find (\<lambda>k. ps_state (slot_of m i k) = FREE) (drop (Suc n) (tried m start)))"
      using Suc N by (intro Suc(1)) auto
    with False N less drop show ?thesis by (simp add: Let_def add.commute)
  qed
qed

theorem checkpoint_submit_result:
  assumes "shape_ok m" and "find_stream m sid = Some i" and "seq \<noteq> 0"
  shows "checkpoint_submit env sid seq ckpt m =
    submit_result env i seq ckpt (snd (submit_call sid seq ckpt m))
      (free_slot (snd (submit_call sid seq ckpt m)) i (st_cursor (cm_streams m ! i)))"
proof -
  let ?m' = "snd (submit_call sid seq ckpt m)"
  have call: "submit_call sid seq ckpt m = (Try i (st_cursor (cm_streams m ! i)) 0 seq ckpt, ?m')"
    using assms(2,3) by (simp add: submit_call_def)
  have "cm_slots_per_stream ?m' = cm_slots_per_stream m"
    using assms(2,3) by (simp add: submit_call_def)
  moreover have "shape_ok ?m'" "i < length (cm_streams ?m')"
    using assms(1) find_stream_Some [OF assms(2)] submit_call_frame [of sid seq ckpt m] by simp_all
  ultimately have "run_alone env (unat (cm_slots_per_stream m) + 4) (Try i (st_cursor (cm_streams m ! i)) 0 seq ckpt) ?m' =
      submit_result env i seq ckpt ?m' (free_slot ?m' i (st_cursor (cm_streams m ! i)))"
    using run_try [of ?m' i 0 "unat (cm_slots_per_stream m) + 4" env "st_cursor (cm_streams m ! i)" seq ckpt]
    by (simp add: free_slot_def)
  then show ?thesis unfolding checkpoint_submit_def by (subst call) simp
qed

text \<open>Without a wrap of \<open>start + n\<close> every slot of the stream is tried.\<close>

lemma tried_all:
  assumes "unat start + unat (cm_slots_per_stream m) \<le> 2 ^ 32" and "0 < cm_slots_per_stream m"
  shows "set (tried m start) = {..<unat (cm_slots_per_stream m)}"
proof -
  let ?n = "unat (cm_slots_per_stream m)"
  have pos: "0 < ?n" using assms(2) by (simp add: word_less_nat_alt)
  have "try_index m start (word_of_nat j) = (unat start + j) mod ?n" if "j < ?n" for j
  proof -
    have "unat (word_of_nat j :: u32) = j"
      by (rule unat_below_u32 [OF that])
    then have "unat (start + word_of_nat j) = unat start + j"
      using that assms(1) by (subst unat_add_lem [THEN iffD1]) simp_all
    then show ?thesis by (simp add: try_index_def unat_mod)
  qed
  then have "set (tried m start) = (\<lambda>j. (unat start + j) mod ?n) ` {..<?n}"
    by (auto simp: tried_def)
  also have "\<dots> = {..<?n}"
  proof
    show "(\<lambda>j. (unat start + j) mod ?n) ` {..<?n} \<subseteq> {..<?n}" using pos by auto
    show "{..<?n} \<subseteq> (\<lambda>j. (unat start + j) mod ?n) ` {..<?n}"
    proof
      fix k assume k: "k \<in> {..<?n}"
      define j where "j = (k + (?n - unat start mod ?n)) mod ?n"
      have "unat start mod ?n < ?n" using pos by simp
      then have "(unat start + j) mod ?n = (unat start mod ?n + (k + (?n - unat start mod ?n))) mod ?n"
        unfolding j_def by (metis mod_add_eq mod_mod_trivial)
      also have "unat start mod ?n + (k + (?n - unat start mod ?n)) = k + ?n"
        using \<open>unat start mod ?n < ?n\<close> by simp
      finally have "(unat start + j) mod ?n = k" using k by simp
      moreover have "j \<in> {..<?n}" using pos by (simp add: j_def)
      ultimately show "k \<in> (\<lambda>j. (unat start + j) mod ?n) ` {..<?n}" by (metis imageI)
    qed
  qed
  finally show ?thesis .
qed

subsection \<open>A poll\<close>

text \<open>What a poll may do to the states of the slots, \<open>q\<close> being the answers of the backend.\<close>

definition swept :: "(nat \<Rightarrow> nat \<Rightarrow> int) \<Rightarrow> manager \<Rightarrow> manager \<Rightarrow> bool" where
  "swept q m m' \<longleftrightarrow> (shape_ok m' = shape_ok m) \<and> (pool_total m' = pool_total m) \<and>
     cm_slots_per_stream m' = cm_slots_per_stream m \<and> (\<forall>i k. in_pool m' i k = in_pool m i k) \<and>
     (\<forall>i k. in_pool m i k \<longrightarrow> ps_state (slot_of m' i k) = ps_state (slot_of m i k) \<or>
        (ps_state (slot_of m i k) = PENDING \<and> q i k = 1 \<and> ps_state (slot_of m' i k) = FREE)) \<and>
     (\<exists>new. cm_log m' = cm_log m @ new)"

definition confirmed_since :: "manager \<Rightarrow> manager \<Rightarrow> int" where
  "confirmed_since m m' = int (length (filter is_confirmation (cm_log m'))) -
     int (length (filter is_confirmation (cm_log m)))"

lemma swept_refl [simp]: "swept q m m"
  by (simp add: swept_def)

lemma swept_trans:
  assumes "swept q m m'" and "swept q m' m''"
  shows "swept q m m''"
proof -
  have "ps_state (slot_of m'' i k) = ps_state (slot_of m i k) \<or>
      (ps_state (slot_of m i k) = PENDING \<and> q i k = 1 \<and> ps_state (slot_of m'' i k) = FREE)"
    if "in_pool m i k" for i k
  proof -
    from that assms(1) have "in_pool m' i k" by (simp add: swept_def)
    with that assms show ?thesis unfolding swept_def by (metis slot_state.distinct(3))
  qed
  with assms show ?thesis by (auto simp: swept_def)
qed

lemma swept_freed:
  "swept q m m' \<Longrightarrow> in_pool m i k \<Longrightarrow> ps_state (slot_of m i k) = FREE \<Longrightarrow> ps_state (slot_of m' i k) = FREE"
  unfolding swept_def by (metis slot_state.distinct(3))

abbreviation flat_stream :: "manager \<Rightarrow> nat \<Rightarrow> nat" where
  "flat_stream m flat \<equiv> flat div unat (cm_slots_per_stream m)"

abbreviation flat_slot :: "manager \<Rightarrow> nat \<Rightarrow> nat" where
  "flat_slot m flat \<equiv> flat mod unat (cm_slots_per_stream m)"

lemma pool_total_frame [simp]:
  "pool_total (set_slot i k f m) = pool_total m" "pool_total (log_call env ty sid c a0 a1 fl m) = pool_total m"
  by (simp_all add: pool_total_def)

lemma query_result_release: "\<exists>st l' m'. query_result env i k gen l m = (Release i k st l', m')"
  by (auto simp: query_result_def Let_def)

text \<open>One round that queries a slot: the three steps together.\<close>

lemma poll_round:
  assumes "shape_ok m" and "pl_offset l < pool_total m" and "pl_checked l < pl_budget l"
    and q: "\<And>i k gen l. pe_rc (env (Query i k gen l)) = q i k"
  defines "flat \<equiv> poll_flat m l"
  defines "i \<equiv> flat_stream m flat" and "k \<equiv> flat_slot m flat"
  shows "\<exists>d l' m'. d \<le> 2 \<and> (\<forall>n. run_alone env (Suc d + n) (Look l) m = run_alone env n (Look (next_offset l')) m') \<and>
    swept q m m' \<and> pl_start l' = pl_start l \<and> pl_offset l' = pl_offset l \<and> pl_budget l' = pl_budget l \<and>
    (pl_checked l' = pl_checked l \<or> pl_checked l' = pl_checked l + 1) \<and>
    pl_completed l' = pl_completed l + confirmed_since m m' \<and>
    (ps_state (slot_of m i k) = PENDING \<and> q i k = 1 \<longrightarrow> ps_state (slot_of m' i k) = FREE)"
proof (cases "ps_state (slot_of m i k) = PENDING")
  case False
  then show ?thesis
    using assms by (intro exI [of _ 0] exI [of _ l] exI [of _ m])
      (simp add: confirmed_since_def Let_def)
next
  case True
  have ik: "in_pool m i k"
    unfolding i_def k_def flat_def by (rule poll_flat_in_pool [OF assms(1,2)])
  let ?l = "l\<lparr>pl_checked := pl_checked l + 1\<rparr>" and ?gen = "ps_generation (slot_of m i k)"
  let ?m1 = "set_slot i k (\<lambda>s. s\<lparr>ps_state := QUERYING\<rparr>) m"
  let ?e = "env (Query i k ?gen ?l)"
  obtain st l' m2 where r: "query_result ?e i k ?gen ?l ?m1 = (Release i k st l', m2)"
    using query_result_release by blast
  let ?m3 = "set_slot i k (\<lambda>s. s\<lparr>ps_state := st\<rparr>) m2"
  have run: "run_alone env (Suc 2 + n) (Look l) m = run_alone env n (Look (next_offset l')) ?m3" for n
    using True assms(2,3) r by (simp add: i_def k_def flat_def Let_def numeral_2_eq_2)
  have st: "st = (if q i k = 1 then FREE else PENDING)" "pl_completed l' = pl_completed l + of_bool (q i k = 1)"
    "pl_start l' = pl_start l" "pl_offset l' = pl_offset l" "pl_budget l' = pl_budget l" "pl_checked l' = pl_checked l + 1"
    using r q by (auto simp: query_result_def Let_def split: if_splits)
  have m2: "shape_ok m2 = shape_ok m" "pool_total m2 = pool_total m" "cm_slots_per_stream m2 = cm_slots_per_stream m"
    "in_pool m2 = in_pool m" "\<And>i' k'. (i', k') \<noteq> (i, k) \<Longrightarrow> slot_of m2 i' k' = slot_of m i' k'"
    "confirmed_since m m2 = of_bool (q i k = 1)" "\<exists>new. cm_log m2 = cm_log m @ new"
    using r q ik
    by (auto simp: query_result_def Let_def fun_eq_iff slot_of_set_slot confirmed_since_def is_confirmation_def
      split: if_splits)
  have "swept q m ?m3"
    using m2 ik True st(1) by (auto simp: swept_def slot_of_set_slot)
  moreover have "confirmed_since m ?m3 = of_bool (q i k = 1)"
    using m2(6) by (simp add: confirmed_since_def)
  moreover have "q i k = 1 \<longrightarrow> ps_state (slot_of ?m3 i k) = FREE"
    using ik m2(4) st(1) by (simp add: slot_of_set_slot)
  ultimately show ?thesis
    using run st by (intro exI [of _ 2] exI [of _ l'] exI [of _ ?m3]) simp
qed

definition flat_at :: "manager \<Rightarrow> u64 \<Rightarrow> nat \<Rightarrow> nat" where
  "flat_at m start p = unat ((start + word_of_nat p) mod pool_total m)"

definition freed_at :: "(nat \<Rightarrow> nat \<Rightarrow> int) \<Rightarrow> manager \<Rightarrow> manager \<Rightarrow> nat \<Rightarrow> bool" where
  "freed_at q m m' flat \<longleftrightarrow>
     ps_state (slot_of m (flat_stream m flat) (flat_slot m flat)) = PENDING \<and>
       q (flat_stream m flat) (flat_slot m flat) = 1 \<longrightarrow>
     ps_state (slot_of m' (flat_stream m flat) (flat_slot m flat)) = FREE"

lemma flat_at_in_pool:
  assumes "shape_ok m" and "pool_total m \<noteq> 0"
  shows "in_pool m (flat_stream m (flat_at m start p)) (flat_slot m (flat_at m start p))"
proof -
  have "0 < pool_total m" using assms(2) by (simp add: word_neq_0_conv)
  from poll_flat_in_pool [OF assms(1) this, of "\<lparr>pl_start = start, pl_offset = word_of_nat p,
      pl_checked = 0, pl_completed = 0, pl_budget = 0\<rparr>"]
  show ?thesis by (simp add: flat_at_def poll_flat_def)
qed

lemma freed_later:
  assumes "swept q m m'" and "swept q m' m''" and "in_pool m (flat_stream m flat) (flat_slot m flat)"
    and "freed_at q m' m'' flat \<or> freed_at q m m' flat"
  shows "freed_at q m m'' flat"
proof -
  let ?i = "flat_stream m flat" and ?k = "flat_slot m flat"
  have n: "cm_slots_per_stream m' = cm_slots_per_stream m" and "in_pool m' ?i ?k"
    using assms(1,3) by (simp_all add: swept_def)
  moreover have "ps_state (slot_of m' ?i ?k) = ps_state (slot_of m ?i ?k) \<or> ps_state (slot_of m' ?i ?k) = FREE"
    using assms(1,3) unfolding swept_def by blast
  ultimately show ?thesis
    using assms(2,4) swept_freed [OF assms(2)] unfolding freed_at_def by metis
qed

lemma poll_loop_run:
  assumes "shape_ok m" and q: "\<And>i k gen l. pe_rc (env (Query i k gen l)) = q i k"
    and "3 * (unat (pool_total m) - unat (pl_offset l)) + 2 \<le> N"
  shows "\<exists>m'. run_alone env N (Look l) m = (Return (pl_completed l + confirmed_since m m') None, m') \<and>
    cm_polling m' = False \<and> swept q m m' \<and>
    (\<forall>p. unat (pl_offset l) \<le> p \<and> p < unat (pool_total m) \<and>
       unat (pl_checked l) + (p - unat (pl_offset l)) < unat (pl_budget l) \<longrightarrow>
       freed_at q m m' (flat_at m (pl_start l) p))"
  using assms(1,3)
proof (induction "unat (pool_total m) - unat (pl_offset l)" arbitrary: l m N rule: less_induct)
  case less
  show ?case
  proof (cases "pl_offset l < pool_total m \<and> pl_checked l < pl_budget l")
    case False
    define f where "f = N - 2"
    have N: "N = Suc (Suc f)" using less(3) by (simp add: f_def)
    have "run_alone env N (Look l) m = (Return (pl_completed l) None, m\<lparr>cm_polling := False\<rparr>)"
      using False by (auto simp: N)
    moreover have "swept q m (m\<lparr>cm_polling := False\<rparr>)" by (simp add: swept_def pool_total_def)
    moreover have none: "\<not> (unat (pl_offset l) \<le> p \<and> p < unat (pool_total m) \<and>
        unat (pl_checked l) + (p - unat (pl_offset l)) < unat (pl_budget l))" for p
      using False by (auto simp: word_less_nat_alt)
    moreover have "confirmed_since m (m\<lparr>cm_polling := False\<rparr>) = 0" "cm_polling (m\<lparr>cm_polling := False\<rparr>) = False"
      by (simp_all add: confirmed_since_def)
    ultimately show ?thesis using none by (metis add.right_neutral)
  next
    case True
    let ?flat = "poll_flat m l"
    from poll_round [where env = env and q = q, OF less(2) True [THEN conjunct1] True [THEN conjunct2] q]
    obtain d l' m1 where d: "d \<le> 2"
      and run: "\<And>n. run_alone env (Suc d + n) (Look l) m = run_alone env n (Look (next_offset l')) m1"
      and sw: "swept q m m1"
      and l': "pl_start l' = pl_start l" "pl_offset l' = pl_offset l" "pl_budget l' = pl_budget l"
        "pl_checked l' = pl_checked l \<or> pl_checked l' = pl_checked l + 1"
        "pl_completed l' = pl_completed l + confirmed_since m m1"
      and here: "freed_at q m m1 ?flat"
      unfolding freed_at_def by blast
    have total: "pool_total m1 = pool_total m" using sw by (simp add: swept_def)
    have step: "unat (pl_offset l + 1) = Suc (unat (pl_offset l))"
    proof -
      have "unat (pool_total m) < 2 ^ LENGTH(64)" by (rule unsigned_less)
      then show ?thesis using True unat_add_1 [of "pl_offset l"] by (simp add: word_less_nat_alt)
    qed
    have checked: "unat (pl_checked l') \<le> Suc (unat (pl_checked l))"
      using l'(4) True by (auto simp: unat_word_ariths word_less_nat_alt intro: mod_less_eq_dividend le_trans)
    have rest: "unat (pool_total m1) - unat (pl_offset (next_offset l')) < unat (pool_total m) - unat (pl_offset l)"
      using True step by (simp add: total l' next_offset_def word_less_nat_alt) linarith
    have "3 * (unat (pool_total m1) - unat (pl_offset (next_offset l'))) + 2 \<le> N - Suc d"
      using less(3) d True step by (simp add: total l' next_offset_def word_less_nat_alt) linarith
    from less(1) [OF rest _ this] less(2) sw obtain m2
      where run2: "run_alone env (N - Suc d) (Look (next_offset l')) m1 =
          (Return (pl_completed (next_offset l') + confirmed_since m1 m2) None, m2)"
        and m2: "cm_polling m2 = False" "swept q m1 m2"
        and freed: "\<And>p. unat (pl_offset (next_offset l')) \<le> p \<Longrightarrow> p < unat (pool_total m1) \<Longrightarrow>
          unat (pl_checked (next_offset l')) + (p - unat (pl_offset (next_offset l'))) < unat (pl_budget (next_offset l')) \<Longrightarrow>
          freed_at q m1 m2 (flat_at m1 (pl_start (next_offset l')) p)"
      by (auto simp: swept_def)
    have "run_alone env N (Look l) m = (Return (pl_completed l + confirmed_since m m2) None, m2)"
    proof -
      have "unat (pl_offset l) < unat (pool_total m)" using True by (simp add: word_less_nat_alt)
      then have "Suc d + (N - Suc d) = N" using less(3) d by linarith
      then have "run_alone env N (Look l) m = run_alone env (N - Suc d) (Look (next_offset l')) m1"
        using run by metis
      moreover have "pl_completed (next_offset l') + confirmed_since m1 m2 = pl_completed l + confirmed_since m m2"
        by (simp add: l'(5) next_offset_def confirmed_since_def)
      ultimately show ?thesis by (simp only: run2)
    qed
    moreover have "freed_at q m m2 (flat_at m (pl_start l) p)"
      if p: "unat (pl_offset l) \<le> p" "p < unat (pool_total m)"
        "unat (pl_checked l) + (p - unat (pl_offset l)) < unat (pl_budget l)" for p
    proof (rule freed_later [OF sw m2(2) flat_at_in_pool [OF less(2)]])
      show "pool_total m \<noteq> 0" using True by auto
      show "freed_at q m1 m2 (flat_at m (pl_start l) p) \<or> freed_at q m m1 (flat_at m (pl_start l) p)"
      proof (cases "p = unat (pl_offset l)")
        case True
        with here show ?thesis by (simp add: flat_at_def poll_flat_def)
      next
        case False
        have "freed_at q m1 m2 (flat_at m1 (pl_start (next_offset l')) p)"
        proof (rule freed)
          show "unat (pl_offset (next_offset l')) \<le> p" using False p(1) step by (simp add: l' next_offset_def)
          show "p < unat (pool_total m1)" using p(2) total by simp
          show "unat (pl_checked (next_offset l')) + (p - unat (pl_offset (next_offset l'))) < unat (pl_budget (next_offset l'))"
            using False p step checked by (simp add: l' next_offset_def)
        qed
        then show ?thesis by (simp add: l' next_offset_def flat_at_def total)
      qed
    qed
    ultimately show ?thesis
      using m2 swept_trans [OF sw m2(2)] by blast
  qed
qed

text \<open>The positions of the first \<open>n\<close> slots from the cursor, and the whole pool when nothing wraps.\<close>

lemma flat_at_surj:
  assumes "unat start + unat (pool_total m) \<le> 2 ^ 64" and "flat < unat (pool_total m)"
  shows "\<exists>p < unat (pool_total m). flat_at m start p = flat"
proof -
  let ?n = "unat (pool_total m)"
  define p where "p = (flat + (?n - unat start mod ?n)) mod ?n"
  have r: "unat start mod ?n < ?n" using assms(2) by simp
  have p: "p < ?n" using assms(2) by (simp add: p_def)
  have "unat (word_of_nat p :: u64) = p"
  proof -
    have "?n < 2 ^ LENGTH(64)" by (rule unsigned_less)
    with p show ?thesis by (simp add: unsigned_of_nat take_bit_nat_eq_self)
  qed
  then have "unat (start + word_of_nat p) = unat start + p"
    using p assms(1) by (subst unat_add_lem [THEN iffD1]) simp_all
  then have "flat_at m start p = (unat start + p) mod ?n" by (simp add: flat_at_def unat_mod)
  also have "\<dots> = (unat start mod ?n + (flat + (?n - unat start mod ?n))) mod ?n"
    unfolding p_def by (metis mod_add_eq mod_mod_trivial)
  also have "unat start mod ?n + (flat + (?n - unat start mod ?n)) = flat + ?n" using r by simp
  finally show ?thesis using p assms(2) by (intro exI [of _ p]) simp
qed

theorem checkpoint_poll_sweeps:
  assumes "shape_ok m" and q: "\<And>i k gen l. pe_rc (env (Query i k gen l)) = q i k"
    and "budget \<noteq> 0" and "\<not> cm_polling m" and "pool_total m \<noteq> 0"
  shows "\<exists>m'. checkpoint_poll env budget m = (Return (confirmed_since m m') None, m') \<and>
    \<not> cm_polling m' \<and> swept q m m' \<and>
    (\<forall>p < min (unat budget) (unat (pool_total m)). freed_at q m m' (flat_at m (cm_poll_cursor m) p))"
proof -
  let ?l = "\<lparr>pl_start = cm_poll_cursor m, pl_offset = 0, pl_checked = 0, pl_completed = 0, pl_budget = budget\<rparr>"
  let ?m = "m\<lparr>cm_polling := True, cm_poll_cursor := cm_poll_cursor m + ucast budget\<rparr>"
  have same: "pool_total ?m = pool_total m" "shape_ok ?m = shape_ok m" "swept q m ?m"
    "confirmed_since ?m m' = confirmed_since m m'" for m'
    by (simp_all add: swept_def pool_total_def confirmed_since_def)
  have call: "checkpoint_poll env budget m = run_alone env (3 * unat (pool_total m) + 2) (Look ?l) ?m"
    using assms(3-5) by (simp add: checkpoint_poll_def poll_call_def)
  from poll_loop_run [of ?m env q ?l "3 * unat (pool_total m) + 2"] assms(1) q same
  obtain m' where m': "run_alone env (3 * unat (pool_total m) + 2) (Look ?l) ?m = (Return (confirmed_since m m') None, m')"
    "\<not> cm_polling m'" "swept q ?m m'"
    and freed: "\<And>p. p < unat (pool_total m) \<Longrightarrow> p < unat budget \<Longrightarrow> freed_at q ?m m' (flat_at ?m (cm_poll_cursor m) p)"
    by auto
  have "freed_at q m m' (flat_at m (cm_poll_cursor m) p)" if "p < min (unat budget) (unat (pool_total m))" for p
    using freed [of p] that by (simp add: freed_at_def flat_at_def same)
  then show ?thesis
    using call m' swept_trans [OF same(3) m'(3)] by (intro exI [of _ m']) simp
qed

end
