(* ===== verification/Checkpoint_Properties.thy ===== *)
theory Checkpoint_Properties
  imports Checkpoint_Runs Checkpoint_Alone
begin

text \<open>
  What the checkpoint pool promises: every submission on record is confirmed once or still held, the
  completion watermark of the report is true of the device when one thread submits to a stream, a
  submission finds a free slot, a poll confirms what is finished.
\<close>

subsection \<open>Under every interleaving\<close>

lemma trans_log: "pool_trans answers s s' \<Longrightarrow> \<exists>new. length new \<le> 1 \<and> cm_log (sy_pool s') = cm_log (sy_pool s) @ new"
proof (induction rule: pool_trans.induct)
  case (register s creates sid handle)
  obtain rc m' where r: "register_stream creates sid handle (sy_pool s) = (rc, m')" by fastforce
  then have "cm_log m' = cm_log (sy_pool s)" by (cases rule: register_stream_cases) auto
  with r show ?case by simp
next
  case (thread s t env)
  show ?case by (cases "sy_threads s t") (auto simp: run_thread_def query_result_def Let_def split: prod.split)
next
  case (start interval_us budget spawned s rc m)
  from start_poller_frame [OF start] show ?case by auto
qed (auto simp: call_thread_def submit_call_frame poll_call_frame poller_exit_def request_stop_def join_poller_def)

lemma reach_prefix:
  "pool_reach answers sched s \<Longrightarrow>
    confirmations key (take n (cm_log (sy_pool s))) \<le> submissions key (take n (cm_log (sy_pool s)))"
proof (induction arbitrary: n rule: pool_reach.induct)
  case (create given memory slots m)
  then show ?case
    by (auto simp: checkpoint_create_def pool_start_def confirmations_def split: if_splits)
next
  case (trans s s')
  obtain new where new: "length new \<le> 1" "cm_log (sy_pool s') = cm_log (sy_pool s) @ new"
    using trans_log [OF trans(2)] by blast
  have acc: "accounted s'"
    using pool_reach_accounted [OF pool_reach.trans [OF trans(1-3)]] by blast
  show ?case
  proof (cases "n \<le> length (cm_log (sy_pool s))")
    case True
    with trans(4) [of n] new(2) show ?thesis by simp
  next
    case False
    with new have "take n (cm_log (sy_pool s')) = cm_log (sy_pool s')" by simp
    moreover have "submissions key (cm_log (sy_pool s')) = confirmations key (cm_log (sy_pool s')) +
        card (outstanding (sy_threads s') (sy_pool s') key)"
      using acc unfolding accounted_def by (rule spec)
    ultimately show ?thesis by simp
  qed
qed

text \<open>C23: Accounting of the checkpoint pool. In every interleaving of submitting and polling threads,
  whatever the backend answers, the submission records of a checkpoint (stream, id, sequence number
  and generation) are its confirmation records plus the slots that still hold it, and no
  confirmation comes before its submission in the recorder's order.\<close>

theorem pool_accounting:
  assumes "pool_reach answers sched s"
  shows "(\<forall>key. submissions key (cm_log (sy_pool s)) = confirmations key (cm_log (sy_pool s)) +
      card (outstanding (sy_threads s) (sy_pool s) key)) \<and>
    (\<forall>key n. confirmations key (take n (cm_log (sy_pool s))) \<le> submissions key (take n (cm_log (sy_pool s))))"
proof (intro conjI allI)
  fix key n
  have "accounted s" using pool_reach_accounted [OF assms] ..
  then show "submissions key (cm_log (sy_pool s)) = confirmations key (cm_log (sy_pool s)) +
      card (outstanding (sy_threads s) (sy_pool s) key)"
    unfolding accounted_def by (rule spec)
  show "confirmations key (take n (cm_log (sy_pool s))) \<le> submissions key (take n (cm_log (sy_pool s)))"
    by (rule reach_prefix [OF assms])
qed

theorem pool_accounting_witness:
  "\<exists>s :: pool_sys. cm_log (sy_pool s) = crossing_log \<and> submissions (7, 101, 6, 1) crossing_log =
    confirmations (7, 101, 6, 1) crossing_log + card (outstanding (sy_threads s) (sy_pool s) (7, 101, 6, 1))"
proof -
  obtain s where s: "pool_reach device_answers (\<lambda>s. True) s" "cm_log (sy_pool s) = crossing_log"
    by (rule crossing_reach)
  from pool_accounting [OF s(1), THEN conjunct1, THEN spec, of "(7, 101, 6, 1)"] s(2) show ?thesis
    by - (rule exI [of _ s], simp)
qed

lemma destroy_free:
  assumes "checkpoint_destroy m = (0, events)" and "in_pool m i k"
  shows "ps_state (slot_of m i k) = FREE"
proof -
  have "\<forall>st \<in> set (cm_streams m). \<forall>s \<in> set (st_slots st). ps_state s = FREE"
    using assms(1) by (auto simp: checkpoint_destroy_def EBUSY_def list_ex_iff Let_def split: if_splits)
  with assms(2) nth_mem show ?thesis unfolding in_pool_def slot_of_def by metis
qed

text \<open>\<open>flight_checkpoint_destroy\<close> succeeds only when every checkpoint ever submitted is confirmed on
  record, no thread is in the middle of a submission or a query of a slot, and the poller has been
  joined; it then gives back every event of every stream.\<close>

lemma destroy_all_confirmed:
  assumes "pool_reach answers sched s" and "checkpoint_destroy (sy_pool s) = (0, events)"
  shows "(\<forall>key. submissions key (cm_log (sy_pool s)) = confirmations key (cm_log (sy_pool s))) \<and>
    (\<forall>t. owned (sy_threads s t) = None) \<and>
    \<not> cm_poller_running (sy_pool s) \<and> cm_poller (sy_pool s) = None \<and>
    events = map ps_event (concat (map st_slots (cm_streams (sy_pool s))))"
proof -
  have ok: "owners_ok (sy_threads s) (sy_pool s)" and acc: "accounted s"
    using pool_reach_accounted [OF assms(1)] by (simp_all add: pool_ok_def)
  have none: "owned (sy_threads s t) = None" for t
  proof (rule ccontr)
    assume "owned (sy_threads s t) \<noteq> None"
    then obtain i k st b where o: "owned (sy_threads s t) = Some (i, k, st, b)"
      by (cases "owned (sy_threads s t)") auto
    with ok have "in_pool (sy_pool s) i k" "ps_state (slot_of (sy_pool s) i k) = st"
      unfolding owners_ok_def by blast+
    with destroy_free [OF assms(2)] owned_busy [OF o] show False by (simp add: resting_def)
  qed
  have "outstanding (sy_threads s) (sy_pool s) key = {}" for key
    using destroy_free [OF assms(2)] none by (auto simp: outstanding_def)
  with acc none assms(2) show ?thesis
    by (auto simp: accounted_def checkpoint_destroy_def EBUSY_def Let_def split: if_splits)
qed

subsection \<open>The watermark of the report\<close>

text \<open>C22: The device checkpoint progress of the report is true. One thread at a time submits to a
  stream, the device finishes the events of a stream in order and the backend reports completion only
  then, and no (stream, id, sequence number, generation) is used twice. Whatever else the process
  recorded in between, every checkpoint that the analyzer, reading the recorder's file, does not show
  as unconfirmed has been finished by the device.\<close>

theorem watermark_sound:
  assumes "pool_reach answers one_submitter s" and "in_order answers"
    and "filter is_checkpoint_call calls = cm_log (sy_pool s)"
    and "distinct (map call_key (filter is_submission calls))"
    and "fresh_ring m0" and "length calls < 2 ^ 64"
    and "fs p 0 = Inr (file_image (fold store_event calls m0))"
    and "fs p 1 = Inr (file_image (fold store_event calls m0))"
    and "read_events fs p = Inr (h, ev)" and "sc = scan_rank rank ev sc0"
    and "(k, pr) \<in> set (rank_progress (sc_submitted sc) (sc_confirmed sc) (sc_not_ready sc))"
    and "mp \<in> set (pr_checkpoint_mappings pr)" and "mp_status mp \<noteq> ''unconfirmed''"
  shows "\<exists>i < length (cm_streams (sy_pool s)). k = uint (stream_id (sy_pool s) i) \<and>
    (mp_checkpoint_id mp, mp_submitted_seq mp, mp_generation mp)
      \<in> int_key ` set (take (sy_done s i) (sy_queue s i))"
proof -
  have "ev = drop (length (history m0 calls) - length (sh_slots m0)) (history m0 calls)"
    using read_run [where fs = fs and p = p, OF assms(5-8)] assms(9) by (simp add: take_last_def)
  moreover have "submitted_event = (\<lambda>e. ev_type e = ''CHECKPOINT'' \<and> has_flag e CHECKPOINT_SUBMITTED)"
    by (simp add: submitted_event_def fun_eq_iff)
  ultimately show ?thesis
    using shown_finished [OF assms(1-4,6) _ _ assms(12,13)] assms(10,11) by (simp add: scan_rank_fields)
qed

theorem watermark_sound_witness:
  "\<exists>s :: pool_sys. cm_log (sy_pool s) = orderly_log \<and> (100, 5, 1) \<in> int_key ` set (take (sy_done s 0) (sy_queue s 0))"
proof -
  obtain s where s: "pool_reach device_answers one_submitter s" "cm_log (sy_pool s) = orderly_log"
    "map st_id (cm_streams (sy_pool s)) = [7]"
    by (rule orderly_reach)
  let ?fs = "\<lambda>(p :: path) (k :: nat). Inr (file_image (fold store_event orderly_log (sample_ring 0)))"
  let ?p = "Path [''x'']" and ?ev = "history (sample_ring 0) orderly_log"
  have log: "filter is_checkpoint_call orderly_log = orderly_log" "distinct (map call_key (filter is_submission orderly_log))"
    "take_last (length (sh_slots (sample_ring 0))) ?ev = ?ev" "length orderly_log = 4"
    by code_simp+
  have read: "read_events ?fs ?p = Inr (header_view ?p (fold store_event orderly_log (sample_ring 0)), ?ev)"
    using read_run [OF sample_fresh, of orderly_log ?fs ?p 0] log by simp
  define sc where "sc = scan_rank 0 ?ev (scan_reset scan_init)"
  obtain k pr mp where e: "(k, pr) \<in> set (rank_progress (sc_submitted sc) (sc_confirmed sc) (sc_not_ready sc))"
    "mp \<in> set (pr_checkpoint_mappings pr)"
    "(mp_checkpoint_id mp, mp_submitted_seq mp, mp_generation mp) = (100, 5, 1)" "mp_status mp = ''confirmed_exact''"
  proof -
    have "\<exists>(k, l) \<in> set (shown orderly_log). (100, 5, 1, ''confirmed_exact'') \<in> set l"
      by (simp add: orderly_shown)
    then show thesis using that by (auto simp: shown_def Let_def sc_def [symmetric] split_beta)
  qed
  have "filter is_checkpoint_call orderly_log = cm_log (sy_pool s)" using log(1) s(2) by simp
  moreover have "mp_status mp \<noteq> ''unconfirmed''" using e(4) by simp
  ultimately obtain i where i: "i < length (cm_streams (sy_pool s))"
    "(mp_checkpoint_id mp, mp_submitted_seq mp, mp_generation mp) \<in> int_key ` set (take (sy_done s i) (sy_queue s i))"
    using watermark_sound [where fs = ?fs and p = ?p, OF s(1) device_answers_in_order _ log(2) sample_fresh _ refl refl
        read sc_def e(1,2)] log(4) by auto
  moreover have "length (cm_streams (sy_pool s)) = 1" using s(3) by (metis length_map length_Cons list.size(3) One_nat_def)
  with i have "i = 0" by simp
  ultimately show ?thesis using s(2) e(3) by - (rule exI [of _ s], simp)
qed

text \<open>C24: Two threads that submit to one stream at the same time can make the report wrong, although
  the device works in order and the identifiers are distinct: the second one's submission record can
  come first in the file while its event comes second on the device, and once the other's event is
  confirmed the analyzer shows it as \<open>confirmed_by_later_checkpoint\<close> before the device reached it.\<close>

theorem concurrent_submit_watermark:
  "\<exists>s :: pool_sys. pool_reach device_answers (\<lambda>s. True) s \<and> in_order device_answers \<and>
    distinct (map call_key (filter is_submission (cm_log (sy_pool s)))) \<and>
    (\<exists>i < length (cm_streams (sy_pool s)). \<exists>k l. (k, l) \<in> set (shown (cm_log (sy_pool s))) \<and>
      k = uint (stream_id (sy_pool s) i) \<and>
      (\<exists>ckpt seq gen. (ckpt, seq, gen, ''confirmed_by_later_checkpoint'') \<in> set l \<and>
        (ckpt, seq, gen) \<in> int_key ` set (drop (sy_done s i) (sy_queue s i)) \<and>
        (ckpt, seq, gen) \<notin> int_key ` set (take (sy_done s i) (sy_queue s i))))"
proof -
  obtain s where s: "pool_reach device_answers (\<lambda>s. True) s" "cm_log (sy_pool s) = crossing_log"
    "sy_queue s 0 = [(100, 5, 1), (101, 6, 1)]" "sy_done s 0 = 1" "map st_id (cm_streams (sy_pool s)) = [7]"
    by (rule crossing_reach)
  have len: "length (cm_streams (sy_pool s)) = 1" using s(5) by (metis length_map length_Cons list.size(3) One_nat_def)
  have sid: "stream_id (sy_pool s) 0 = 7"
    using s(5) len nth_map [of 0 "cm_streams (sy_pool s)" st_id] by (simp add: stream_id_def)
  let ?l = "[(101, 6, 1, ''confirmed_by_later_checkpoint''), (100, 5, 1, ''confirmed_exact'')] :: (int \<times> int \<times> int \<times> string) list"
  have dist: "distinct (map call_key (filter is_submission (cm_log (sy_pool s))))"
    unfolding s(2) by code_simp
  have shown: "(7, ?l) \<in> set (shown (cm_log (sy_pool s)))" unfolding s(2) by (simp only: crossing_shown) simp
  have late: "(101, 6, 1, ''confirmed_by_later_checkpoint'') \<in> set ?l" by simp
  have undone: "(101, 6, 1) \<in> int_key ` set (drop (sy_done s 0) (sy_queue s 0))"
    "(101, 6, 1) \<notin> int_key ` set (take (sy_done s 0) (sy_queue s 0))"
    unfolding s(3,4) by (simp_all add: int_key_def)
  have seven: "(7 :: int) = uint (stream_id (sy_pool s) 0)" and zero: "0 < length (cm_streams (sy_pool s))"
    using len by (simp_all add: sid)
  from late undone have "\<exists>ckpt seq gen. (ckpt, seq, gen, ''confirmed_by_later_checkpoint'') \<in> set ?l \<and>
      (ckpt, seq, gen) \<in> int_key ` set (drop (sy_done s 0) (sy_queue s 0)) \<and>
      (ckpt, seq, gen) \<notin> int_key ` set (take (sy_done s 0) (sy_queue s 0))" by blast
  with s(1) device_answers_in_order dist zero shown seven show ?thesis by blast
qed

subsection \<open>One submission\<close>

text \<open>What a submission to the \<open>i\<close>-th stream leaves, from the slot that its search found.\<close>

lemma submit_result_found:
  assumes "in_pool m i k" and "submit_result env i seq ckpt m (Some k) = (r, m')"
  shows "(if pe_rc (env (Fill i k seq ckpt)) \<noteq> 0
     then r = Return (backend_error (pe_rc (env (Fill i k seq ckpt)))) None \<and>
       ps_state (slot_of m' i k) = FREE \<and> cm_log m' = cm_log m
     else r = Return 0 (Some (ps_generation (slot_of m i k) + 1)) \<and>
       ps_state (slot_of m' i k) = PENDING \<and>
       slot_key m' i k = (stream_id m i, ckpt, seq, ps_generation (slot_of m i k) + 1) \<and>
       (\<exists>c. is_submission c \<and> call_key c = slot_key m' i k \<and> cm_log m' = cm_log m @ [c])) \<and>
    (\<forall>i' k'. (i', k') \<noteq> (i, k) \<longrightarrow> slot_of m' i' k' = slot_of m i' k')"
  using assms
  by (auto simp: submit_result_def slot_of_set_slot slot_key_def is_submission_def call_key_def Let_def split: if_splits)

lemma submit_result_none:
  "submit_result env i seq ckpt m None = (r, m') \<Longrightarrow> r = Return EAGAIN None \<and>
    (\<exists>c. rc_flags c = POOL_FULL \<and> cm_log m' = cm_log m @ [c]) \<and> (\<forall>i' k'. slot_of m' i' k' = slot_of m i' k')"
  by (auto simp: submit_result_def)

text \<open>C25: A submission that no other thread disturbs returns, in one of five ways. A sequence number of 0 gives
  \<open>EINVAL\<close> and an unknown stream \<open>ENOENT\<close>, with nothing changed. Otherwise the slots are tried from the
  stream's cursor on, \<open>(start + n) % slots\<close> in 32 bits, and the first free one among those tried is taken:
  then the call returns the backend's error and leaves that slot free and the log unchanged, or it
  returns 0 with the slot's next generation, the slot pending and one submission record. If none of
  those tried is free, it records \<open>POOL_FULL\<close> and returns \<open>EAGAIN\<close>; unless the 32-bit cursor wraps during
  the search, the stream then has no free slot at all. No other slot changes.\<close>

theorem submit_outcome:
  assumes "shape_ok m" and "checkpoint_submit env sid seq ckpt m = (r, m')"
  shows "(seq = 0 \<longrightarrow> r = Return EINVAL None \<and> m' = m) \<and>
    (seq \<noteq> 0 \<and> find_stream m sid = None \<longrightarrow> r = Return ENOENT None \<and> m' = m) \<and>
    (\<forall>i. seq \<noteq> 0 \<and> find_stream m sid = Some i \<longrightarrow>
      (let slots = unat (cm_slots_per_stream m); start = st_cursor (cm_streams m ! i);
           probe = (\<lambda>n. unat ((start + word_of_nat n) mod cm_slots_per_stream m))
       in (\<exists>n < slots. \<exists>k. k = probe n \<and> in_pool m i k \<and> ps_state (slot_of m i k) = FREE \<and>
            (\<forall>j < n. ps_state (slot_of m i (probe j)) \<noteq> FREE) \<and>
            (if pe_rc (env (Fill i k seq ckpt)) \<noteq> 0
             then r = Return (backend_error (pe_rc (env (Fill i k seq ckpt)))) None \<and>
               ps_state (slot_of m' i k) = FREE \<and> cm_log m' = cm_log m
             else r = Return 0 (Some (ps_generation (slot_of m i k) + 1)) \<and>
               ps_state (slot_of m' i k) = PENDING \<and>
               slot_key m' i k = (sid, ckpt, seq, ps_generation (slot_of m i k) + 1) \<and>
               (\<exists>c. is_submission c \<and> call_key c = slot_key m' i k \<and> cm_log m' = cm_log m @ [c])) \<and>
            (\<forall>i' k'. (i', k') \<noteq> (i, k) \<longrightarrow> slot_of m' i' k' = slot_of m i' k')) \<or>
          (\<forall>n < slots. ps_state (slot_of m i (probe n)) \<noteq> FREE) \<and>
          (unat start + slots \<le> 2 ^ 32 \<longrightarrow> (\<forall>k. in_pool m i k \<longrightarrow> ps_state (slot_of m i k) \<noteq> FREE)) \<and>
          r = Return EAGAIN None \<and> (\<exists>c. rc_flags c = POOL_FULL \<and> cm_log m' = cm_log m @ [c]) \<and>
          (\<forall>i' k'. slot_of m' i' k' = slot_of m i' k')))"
proof (cases "seq = 0 \<or> find_stream m sid = None")
  case True
  with assms(2) show ?thesis by (auto simp: checkpoint_submit_def submit_call_def)
next
  case False
  then obtain i where known: "seq \<noteq> 0" "find_stream m sid = Some i" by auto
  let ?m = "snd (submit_call sid seq ckpt m)" and ?start = "st_cursor (cm_streams m ! i)"
  let ?slots = "unat (cm_slots_per_stream m)"
  let ?probe = "\<lambda>n. unat ((?start + word_of_nat n) mod cm_slots_per_stream m)"
  note frame = submit_call_frame [of sid seq ckpt m]
  from find_stream_Some [OF known(2)] have i: "i < length (cm_streams m)" "stream_id m i = sid" by simp_all
  have slots: "cm_slots_per_stream ?m = cm_slots_per_stream m" using known by (simp add: submit_call_def)
  have pos: "0 < cm_slots_per_stream m" using assms(1) by (simp add: shape_ok_def)
  have tried: "tried ?m ?start = map ?probe [0..<?slots]" by (simp add: tried_def try_index_def slots)
  have all: "k \<in> ?probe ` {..<?slots}" if "unat ?start + ?slots \<le> 2 ^ 32" "in_pool m i k" for k
    using tried_all [of ?start ?m] that pos slots i shape_in_pool [OF assms(1)]
    by (simp add: tried atLeast0LessThan)
  have res: "submit_result env i seq ckpt ?m (free_slot ?m i ?start) = (r, m')"
    using checkpoint_submit_result [OF assms(1) known(2,1), of env ckpt] assms(2) by simp
  show ?thesis
  proof (cases "free_slot ?m i ?start")
    case None
    then have none: "\<forall>n < ?slots. ps_state (slot_of m i (?probe n)) \<noteq> FREE"
      using frame by (auto simp: free_slot_def find_None_iff tried)
    then have full: "unat ?start + ?slots \<le> 2 ^ 32 \<longrightarrow> (\<forall>k. in_pool m i k \<longrightarrow> ps_state (slot_of m i k) \<noteq> FREE)"
      using all by (metis (no_types, lifting) image_iff lessThan_iff)
    show ?thesis
      using known none full submit_result_none [OF res [unfolded None]] frame by (simp only: Let_def) auto
  next
    case (Some k)
    then obtain n where n: "n < ?slots" "k = ?probe n" "ps_state (slot_of m i k) = FREE"
      "\<forall>j < n. ps_state (slot_of m i (?probe j)) \<noteq> FREE"
      using frame by (auto simp: free_slot_def find_Some_iff tried)
    have k: "in_pool m i k"
      using try_index_in_pool [OF assms(1) i(1)] n(2) by (simp add: try_index_def)
    note found = submit_result_found [OF _ res [unfolded Some], unfolded frame, OF k]
    show ?thesis
      using known n k found i(2) by (simp only: Let_def) blast
  qed
qed

theorem submit_outcome_witness:
  "\<exists>r m' k. checkpoint_submit (\<lambda>_. quiet_env 0) 7 5 100 (sy_pool small_pool) = (r, m') \<and>
    r = Return 0 (Some (ps_generation (slot_of (sy_pool small_pool) 0 k) + 1)) \<and> ps_state (slot_of m' 0 k) = PENDING"
proof -
  obtain r m' where run: "checkpoint_submit (\<lambda>_. quiet_env 0) 7 5 100 (sy_pool small_pool) = (r, m')" by fastforce
  have "pool_reach device_answers (\<lambda>s. True) small_pool" by (simp add: small_pool_reach)
  then have shape: "shape_ok (sy_pool small_pool)" using pool_reach_ok by (simp add: pool_ok_def)
  have find: "find_stream (sy_pool small_pool) 7 = Some 0" by code_simp
  have cur: "st_cursor (cm_streams (sy_pool small_pool) ! 0) = 0" and two: "cm_slots_per_stream (sy_pool small_pool) = 2"
    by code_simp+
  have free: "in_pool (sy_pool small_pool) 0 0" "ps_state (slot_of (sy_pool small_pool) 0 0) = FREE" by code_simp+
  have rc: "pe_rc (quiet_env 0) = 0" by (simp add: quiet_env_def)
  from submit_outcome [OF shape run] find run rc free cur two show ?thesis
    by (auto simp: Let_def)
qed

text \<open>A pool of three slots whose cursor is about to wrap.\<close>

definition wrapping_pool :: manager where
  "wrapping_pool =
     (let busy = (new_slot 1)\<lparr>ps_state := PENDING\<rparr>
      in \<lparr>cm_slots_per_stream = 3,
          cm_streams = [\<lparr>st_id = 7, st_handle = 9, st_slots = [busy, busy, new_slot 3], st_cursor = 0xFFFFFFFF\<rparr>],
          cm_polling = False, cm_poll_cursor = 0, cm_stop_poller = False, cm_poller_running = False,
          cm_poller = None, cm_log = []\<rparr>)"

text \<open>C26: The search can miss a free slot: with three slots per stream, when the 32-bit cursor is about to
  wrap, \<open>(start + n) % slots\<close> visits slot 0 twice and never slot 2, and the submission is refused with
  \<open>EAGAIN\<close> and recorded as \<open>POOL_FULL\<close> although slot 2 is free.\<close>

theorem submit_wrap_misses:
  "shape_ok wrapping_pool \<and> in_pool wrapping_pool 0 2 \<and> ps_state (slot_of wrapping_pool 0 2) = FREE \<and>
    (case checkpoint_submit (\<lambda>_. quiet_env 0) 7 5 100 wrapping_pool of (r, m') \<Rightarrow>
      r = Return EAGAIN None \<and> map rc_flags (cm_log m') = [POOL_FULL])"
proof (intro conjI)
  show "shape_ok wrapping_pool" by (simp add: shape_ok_def wrapping_pool_def Let_def new_slot_def)
  show "in_pool wrapping_pool 0 2" "ps_state (slot_of wrapping_pool 0 2) = FREE" by code_simp+
  show "case checkpoint_submit (\<lambda>_. quiet_env 0) 7 5 100 wrapping_pool of (r, m') \<Rightarrow>
      r = Return EAGAIN None \<and> map rc_flags (cm_log m') = [POOL_FULL]" by code_simp
qed

subsection \<open>One poll\<close>



text \<open>
  Starting the poller again between the end of its thread and the join assigns to a joinable thread.
\<close>

lemma restart_before_join:
  assumes "\<not> cm_poller_running m" and "cm_poller m \<noteq> None" and "interval_us \<noteq> 0" and "budget \<noteq> 0"
  shows "start_poller interval_us budget True m = None"
  using assms by (simp add: start_poller_def)

end
