(* ===== verification/Mspti_Lib.thy ===== *)
theory Mspti_Lib
  imports Mspti_Writer
begin

text \<open>
  The rest of \<open>src/hang_mspti.cpp\<close>: subscription to the msPTI library, switching its domains and
  activities on and off, the callbacks that fill the ring and the pool of activity buffers. msPTI
  itself is a parameter: the result of the \<open>k\<close>-th call is \<open>le_answer k\<close>, and the calls made so far
  with their results are part of the state. \<open>MSPTI_SUCCESS\<close> is 0.

  The lifecycle lock keeps \<open>hang_mspti_start\<close>, \<open>hang_mspti_set_enabled\<close> and \<open>hang_mspti_stop\<close> apart
  (\<open>hang_mspti_flush\<close> takes no lock; the Python module calls it from the thread that makes the other
  calls). Callbacks and buffer requests of other threads do not take it: any number of them may come
  while a buffer is allocated, while msPTI works on a call (before its result is looked at) and before
  the ring is unmapped. \<open>le_others\<close> says which ones come when.
\<close>

subsection \<open>The process\<close>

datatype mspti_domain = Runtime_Domain | Hccl_Domain

datatype activity_kind = Kernel_Kind | Hccl_Kind | Runtime_Api_Kind

datatype mspti_call =
    Subscribe
  | Register_Callbacks
  | Enable_Domain bool mspti_domain
  | Activity_Enable activity_kind
  | Activity_Disable activity_kind
  | Flush_All
  | Unsubscribe

record buffer =
  bf_allocated :: bool
  bf_busy :: bool

record lib =
  lb_ring :: "ring_shm option"
  lb_path :: string
  lb_owner :: "32 word"
  lb_subscriber :: bool
  lb_enabled :: bool
  lb_pool :: "buffer list"
  lb_calls :: "(mspti_call \<times> int) list"
  lb_files :: "(string, ring_shm) dict"

text \<open>The thread that writes a record: its process, its clock (by the number of records before), its id.\<close>

record caller =
  le_pid :: "32 word"
  le_now :: "nat \<Rightarrow> 64 word"
  le_tid :: "32 word"

definition BUFFER_COUNT :: nat where "BUFFER_COUNT = 8"

definition lib_init :: lib where
  "lib_init = \<lparr>lb_ring = None, lb_path = [], lb_owner = 0, lb_subscriber = False, lb_enabled = False,
     lb_pool = replicate BUFFER_COUNT \<lparr>bf_allocated = False, bf_busy = False\<rparr>, lb_calls = [],
     lb_files = []\<rparr>"

subsection \<open>Records\<close>

definition HANG_RUNTIME_ENTER :: "16 word" where "HANG_RUNTIME_ENTER = 1"
definition HANG_RUNTIME_EXIT :: "16 word" where "HANG_RUNTIME_EXIT = 2"
definition HANG_HCCL_ENTER :: "16 word" where "HANG_HCCL_ENTER = 3"
definition HANG_HCCL_EXIT :: "16 word" where "HANG_HCCL_EXIT = 4"
definition HANG_KERNEL_DONE :: "16 word" where "HANG_KERNEL_DONE = 5"
definition HANG_HCCL_DONE :: "16 word" where "HANG_HCCL_DONE = 6"
definition HANG_STATUS :: "16 word" where "HANG_STATUS = 7"
definition HANG_RUNTIME_API_DONE :: "16 word" where "HANG_RUNTIME_API_DONE = 8"

definition UINT32_MAX :: "32 word" where "UINT32_MAX = 0xFFFFFFFF"
definition ENOMEM :: int where "ENOMEM = 12"

definition c_string :: "string \<Rightarrow> byte list" where
  "c_string s = map (\<lambda>c. word_of_nat (of_char c)) s"

text \<open>The arguments of \<open>record\<close>; the clock and the thread id are filled in by it.\<close>

definition record_args ::
  "16 word \<Rightarrow> 32 word \<Rightarrow> 32 word \<Rightarrow> 64 word \<Rightarrow> 64 word \<Rightarrow> 64 word \<Rightarrow> 32 word \<Rightarrow> byte list option \<Rightarrow>
    byte list option \<Rightarrow> ring_call" where
  "record_args kind device stream corr start end code name detail =
     \<lparr>ra_kind = kind, ra_device = device, ra_stream = stream, ra_corr = corr, ra_start = start,
      ra_end = end, ra_code = code, ra_name = name, ra_detail = detail, ra_now = 0, ra_tid = 0\<rparr>"

definition written :: "lib \<Rightarrow> nat" where
  "written l = (case lb_ring l of None \<Rightarrow> 0 | Some m \<Rightarrow> unat (rm_write_seq m))"

definition lib_record :: "'a caller_scheme \<Rightarrow> ring_call \<Rightarrow> lib \<Rightarrow> lib" where
  "lib_record env c l = l\<lparr>lb_ring := ring_record (lb_ring l) (le_pid env = lb_owner l)
     (c\<lparr>ra_now := le_now env (written l), ra_tid := le_tid env\<rparr>)\<rparr>"

definition record_status :: "'a caller_scheme \<Rightarrow> int \<Rightarrow> string \<Rightarrow> lib \<Rightarrow> lib" where
  "record_status env code what =
     lib_record env (record_args HANG_STATUS UINT32_MAX UINT32_MAX 0 0 0 (word_of_int code)
       (Some (c_string what)) None)"

subsection \<open>Callbacks\<close>

datatype callback_domain = From_Runtime | From_Hccl | From_Other

record callback_data =
  cb_enter :: bool
  cb_correlation :: "64 word"
  cb_name :: "byte list option"

definition callback :: "caller \<Rightarrow> callback_domain \<Rightarrow> 32 word \<Rightarrow> callback_data option \<Rightarrow> lib \<Rightarrow> lib" where
  "callback env domain cbid data l =
     (case data of
        None \<Rightarrow> l
      | Some d \<Rightarrow>
          let put = (\<lambda>kind. lib_record env
            (record_args kind UINT32_MAX UINT32_MAX (cb_correlation d) 0 0 cbid (cb_name d) None) l)
          in (case domain of
                From_Runtime \<Rightarrow> put (if cb_enter d then HANG_RUNTIME_ENTER else HANG_RUNTIME_EXIT)
              | From_Hccl \<Rightarrow> put (if cb_enter d then HANG_HCCL_ENTER else HANG_HCCL_EXIT)
              | From_Other \<Rightarrow> l))"

text \<open>
  A buffer is named by its index in the pool; an entry that was never allocated is the null
  pointer.
\<close>

definition pointer :: "buffer list \<Rightarrow> nat \<Rightarrow> nat option" where
  "pointer pool i = (if bf_allocated (pool ! i) then Some i else None)"

definition set_busy :: "nat \<Rightarrow> bool \<Rightarrow> lib \<Rightarrow> lib" where
  "set_busy i busy l = l\<lparr>lb_pool := (lb_pool l)[i := (lb_pool l ! i)\<lparr>bf_busy := busy\<rparr>]\<rparr>"

definition count_dropped :: "lib \<Rightarrow> lib" where
  "count_dropped l = l\<lparr>lb_ring := map_option (\<lambda>m. m\<lparr>rm_dropped := rm_dropped m + 1\<rparr>) (lb_ring l)\<rparr>"

definition buffer_request :: "lib \<Rightarrow> nat option \<times> lib" where
  "buffer_request l =
     (case list_index (map bf_busy (lb_pool l)) False of
        None \<Rightarrow> (None, count_dropped l)
      | Some i \<Rightarrow>
          (case pointer (lb_pool l) i of
             None \<Rightarrow> (None, count_dropped (set_busy i True l))
           | Some b \<Rightarrow> (Some b, set_busy i True l)))"

text \<open>What \<open>msptiActivityGetNextRecord\<close> finds in a buffer, one after the other.\<close>

datatype activity =
    Kernel_Activity "32 word" "32 word" "64 word" "64 word" "64 word" "byte list option" "byte list option"
  | Hccl_Activity "32 word" "32 word" "64 word" "64 word" "byte list option" "byte list option"
  | Api_Activity "64 word" "64 word" "64 word" "32 word" "byte list option"
  | Other_Activity

fun record_activity :: "caller \<Rightarrow> activity \<Rightarrow> lib \<Rightarrow> lib" where
  "record_activity env (Kernel_Activity device stream corr start end name type) l =
     lib_record env (record_args HANG_KERNEL_DONE device stream corr start end 0 name type) l"
| "record_activity env (Hccl_Activity device stream start end name comm) l =
     lib_record env (record_args HANG_HCCL_DONE device stream 0 start end 0 name comm) l"
| "record_activity env (Api_Activity corr start end thread name) l =
     lib_record env (record_args HANG_RUNTIME_API_DONE UINT32_MAX UINT32_MAX corr start end thread name None) l"
| "record_activity env Other_Activity l = l"

definition buffer_complete :: "caller \<Rightarrow> nat option \<Rightarrow> nat \<Rightarrow> activity list \<Rightarrow> lib \<Rightarrow> lib" where
  "buffer_complete env buffer valid activities l =
     (let l = (if valid \<noteq> 0 \<and> buffer \<noteq> None then fold (record_activity env) activities l else l)
      in case list_index (map (pointer (lb_pool l)) [0..<length (lb_pool l)]) buffer of
           None \<Rightarrow> l
         | Some i \<Rightarrow> set_busy i False l)"

subsection \<open>Other threads\<close>

text \<open>
  What msPTI does on other threads of the process while one of them is inside the library, and the
  moments at which it can be seen.
\<close>

datatype other_call =
    Other_Callback caller callback_domain "32 word" "callback_data option"
  | Other_Request
  | Other_Complete caller "nat option" nat "activity list"

fun other_step :: "other_call \<Rightarrow> lib \<Rightarrow> lib" where
  "other_step (Other_Callback c domain cbid data) l = callback c domain cbid data l"
| "other_step Other_Request l = snd (buffer_request l)"
| "other_step (Other_Complete c buffer valid activities) l = buffer_complete c buffer valid activities l"

datatype moment = At_Buffer nat | During_Call nat | Before_Unmap

text \<open>
  One call into the library: the thread, the answers of msPTI and whether it hands out a subscriber,
  the errno of the first failing system call, which allocations succeed, the clocks, and what other
  threads do meanwhile.
\<close>

record lib_env = caller +
  le_answer :: "nat \<Rightarrow> int"
  le_handle :: bool
  le_os :: "int option"
  le_memory :: "nat \<Rightarrow> bool"
  le_wall_ns :: "64 word"
  le_mono_ns :: "64 word"
  le_others :: "moment \<Rightarrow> other_call list"

definition others :: "lib_env \<Rightarrow> moment \<Rightarrow> lib \<Rightarrow> lib" where
  "others env t l = fold other_step (le_others env t) l"

subsection \<open>Calls of msPTI\<close>

definition call_mspti :: "lib_env \<Rightarrow> mspti_call \<Rightarrow> lib \<Rightarrow> int \<times> lib" where
  "call_mspti env c l =
     (let k = length (lb_calls l); result = le_answer env k
      in (result, others env (During_Call k) (l\<lparr>lb_calls := lb_calls l @ [(c, result)]\<rparr>)))"

definition check :: "lib_env \<Rightarrow> int \<Rightarrow> string \<Rightarrow> lib \<Rightarrow> int \<times> lib" where
  "check env result operation l =
     (if result = 0 then (0, l) else (result, record_status env result operation l))"

text \<open>\<open>error = check(call, name); if (!error) error = check(...)\<close>.\<close>

fun checked_calls :: "lib_env \<Rightarrow> (mspti_call \<times> string) list \<Rightarrow> lib \<Rightarrow> int \<times> lib" where
  "checked_calls env [] l = (0, l)"
| "checked_calls env ((c, operation) # calls) l =
     (case call_mspti env c l of
        (result, l) \<Rightarrow>
          (case check env result operation l of
             (error, l) \<Rightarrow> if error \<noteq> 0 then (error, l) else checked_calls env calls l))"

definition subscribe_calls :: "(mspti_call \<times> string) list" where
  "subscribe_calls = [(Subscribe, ''subscribe''), (Register_Callbacks, ''buffers'')]"

definition enable_calls :: "(mspti_call \<times> string) list" where
  "enable_calls =
     [(Enable_Domain True Runtime_Domain, ''runtime_domain''),
      (Enable_Domain True Hccl_Domain, ''hccl_domain''),
      (Activity_Enable Kernel_Kind, ''kernel_activity''),
      (Activity_Enable Hccl_Kind, ''hccl_activity''),
      (Activity_Enable Runtime_Api_Kind, ''runtime_api_activity'')]"

definition disable_calls :: "(mspti_call \<times> string) list" where
  "disable_calls =
     [(Enable_Domain False Runtime_Domain, ''runtime_domain_off''),
      (Enable_Domain False Hccl_Domain, ''hccl_domain_off''),
      (Activity_Disable Kernel_Kind, ''kernel_activity_off''),
      (Activity_Disable Hccl_Kind, ''hccl_activity_off''),
      (Activity_Disable Runtime_Api_Kind, ''runtime_api_activity_off'')]"

definition set_enabled_locked :: "lib_env \<Rightarrow> bool \<Rightarrow> lib \<Rightarrow> int \<times> lib" where
  "set_enabled_locked env enabled l =
     (if enabled = lb_enabled l then (0, l)
      else if enabled
      then (case checked_calls env enable_calls l of
              (error, l) \<Rightarrow> (error,
                if error = 0 then record_status env 0 ''enabled'' (l\<lparr>lb_enabled := True\<rparr>) else l))
      else (case checked_calls env disable_calls (snd (call_mspti env Flush_All l)) of
              (error, l) \<Rightarrow> (error,
                if error = 0 then record_status env 0 ''disabled'' (l\<lparr>lb_enabled := False\<rparr>) else l)))"

subsection \<open>Life cycle\<close>

text \<open>What was mapped is what the file holds.\<close>

definition cleanup_map :: "lib \<Rightarrow> lib" where
  "cleanup_map l =
     (case lb_ring l of
        None \<Rightarrow> l\<lparr>lb_owner := 0\<rparr>
      | Some m \<Rightarrow> l\<lparr>lb_files := dict_set (lb_path l) m (lb_files l), lb_ring := None, lb_owner := 0\<rparr>)"

definition unsubscribe :: "lib_env \<Rightarrow> lib \<Rightarrow> lib" where
  "unsubscribe env l =
     (if lb_subscriber l then (snd (call_mspti env Unsubscribe l))\<lparr>lb_subscriber := False\<rparr> else l)"

text \<open>
  The loop that allocates the buffers and marks them free; it stops at the index of the first
  allocation that fails. Those before it are then freed.
\<close>

fun alloc_buffers :: "lib_env \<Rightarrow> nat list \<Rightarrow> lib \<Rightarrow> nat option \<times> lib" where
  "alloc_buffers env [] l = (None, l)"
| "alloc_buffers env (i # is) l =
     (let l = others env (At_Buffer i) l
      in if \<not> bf_allocated (lb_pool l ! i) \<and> \<not> le_memory env i then (Some i, l)
         else alloc_buffers env is (l\<lparr>lb_pool := (lb_pool l)[i := \<lparr>bf_allocated = True, bf_busy = False\<rparr>]\<rparr>))"

definition free_buffers :: "nat \<Rightarrow> lib \<Rightarrow> lib" where
  "free_buffers i l = l\<lparr>lb_pool := map (\<lambda>j. if j < i then (lb_pool l ! j)\<lparr>bf_allocated := False\<rparr> else lb_pool l ! j)
     [0..<length (lb_pool l)]\<rparr>"

definition unmap :: "lib_env \<Rightarrow> lib \<Rightarrow> lib" where
  "unmap env l = cleanup_map (others env Before_Unmap l)"

definition hang_mspti_start :: "lib_env \<Rightarrow> string option \<Rightarrow> 64 word \<Rightarrow> lib \<Rightarrow> int \<times> lib" where
  "hang_mspti_start env path capacity l =
     (let p = (case path of None \<Rightarrow> [] | Some p \<Rightarrow> p);
          os = (if dict_get (lb_files l) p \<noteq> None then Some 17 else le_os env)
      in case ring_create (lb_ring l) (path \<noteq> None) os (le_pid env) (le_wall_ns env) (le_mono_ns env) capacity of
           (rc, None) \<Rightarrow> (rc, l)
         | (rc, Some m) \<Rightarrow>
             if rc \<noteq> 0 then (rc, l)
             else (case alloc_buffers env [0..<BUFFER_COUNT] (l\<lparr>lb_ring := Some m, lb_path := p, lb_owner := le_pid env\<rparr>) of
                 (Some i, l) \<Rightarrow> (ENOMEM, unmap env (free_buffers i (record_status env ENOMEM ''buffer_pool'' l)))
               | (None, l) \<Rightarrow>
                   (case checked_calls env subscribe_calls (l\<lparr>lb_subscriber := le_handle env\<rparr>) of
                      (error, l) \<Rightarrow>
                        (case (if error = 0 then set_enabled_locked env True l else (error, l)) of
                           (error, l) \<Rightarrow> (error, if error \<noteq> 0 then unmap env (unsubscribe env l) else l)))))"

definition not_ours :: "lib_env \<Rightarrow> lib \<Rightarrow> bool" where
  "not_ours env l \<longleftrightarrow> lb_ring l = None \<or> le_pid env \<noteq> lb_owner l"

definition hang_mspti_flush :: "lib_env \<Rightarrow> lib \<Rightarrow> int \<times> lib" where
  "hang_mspti_flush env l =
     (if not_ours env l then (22, l)
      else case call_mspti env Flush_All l of (result, l) \<Rightarrow> check env result ''flush'' l)"

definition hang_mspti_set_enabled :: "lib_env \<Rightarrow> int \<Rightarrow> lib \<Rightarrow> int \<times> lib" where
  "hang_mspti_set_enabled env enabled l =
     (if not_ours env l then (22, l) else set_enabled_locked env (enabled \<noteq> 0) l)"

definition hang_mspti_stop :: "lib_env \<Rightarrow> lib \<Rightarrow> lib" where
  "hang_mspti_stop env l =
     (if not_ours env l then l
      else unmap env (unsubscribe env
        (snd (set_enabled_locked env False (snd (call_mspti env Flush_All l))))))"

subsection \<open>What other threads can do\<close>

lemma lib_record_frame [simp]:
  "lb_path (lib_record env c l) = lb_path l" "lb_owner (lib_record env c l) = lb_owner l"
  "lb_subscriber (lib_record env c l) = lb_subscriber l" "lb_enabled (lib_record env c l) = lb_enabled l"
  "lb_pool (lib_record env c l) = lb_pool l" "lb_calls (lib_record env c l) = lb_calls l"
  "lb_files (lib_record env c l) = lb_files l" "lb_ring (lib_record env c l) = None \<longleftrightarrow> lb_ring l = None"
  by (simp_all add: lib_record_def ring_record_def split: option.split)

lemma record_status_frame [simp]:
  "lb_path (record_status env r w l) = lb_path l" "lb_owner (record_status env r w l) = lb_owner l"
  "lb_subscriber (record_status env r w l) = lb_subscriber l"
  "lb_enabled (record_status env r w l) = lb_enabled l"
  "lb_pool (record_status env r w l) = lb_pool l" "lb_calls (record_status env r w l) = lb_calls l"
  "lb_files (record_status env r w l) = lb_files l"
  "lb_ring (record_status env r w l) = None \<longleftrightarrow> lb_ring l = None"
  by (simp_all add: record_status_def)

lemma ring_store_dropped [simp]:
  "ring_store c (m\<lparr>rm_dropped := d\<rparr>) = (ring_store c m)\<lparr>rm_dropped := d\<rparr>"
  by (simp add: ring_store_def filled_cell_def Let_def)

lemma ring_stores_dropped [simp]:
  "fold ring_store cs (m\<lparr>rm_dropped := d\<rparr>) = (fold ring_store cs m)\<lparr>rm_dropped := d\<rparr>"
  by (induction cs arbitrary: m) simp_all

text \<open>
  From \<open>l\<close> to \<open>l'\<close> the ring got only records that satisfy \<open>P\<close>, besides its counter of dropped buffers.
\<close>

definition ring_grows :: "(ring_call \<Rightarrow> bool) \<Rightarrow> lib \<Rightarrow> lib \<Rightarrow> bool" where
  "ring_grows P l l' \<longleftrightarrow> (case lb_ring l of
       None \<Rightarrow> lb_ring l' = None
     | Some r \<Rightarrow> \<exists>cs d. (\<forall>c \<in> set cs. P c) \<and> lb_ring l' = Some ((fold ring_store cs r)\<lparr>rm_dropped := d\<rparr>))"

lemma ring_grows_refl_ring: "\<exists>cs d. (\<forall>c \<in> set cs. P c) \<and> r = (fold ring_store cs r)\<lparr>rm_dropped := d\<rparr>"
  by (intro exI [of _ "[]"] exI [of _ "rm_dropped r"]) simp

lemma ring_grows_same: "lb_ring l' = lb_ring l \<Longrightarrow> ring_grows P l l'"
  using ring_grows_refl_ring by (simp add: ring_grows_def split: option.split)

lemma ring_grows_some:
  "lb_ring l = Some r \<Longrightarrow> lb_ring l' = Some ((fold ring_store cs r)\<lparr>rm_dropped := d\<rparr>) \<Longrightarrow>
    (\<And>c. c \<in> set cs \<Longrightarrow> P c) \<Longrightarrow> ring_grows P l l'"
  unfolding ring_grows_def by auto

lemma ring_grows_trans [trans]:
  assumes "ring_grows P l l'" and "ring_grows P l' l''"
  shows "ring_grows P l l''"
proof (cases "lb_ring l")
  case None
  with assms show ?thesis by (simp add: ring_grows_def)
next
  case (Some r)
  with assms(1) obtain cs d where cs: "\<forall>c \<in> set cs. P c" "lb_ring l' = Some ((fold ring_store cs r)\<lparr>rm_dropped := d\<rparr>)"
    by (auto simp: ring_grows_def)
  with assms(2) obtain cs' d' where "\<forall>c \<in> set cs'. P c"
    "lb_ring l'' = Some ((fold ring_store (cs @ cs') r)\<lparr>rm_dropped := d'\<rparr>)"
    by (auto simp: ring_grows_def)
  with cs(1) show ?thesis by (intro ring_grows_some [OF Some, where cs = "cs @ cs'" and d = d']) auto
qed

lemma ring_grows_mono: "ring_grows P l l' \<Longrightarrow> (\<And>c. P c \<Longrightarrow> Q c) \<Longrightarrow> ring_grows Q l l'"
  unfolding ring_grows_def by (fastforce split: option.splits)

lemma ring_grows_record:
  assumes "\<And>t n. P (c\<lparr>ra_now := t, ra_tid := n\<rparr>)"
  shows "ring_grows P l (lib_record env c l)"
proof (cases "lb_ring l = None \<or> le_pid env \<noteq> lb_owner l")
  case True
  then show ?thesis by (intro ring_grows_same) (auto simp: lib_record_def ring_record_def split: option.split)
next
  case False
  then obtain r where r: "lb_ring l = Some r" "le_pid env = lb_owner l" by auto
  let ?c = "c\<lparr>ra_now := le_now env (written l), ra_tid := le_tid env\<rparr>"
  show ?thesis
    by (rule ring_grows_some [OF r(1), where cs = "[?c]" and d = "rm_dropped (ring_store ?c r)"])
      (use assms r in \<open>auto simp: lib_record_def ring_record_def\<close>)
qed

text \<open>Callbacks and buffers never write a status record.\<close>

definition no_status :: "ring_call \<Rightarrow> bool" where
  "no_status c \<longleftrightarrow> ra_kind c \<noteq> HANG_STATUS"

text \<open>
  What holds of the states before and after anything that other threads did: nothing but the ring,
  the flags of the pool and the record of the calls may differ.
\<close>

definition heard :: "lib \<Rightarrow> lib \<Rightarrow> bool" where
  "heard l l' \<longleftrightarrow> lb_path l' = lb_path l \<and> lb_owner l' = lb_owner l \<and> lb_subscriber l' = lb_subscriber l \<and>
     lb_enabled l' = lb_enabled l \<and> lb_files l' = lb_files l \<and> length (lb_pool l') = length (lb_pool l) \<and>
     ring_grows no_status l l'"

lemma ring_grows_calls [simp]:
  "ring_grows P (l\<lparr>lb_calls := x\<rparr>) l' = ring_grows P l l'" "ring_grows P l (l'\<lparr>lb_calls := x\<rparr>) = ring_grows P l l'"
  "ring_grows P l (l'\<lparr>lb_enabled := b\<rparr>) = ring_grows P l l'" "ring_grows P l (l'\<lparr>lb_subscriber := s\<rparr>) = ring_grows P l l'"
  by (simp_all add: ring_grows_def split: option.split)

lemma heard_refl [simp]: "heard l l"
  by (simp add: heard_def ring_grows_same)

lemma heard_trans [trans]: "heard l l' \<Longrightarrow> heard l' l'' \<Longrightarrow> heard l l''"
  by (auto simp: heard_def intro: ring_grows_trans)

lemma heard_calls [simp]:
  "heard (l\<lparr>lb_calls := x\<rparr>) l' = heard l l'" "heard l (l'\<lparr>lb_calls := x\<rparr>) = heard l l'"
  by (simp_all add: heard_def)

lemma heard_ring: "heard l l' \<Longrightarrow> lb_ring l' = None \<longleftrightarrow> lb_ring l = None"
  by (auto simp: heard_def ring_grows_def split: option.splits)

lemma ring_grows_pool: "ring_grows P l (l\<lparr>lb_pool := x\<rparr>)"
  by (simp add: ring_grows_same)

lemma heard_record: "ra_kind c \<noteq> HANG_STATUS \<Longrightarrow> heard l (lib_record env c l)"
  by (simp add: heard_def ring_grows_record no_status_def)

lemma heard_callback: "heard l (callback env domain cbid data l)"
  by (auto simp: callback_def record_args_def HANG_RUNTIME_ENTER_def HANG_RUNTIME_EXIT_def
      HANG_HCCL_ENTER_def HANG_HCCL_EXIT_def HANG_STATUS_def Let_def
      intro!: heard_record split: option.split callback_domain.split)

lemma heard_busy: "heard l (set_busy i b l)"
  by (simp add: heard_def set_busy_def ring_grows_pool)

lemma heard_dropped: "heard l (count_dropped l)"
proof -
  have "ring_grows no_status l (count_dropped l)"
    by (cases "lb_ring l") (auto simp: ring_grows_def count_dropped_def intro!: exI [of _ "[]"])
  then show ?thesis by (simp add: heard_def) (simp add: count_dropped_def)
qed

lemma heard_request: "heard l (snd (buffer_request l))"
  using heard_busy heard_dropped heard_trans
  by (fastforce simp: buffer_request_def split: option.split)

lemma heard_activity: "heard l (record_activity env a l)"
  by (cases a) (auto intro!: heard_record simp: record_args_def HANG_KERNEL_DONE_def HANG_HCCL_DONE_def
      HANG_RUNTIME_API_DONE_def HANG_STATUS_def)

lemma heard_complete: "heard l (buffer_complete env b valid activities l)"
proof -
  have "heard l (fold (record_activity env) activities l)"
    by (induction activities arbitrary: l) (auto intro: heard_trans [OF heard_activity])
  then show ?thesis
    using heard_trans [OF _ heard_busy] heard_busy
    by (auto simp: buffer_complete_def Let_def split: option.split)
qed

lemma heard_other: "heard l (other_step c l)"
  by (cases c) (simp_all add: heard_callback heard_request heard_complete)

lemma heard_others: "heard l (others env t l)"
proof -
  have "heard l (fold other_step cs l)" for cs
    by (induction cs arbitrary: l) (auto intro: heard_trans [OF heard_other])
  then show ?thesis by (simp add: others_def)
qed

lemma other_step_calls [simp]: "lb_calls (other_step c l) = lb_calls l"
proof (cases c)
  case (Other_Complete e b v as)
  have "lb_calls (record_activity e a l) = lb_calls l" for a l by (cases a) simp_all
  then have "lb_calls (fold (record_activity e) as l) = lb_calls l"
    by (induction as arbitrary: l) simp_all
  with Other_Complete show ?thesis
    by (simp add: buffer_complete_def set_busy_def Let_def split: option.split)
qed (auto simp: callback_def buffer_request_def count_dropped_def set_busy_def Let_def
    split: option.split callback_domain.split)

lemma others_calls [simp]: "lb_calls (others env t l) = lb_calls l"
proof -
  have "lb_calls (fold other_step cs l) = lb_calls l" for cs by (induction cs arbitrary: l) simp_all
  then show ?thesis by (simp add: others_def)
qed

lemma heardD:
  assumes "heard l l'"
  shows "lb_path l' = lb_path l" "lb_owner l' = lb_owner l" "lb_subscriber l' = lb_subscriber l"
    "lb_enabled l' = lb_enabled l" "lb_files l' = lb_files l" "length (lb_pool l') = length (lb_pool l)"
    "lb_ring l' = None \<longleftrightarrow> lb_ring l = None" "ring_grows no_status l l'"
  using assms heard_ring [OF assms] by (simp_all add: heard_def)

lemmas others_frame [simp] = heardD [OF heard_others]
lemmas other_step_frame [simp] = heardD [OF heard_other]

lemma others_quiet: "le_others env t = [] \<Longrightarrow> others env t l = l"
  by (simp add: others_def)

subsection \<open>What one call does\<close>

lemma call_mspti_result: "fst (call_mspti env c l) = le_answer env (length (lb_calls l))"
  by (simp add: call_mspti_def Let_def)

lemma call_mspti_calls [simp]:
  "lb_calls (snd (call_mspti env c l)) = lb_calls l @ [(c, le_answer env (length (lb_calls l)))]"
  by (simp add: call_mspti_def Let_def)

lemma heard_call: "heard l (snd (call_mspti env c l))"
  using heard_others by (simp add: call_mspti_def Let_def) (metis heard_calls(1))

lemmas call_mspti_frame [simp] = heardD [OF heard_call]

lemma unsubscribe_frame [simp]:
  "lb_path (unsubscribe env l) = lb_path l"
  "lb_enabled (unsubscribe env l) = lb_enabled l" "length (lb_pool (unsubscribe env l)) = length (lb_pool l)"
  "lb_files (unsubscribe env l) = lb_files l" "\<not> lb_subscriber (unsubscribe env l)"
  "lb_owner (unsubscribe env l) = lb_owner l" "lb_ring (unsubscribe env l) = None \<longleftrightarrow> lb_ring l = None"
  "ring_grows no_status l (unsubscribe env l)"
  by (simp_all add: unsubscribe_def ring_grows_same)

lemma unsubscribe_calls:
  "\<exists>cs. lb_calls (unsubscribe env l) = lb_calls l @ cs \<and> (\<forall>x \<in> set cs. fst x = Unsubscribe)"
  by (simp add: unsubscribe_def)

lemma cleanup_map_frame [simp]:
  "lb_ring (cleanup_map l) = None" "lb_path (cleanup_map l) = lb_path l"
  "lb_enabled (cleanup_map l) = lb_enabled l" "lb_pool (cleanup_map l) = lb_pool l"
  "lb_calls (cleanup_map l) = lb_calls l" "lb_subscriber (cleanup_map l) = lb_subscriber l"
  by (simp_all add: cleanup_map_def split: option.split)

lemma unmap_frame [simp]:
  "lb_ring (unmap env l) = None" "lb_path (unmap env l) = lb_path l"
  "lb_enabled (unmap env l) = lb_enabled l" "length (lb_pool (unmap env l)) = length (lb_pool l)"
  "lb_calls (unmap env l) = lb_calls l" "lb_subscriber (unmap env l) = lb_subscriber l"
  by (simp_all add: unmap_def)

lemma checked_calls_cases:
  assumes "checked_calls env cs l = (e, l')"
  obtains (succeeded) "e = 0" "heard l l'" "lb_calls l' = lb_calls l @ map (\<lambda>c. (fst c, 0)) cs"
  | (failed) j k where "j < length cs" "e \<noteq> 0" "heard l k" "l' = record_status env e (snd (cs ! j)) k"
      "lb_calls k = lb_calls l @ map (\<lambda>c. (fst c, 0)) (take j cs) @ [(fst (cs ! j), e)]"
  using assms
proof (induction cs arbitrary: l thesis)
  case Nil
  then show ?case by simp
next
  case (Cons c cs)
  obtain call name where c: "c = (call, name)" by force
  let ?a = "le_answer env (length (lb_calls l))" and ?l = "snd (call_mspti env call l)"
  show ?case
  proof (cases "?a = 0")
    case True
    with Cons.prems(3) have rest: "checked_calls env cs ?l = (e, l')"
      by (simp add: c check_def case_prod_beta call_mspti_result)
    show ?thesis
    proof (rule Cons.IH [OF _ _ rest])
      assume "e = 0" "heard ?l l'" "lb_calls l' = lb_calls ?l @ map (\<lambda>c. (fst c, 0)) cs"
      with True heard_trans [OF heard_call] show thesis by (intro Cons.prems(1)) (simp_all add: c)
    next
      fix j k
      assume "j < length cs" "e \<noteq> 0" "heard ?l k" "l' = record_status env e (snd (cs ! j)) k"
        "lb_calls k = lb_calls ?l @ map (\<lambda>c. (fst c, 0)) (take j cs) @ [(fst (cs ! j), e)]"
      with True heard_trans [OF heard_call] show thesis
        by (intro Cons.prems(2) [of "Suc j" k]) (simp_all add: c)
    qed
  next
    case False
    with Cons.prems(3) have "e = ?a" "l' = record_status env ?a name ?l"
      by (auto simp: c check_def case_prod_beta call_mspti_result)
    with False heard_call show ?thesis by (intro Cons.prems(2) [of 0 ?l]) (simp_all add: c)
  qed
qed

subsection \<open>What the library asked msPTI to have on\<close>

text \<open>
  The five switches, and whether the last successful call about one turned it on.
\<close>

datatype switch = Domain_Switch mspti_domain | Activity_Switch activity_kind

fun switch_effect :: "mspti_call \<Rightarrow> (switch \<times> bool) option" where
  "switch_effect (Enable_Domain on d) = Some (Domain_Switch d, on)"
| "switch_effect (Activity_Enable k) = Some (Activity_Switch k, True)"
| "switch_effect (Activity_Disable k) = Some (Activity_Switch k, False)"
| "switch_effect _ = None"

definition apply_call :: "mspti_call \<times> int \<Rightarrow> (switch \<Rightarrow> bool) \<Rightarrow> switch \<Rightarrow> bool" where
  "apply_call = (\<lambda>(c, result) on. if result \<noteq> 0 then on
     else case switch_effect c of None \<Rightarrow> on | Some (sw, b) \<Rightarrow> on(sw := b))"

definition switch_on :: "(mspti_call \<times> int) list \<Rightarrow> switch \<Rightarrow> bool" where
  "switch_on calls = fold apply_call calls (\<lambda>_. False)"

definition no_switch_failed :: "(mspti_call \<times> int) list \<Rightarrow> bool" where
  "no_switch_failed calls \<longleftrightarrow> (\<forall>(c, result) \<in> set calls. switch_effect c \<noteq> None \<longrightarrow> result = 0)"

lemma no_switch_failed_append [simp]:
  "no_switch_failed (as @ bs) \<longleftrightarrow> no_switch_failed as \<and> no_switch_failed bs"
  by (simp add: no_switch_failed_def ball_Un)

lemma switch_on_neutral:
  "(\<And>x. x \<in> set cs \<Longrightarrow> switch_effect (fst x) = None) \<Longrightarrow> switch_on (as @ cs) = switch_on as"
proof -
  assume neutral: "\<And>x. x \<in> set cs \<Longrightarrow> switch_effect (fst x) = None"
  have "fold apply_call cs on = on" for on
    using neutral by (induction cs) (simp_all add: apply_call_def case_prod_beta)
  then show ?thesis by (simp add: switch_on_def)
qed

lemma no_switch_failed_neutral:
  "(\<And>x. x \<in> set cs \<Longrightarrow> switch_effect (fst x) = None) \<Longrightarrow> no_switch_failed cs"
  by (auto simp: no_switch_failed_def)

lemma switch_all:
  "switch_on (as @ map (\<lambda>c. (fst c, 0)) enable_calls) sw"
  "\<not> switch_on (as @ map (\<lambda>c. (fst c, 0)) disable_calls) sw"
proof -
  have sw: "sw \<in> {Domain_Switch Runtime_Domain, Domain_Switch Hccl_Domain, Activity_Switch Kernel_Kind,
      Activity_Switch Hccl_Kind, Activity_Switch Runtime_Api_Kind}"
  proof (cases sw)
    case (Domain_Switch d)
    then show ?thesis by (cases d) simp_all
  next
    case (Activity_Switch k)
    then show ?thesis by (cases k) simp_all
  qed
  from sw show "switch_on (as @ map (\<lambda>c. (fst c, 0)) enable_calls) sw"
    by (auto simp add: switch_on_def enable_calls_def apply_call_def)
  from sw show "\<not> switch_on (as @ map (\<lambda>c. (fst c, 0)) disable_calls) sw"
    by (auto simp add: switch_on_def disable_calls_def apply_call_def)
qed

lemma switch_call_effect:
  "c \<in> set enable_calls \<union> set disable_calls \<Longrightarrow> switch_effect (fst c) \<noteq> None"
  by (auto simp: enable_calls_def disable_calls_def)

text \<open>As long as no switching call has failed, the five switches agree with \<open>g_enabled\<close>.\<close>

definition switches_agree :: "lib \<Rightarrow> bool" where
  "switches_agree l \<longleftrightarrow> (no_switch_failed (lb_calls l) \<longrightarrow> (\<forall>sw. switch_on (lb_calls l) sw = lb_enabled l))"

lemma switches_agree_neutral:
  assumes "switches_agree l" and "lb_calls l' = lb_calls l @ cs" and "lb_enabled l' = lb_enabled l"
    and "\<And>x. x \<in> set cs \<Longrightarrow> switch_effect (fst x) = None"
  shows "switches_agree l'"
  using assms switch_on_neutral [of cs] by (simp add: switches_agree_def)

lemma set_enabled_cases:
  assumes "set_enabled_locked env b l = (e, l')"
  obtains (same) "b = lb_enabled l" "e = 0" "l' = l"
  | (ran) k0 fs k where "b \<noteq> lb_enabled l" "heard l k0" "lb_calls k0 = lb_calls l @ fs"
      "\<And>x. x \<in> set fs \<Longrightarrow> fst x = Flush_All"
      "checked_calls env (if b then enable_calls else disable_calls) k0 = (e, k)"
      "l' = (if e = 0 then record_status env 0 (if b then ''enabled'' else ''disabled'') (k\<lparr>lb_enabled := b\<rparr>) else k)"
proof (cases "b = lb_enabled l")
  case True
  with assms show thesis by (intro same) (simp_all add: set_enabled_locked_def)
next
  case False
  let ?cs = "if b then enable_calls else disable_calls"
  let ?last = "\<lambda>k. if e = 0 then record_status env 0 (if b then ''enabled'' else ''disabled'') (k\<lparr>lb_enabled := b\<rparr>) else k"
  show thesis
  proof (cases b)
    case True
    obtain e1 k where k: "checked_calls env enable_calls l = (e1, k)" by force
    with assms False True have "e1 = e" "l' = ?last k" by (auto simp: set_enabled_locked_def)
    with k True show thesis by (intro ran [OF False, of l "[]" k]) simp_all
  next
    case off: False
    let ?l = "snd (call_mspti env Flush_All l)"
    obtain e1 k where k: "checked_calls env disable_calls ?l = (e1, k)" by force
    with assms False off have "e1 = e" "l' = ?last k" by (auto simp: set_enabled_locked_def)
    with k off show thesis
      by (intro ran [OF False heard_call, of env Flush_All _ k]) (simp_all, auto)
  qed
qed

lemma set_enabled_result:
  assumes "set_enabled_locked env enabled l = (e, l')"
  shows "if e = 0 then lb_enabled l' = enabled else lb_enabled l' = lb_enabled l"
  using assms
proof (cases rule: set_enabled_cases)
  case (ran k0 fs k)
  from ran(5) have "lb_enabled k = lb_enabled k0"
    by (cases rule: checked_calls_cases) (simp_all add: heardD)
  with ran heardD(4) [OF ran(2)] show ?thesis by simp
qed simp

lemma set_enabled_frame:
  assumes "set_enabled_locked env enabled l = (e, l')"
  shows "lb_path l' = lb_path l \<and> lb_owner l' = lb_owner l \<and> lb_subscriber l' = lb_subscriber l \<and>
    length (lb_pool l') = length (lb_pool l) \<and> lb_files l' = lb_files l \<and> (lb_ring l' = None \<longleftrightarrow> lb_ring l = None)"
  using assms
proof (cases rule: set_enabled_cases)
  case (ran k0 fs k)
  let ?same = "\<lambda>l'. lb_path l' = lb_path l \<and> lb_owner l' = lb_owner l \<and> lb_subscriber l' = lb_subscriber l \<and>
    length (lb_pool l') = length (lb_pool l) \<and> lb_files l' = lb_files l \<and> (lb_ring l' = None \<longleftrightarrow> lb_ring l = None)"
  have heard: "?same k" if "heard k0 k" for k
    using heardD [OF heard_trans [OF ran(2) that]] by simp
  from ran(5) have "?same k"
    by (cases rule: checked_calls_cases) (use heard in simp_all)
  with ran(6) show ?thesis by simp
qed simp

text \<open>What a successful switch leaves on, and that a failed one is on record.\<close>

lemma checked_switches:
  assumes "checked_calls env (if b then enable_calls else disable_calls) l = (e, l')"
  shows "if e = 0 then switch_on (lb_calls l') sw = b else \<not> no_switch_failed (lb_calls l')"
  using assms
proof (cases rule: checked_calls_cases)
  case succeeded
  then show ?thesis using switch_all by simp
next
  case (failed j k)
  let ?cs = "if b then enable_calls else disable_calls"
  from failed(1) have "?cs ! j \<in> set ?cs" by (rule nth_mem)
  then have "switch_effect (fst (?cs ! j)) \<noteq> None" by (intro switch_call_effect) (simp split: if_splits)
  with failed show ?thesis by (simp add: no_switch_failed_def)
qed

lemma set_enabled_switches:
  assumes "set_enabled_locked env b l = (e, l')" and "b \<noteq> lb_enabled l"
  shows "if e = 0 then switch_on (lb_calls l') sw = b else \<not> no_switch_failed (lb_calls l')"
  using assms(1)
proof (cases rule: set_enabled_cases)
  case (ran k0 fs k)
  with checked_switches [OF ran(5)] show ?thesis by simp
qed (use assms(2) in simp)

lemma set_enabled_agree:
  assumes "set_enabled_locked env b l = (e, l')" and "switches_agree l"
  shows "switches_agree l'"
proof (cases "b = lb_enabled l")
  case True
  with assms show ?thesis by (simp add: set_enabled_locked_def)
next
  case False
  from set_enabled_switches [OF assms(1) False] set_enabled_result [OF assms(1)] show ?thesis
    by (auto simp: switches_agree_def split: if_splits)
qed

lemma heard_grows: "heard l l' \<Longrightarrow> ring_grows (\<lambda>_. True) l l'"
  by (rule ring_grows_mono [OF heardD(8)]) simp_all

lemma checked_grows:
  assumes "checked_calls env cs l = (e, l')"
  shows "ring_grows (\<lambda>_. True) l l'"
  using assms
proof (cases rule: checked_calls_cases)
  case succeeded
  then show ?thesis by (intro heard_grows)
next
  case (failed j k)
  have "ring_grows (\<lambda>_. True) l k" using failed(3) by (rule heard_grows)
  also have "ring_grows (\<lambda>_. True) k l'" unfolding failed(4) record_status_def by (rule ring_grows_record) simp
  finally show ?thesis .
qed

lemma set_enabled_grows:
  assumes "set_enabled_locked env b l = (e, l')"
  shows "ring_grows (\<lambda>_. True) l l'"
  using assms
proof (cases rule: set_enabled_cases)
  case (ran k0 fs k)
  have "ring_grows (\<lambda>_. True) l k0" using ran(2) by (rule heard_grows)
  also have "ring_grows (\<lambda>_. True) k0 k" using ran(5) by (rule checked_grows)
  also have "ring_grows (\<lambda>_. True) k l'"
  proof (cases "e = 0")
    case True
    have "ring_grows (\<lambda>_. True) (k\<lparr>lb_enabled := b\<rparr>) l'"
      using ran(6) True by (simp add: record_status_def ring_grows_record)
    moreover have "ring_grows (\<lambda>_. True) k (k\<lparr>lb_enabled := b\<rparr>)" by (simp add: ring_grows_same)
    ultimately show ?thesis by (rule ring_grows_trans [rotated])
  qed (use ran(6) in \<open>simp add: ring_grows_same\<close>)
  finally show ?thesis .
qed (simp add: ring_grows_same)

subsection \<open>Every ring is a run of the writer\<close>

definition ring_run :: "ring_shm \<Rightarrow> bool" where
  "ring_run m \<longleftrightarrow> (\<exists>m0 cs. fresh_hang_ring m0 \<and> m = fold ring_store cs m0)"

definition rings_ok :: "lib \<Rightarrow> bool" where
  "rings_ok l \<longleftrightarrow> (\<forall>m. lb_ring l = Some m \<longrightarrow> ring_run m) \<and> (\<forall>p m. dict_get (lb_files l) p = Some m \<longrightarrow> ring_run m)"

lemma fresh_dropped [simp]: "fresh_hang_ring (m\<lparr>rm_dropped := d\<rparr>) = fresh_hang_ring m"
  by (simp add: fresh_hang_ring_def ring_ok_def)

lemma ring_run_fresh: "fresh_hang_ring m \<Longrightarrow> ring_run m"
  unfolding ring_run_def by (metis fold_simps(1))

lemma ring_run_grown: "ring_run m \<Longrightarrow> ring_run ((fold ring_store cs m)\<lparr>rm_dropped := d\<rparr>)"
proof -
  assume "ring_run m"
  then obtain m0 cs0 where m: "fresh_hang_ring m0" "m = fold ring_store cs0 m0" by (auto simp: ring_run_def)
  then have "fresh_hang_ring (m0\<lparr>rm_dropped := d\<rparr>) \<and>
      (fold ring_store cs m)\<lparr>rm_dropped := d\<rparr> = fold ring_store (cs0 @ cs) (m0\<lparr>rm_dropped := d\<rparr>)" by simp
  then show ?thesis unfolding ring_run_def by blast
qed

lemma rings_ok_grows: "rings_ok l \<Longrightarrow> ring_grows P l l' \<Longrightarrow> lb_files l' = lb_files l \<Longrightarrow> rings_ok l'"
  by (auto simp: rings_ok_def ring_grows_def ring_run_grown split: option.splits)

lemma rings_ok_cleanup: "rings_ok l \<Longrightarrow> rings_ok (cleanup_map l)"
  by (auto simp: rings_ok_def cleanup_map_def py_dict split: option.splits if_splits)

subsection \<open>How a start ends\<close>

lemma heard_pool: "heard l (l\<lparr>lb_pool := pool\<rparr>) \<longleftrightarrow> length pool = length (lb_pool l)"
  by (auto simp: heard_def ring_grows_pool)

lemma heard_alloc: "alloc_buffers env is l = (r, l') \<Longrightarrow> heard l l' \<and> lb_calls l' = lb_calls l"
proof (induction env "is" l rule: alloc_buffers.induct)
  case (2 env i "is" l)
  let ?l = "others env (At_Buffer i) l"
  let ?k = "?l\<lparr>lb_pool := (lb_pool ?l)[i := \<lparr>bf_allocated = True, bf_busy = False\<rparr>]\<rparr>"
  show ?case
  proof (cases "\<not> bf_allocated (lb_pool ?l ! i) \<and> \<not> le_memory env i")
    case True
    with 2(2) have "l' = ?l" by (simp add: Let_def)
    then show ?thesis by (simp add: heard_others)
  next
    case False
    with 2(2) have "alloc_buffers env is ?k = (r, l')" by (auto simp: Let_def)
    from 2(1) [OF refl False this] have "heard ?k l'" "lb_calls l' = lb_calls l" by simp_all
    moreover have "heard ?l ?k" by (simp add: heard_pool)
    ultimately show ?thesis using heard_trans [OF heard_trans [OF heard_others]] by blast
  qed
qed simp

text \<open>The state in which the ring has just been mapped.\<close>

definition mapped_as :: "lib_env \<Rightarrow> string \<Rightarrow> ring_shm \<Rightarrow> lib \<Rightarrow> lib" where
  "mapped_as env p m l = l\<lparr>lb_ring := Some m, lb_path := p, lb_owner := le_pid env\<rparr>"

lemma mapped_as_frame [simp]:
  "lb_ring (mapped_as env p m l) = Some m" "lb_path (mapped_as env p m l) = p"
  "lb_owner (mapped_as env p m l) = le_pid env" "lb_enabled (mapped_as env p m l) = lb_enabled l"
  "lb_subscriber (mapped_as env p m l) = lb_subscriber l" "lb_pool (mapped_as env p m l) = lb_pool l"
  "lb_calls (mapped_as env p m l) = lb_calls l" "lb_files (mapped_as env p m l) = lb_files l"
  by (simp_all add: mapped_as_def)

lemma start_cases:
  assumes "hang_mspti_start env path capacity l = (e, l')"
  obtains (refused) "e \<noteq> 0 \<or> le_os env = Some 0" "l' = l"
  | (no_memory) p m k i where "path = Some p" "lb_ring l = None" "fresh_hang_ring m" "e = ENOMEM"
      "heard (mapped_as env p m l) k" "lb_calls k = lb_calls l"
      "l' = unmap env (free_buffers i (record_status env ENOMEM ''buffer_pool'' k))"
  | (not_subscribed) p m k k' where "path = Some p" "lb_ring l = None" "fresh_hang_ring m" "e \<noteq> 0"
      "heard (mapped_as env p m l) k" "lb_calls k = lb_calls l"
      "checked_calls env subscribe_calls (k\<lparr>lb_subscriber := le_handle env\<rparr>) = (e, k')"
      "l' = unmap env (unsubscribe env k')"
  | (switched) p m k k1 k2 where "path = Some p" "lb_ring l = None" "fresh_hang_ring m"
      "heard (mapped_as env p m l) k" "lb_calls k = lb_calls l"
      "checked_calls env subscribe_calls (k\<lparr>lb_subscriber := le_handle env\<rparr>) = (0, k1)"
      "set_enabled_locked env True k1 = (e, k2)"
      "l' = (if e = 0 then k2 else unmap env (unsubscribe env k2))"
proof -
  let ?p = "case path of None \<Rightarrow> [] | Some p \<Rightarrow> p"
  let ?os = "if dict_get (lb_files l) ?p \<noteq> None then Some 17 else le_os env"
  obtain rc created where create: "ring_create (lb_ring l) (path \<noteq> None) ?os (le_pid env) (le_wall_ns env)
      (le_mono_ns env) capacity = (rc, created)" by force
  show thesis
  proof (cases "rc = 0 \<and> created \<noteq> None")
    case False
    with assms create have "e = rc" "l' = l" by (auto simp: hang_mspti_start_def split: option.splits)
    moreover have "rc \<noteq> 0 \<or> le_os env = Some 0"
      using create False by (auto simp: ring_create_def split: if_splits option.splits)
    ultimately show thesis by (intro refused) simp_all
  next
    case True
    then obtain m where m: "created = Some m" "rc = 0" by auto
    from create have idle: "lb_ring l = None \<and> path \<noteq> None"
      by (rule contrapos_pp) (use True in \<open>auto simp: ring_create_def\<close>)
    then obtain p where p: "path = Some p" by blast
    from create m idle have fresh: "fresh_hang_ring m" by (blast dest: ring_create_fresh)
    obtain r k where alloc: "alloc_buffers env [0..<BUFFER_COUNT] (mapped_as env p m l) = (r, k)" by force
    from heard_alloc [OF this] have k: "heard (mapped_as env p m l) k" "lb_calls k = lb_calls l" by simp_all
    note eqs = create m p alloc [unfolded mapped_as_def]
    obtain e1 k1 where sub: "checked_calls env subscribe_calls (k\<lparr>lb_subscriber := le_handle env\<rparr>) = (e1, k1)"
      by force
    obtain e2 k2 where on: "set_enabled_locked env True k1 = (e2, k2)" by force
    note run = assms [unfolded hang_mspti_start_def Let_def]
    consider (memory) i where "r = Some i" | (subscription) "r = None" "e1 \<noteq> 0" | (switching) "r = None" "e1 = 0"
      by (cases r) auto
    then show thesis
    proof cases
      case memory
      with run eqs have "e = ENOMEM" "l' = unmap env (free_buffers i (record_status env ENOMEM ''buffer_pool'' k))"
        by simp_all
      with idle p fresh k show thesis by (intro no_memory) simp_all
    next
      case subscription
      with run eqs sub have "e = e1" "l' = unmap env (unsubscribe env k1)" by simp_all
      with subscription sub idle p fresh k show thesis by (intro not_subscribed) simp_all
    next
      case switching
      with run eqs sub on have "e = e2" "l' = (if e = 0 then k2 else unmap env (unsubscribe env k2))" by auto
      with switching sub on idle p fresh k show thesis by (intro switched) simp_all
    qed
  qed
qed

subsection \<open>Reachable states of the library\<close>

text \<open>
  The calls made of it, in any order: exported functions, with what other threads do while they run,
  and what other threads do between them.
\<close>

inductive lib_step :: "lib \<Rightarrow> lib \<Rightarrow> bool" where
  start: "hang_mspti_start env path capacity l = (e, l') \<Longrightarrow> lib_step l l'"
| flush: "hang_mspti_flush env l = (e, l') \<Longrightarrow> lib_step l l'"
| switch: "hang_mspti_set_enabled env enabled l = (e, l') \<Longrightarrow> lib_step l l'"
| stop: "lib_step l (hang_mspti_stop env l)"
| other: "lib_step l (other_step c l)"

inductive lib_reach :: "lib \<Rightarrow> bool" where
  init: "lib_reach lib_init"
| step: "lib_reach l \<Longrightarrow> lib_step l l' \<Longrightarrow> lib_reach l'"

definition lib_ok :: "lib \<Rightarrow> bool" where
  "lib_ok l \<longleftrightarrow> length (lb_pool l) = BUFFER_COUNT \<and> rings_ok l \<and> switches_agree l \<and>
     (lb_ring l = None \<longrightarrow> \<not> lb_subscriber l)"

lemma lib_okD: "lib_ok l \<Longrightarrow> rings_ok l" "lib_ok l \<Longrightarrow> switches_agree l"
  by (simp_all add: lib_ok_def)

lemma lib_ok_init: "lib_ok lib_init"
  by (simp add: lib_ok_def lib_init_def rings_ok_def switches_agree_def switch_on_def)

text \<open>A step that makes no switching call and leaves the subscription.\<close>

lemma lib_ok_heard:
  assumes "lib_ok l" and "heard l l'" and "lb_calls l' = lb_calls l @ cs"
    and "\<And>x. x \<in> set cs \<Longrightarrow> switch_effect (fst x) = None"
  shows "lib_ok l'"
  using assms(1) heardD [OF assms(2)] rings_ok_grows [OF lib_okD(1) [OF assms(1)] heardD(8,5) [OF assms(2)]]
    switches_agree_neutral [OF lib_okD(2) [OF assms(1)] assms(3) heardD(4) [OF assms(2)] assms(4)]
  by (simp add: lib_ok_def)

lemma lib_ok_others: "lib_ok l \<Longrightarrow> lib_ok (others env t l)"
  by (rule lib_ok_heard [OF _ heard_others, where cs = "[]"]) simp_all

lemma lib_ok_call: "lib_ok l \<Longrightarrow> switch_effect c = None \<Longrightarrow> lib_ok (snd (call_mspti env c l))"
  by (rule lib_ok_heard [OF _ heard_call, where cs = "[(c, le_answer env (length (lb_calls l)))]"]) auto

lemma lib_ok_status: "lib_ok l \<Longrightarrow> lib_ok (record_status env r w l)"
proof -
  assume ok: "lib_ok l"
  have "ring_grows (\<lambda>_. True) l (record_status env r w l)" by (simp add: record_status_def ring_grows_record)
  from rings_ok_grows [OF lib_okD(1) [OF ok] this] ok show ?thesis
    by (simp add: lib_ok_def switches_agree_def)
qed

lemma lib_ok_set_enabled: "set_enabled_locked env b l = (e, l') \<Longrightarrow> lib_ok l \<Longrightarrow> lib_ok l'"
  using set_enabled_agree rings_ok_grows [OF _ set_enabled_grows] set_enabled_frame
  by (fastforce simp: lib_ok_def)

lemma lib_ok_end: "lib_ok l \<Longrightarrow> lib_ok (unmap env (unsubscribe env l))"
proof -
  assume ok: "lib_ok l"
  obtain cs where cs: "lb_calls (unsubscribe env l) = lb_calls l @ cs" "\<forall>x \<in> set cs. fst x = Unsubscribe"
    using unsubscribe_calls by blast
  have "switches_agree (unmap env (unsubscribe env l))"
    by (rule switches_agree_neutral [OF lib_okD(2) [OF ok], of _ cs]) (use cs in auto)
  moreover have "rings_ok (unsubscribe env l)"
    by (rule rings_ok_grows [OF lib_okD(1) [OF ok] unsubscribe_frame(8)]) simp
  then have "rings_ok (unmap env (unsubscribe env l))"
    unfolding unmap_def by (intro rings_ok_cleanup rings_ok_grows [OF _ others_frame(8)]) simp_all
  ultimately show ?thesis using ok by (simp add: lib_ok_def)
qed

lemma lib_ok_mapped:
  assumes "lib_ok l" and "fresh_hang_ring m"
  shows "lib_ok (mapped_as env p m l)"
proof -
  have "rings_ok (mapped_as env p m l)"
    using assms by (simp add: lib_ok_def rings_ok_def ring_run_fresh)
  moreover have "switches_agree (mapped_as env p m l)"
    using assms(1) by (simp add: lib_ok_def switches_agree_def)
  ultimately show ?thesis using assms(1) by (simp add: lib_ok_def)
qed

lemma lib_ok_subscriber: "lib_ok l \<Longrightarrow> lb_ring l \<noteq> None \<Longrightarrow> lib_ok (l\<lparr>lb_subscriber := s\<rparr>)"
  by (simp add: lib_ok_def switches_agree_def rings_ok_def del: not_None_eq)

lemma lib_ok_checked:
  assumes "checked_calls env subscribe_calls l = (e, l')" and "lib_ok l"
  shows "lib_ok l'"
  using assms(1)
proof (cases rule: checked_calls_cases)
  case succeeded
  show ?thesis
    by (rule lib_ok_heard [OF assms(2) succeeded(2,3)]) (auto simp: subscribe_calls_def)
next
  case (failed j k)
  from failed(1) have "j = 0 \<or> j = 1" by (auto simp: subscribe_calls_def)
  then have "lib_ok k"
    by (intro lib_ok_heard [OF assms(2) failed(3,5)]) (auto simp: subscribe_calls_def)
  with failed(4) show ?thesis by (simp add: lib_ok_status)
qed

lemma lib_ok_start:
  assumes "hang_mspti_start env path capacity l = (e, l')" and "lib_ok l"
  shows "lib_ok l'"
proof -
  have allocated: "lib_ok k" if "fresh_hang_ring m" "heard (mapped_as env p m l) k" "lb_calls k = lb_calls l" for p m k
    by (rule lib_ok_heard [OF lib_ok_mapped [OF assms(2) that(1)] that(2), where cs = "[]"])
      (simp_all add: that(3))
  have ready: "lib_ok (k\<lparr>lb_subscriber := s\<rparr>)"
    if "fresh_hang_ring m" "heard (mapped_as env p m l) k" "lb_calls k = lb_calls l" for p m k s
    by (rule lib_ok_subscriber [OF allocated [OF that]]) (simp add: heardD(7) [OF that(2)])
  from assms(1) show ?thesis
  proof (cases rule: start_cases)
    case refused
    with assms(2) show ?thesis by simp
  next
    case (no_memory p m k i)
    let ?k = "record_status env ENOMEM ''buffer_pool'' k"
    have k: "lib_ok ?k" by (rule lib_ok_status [OF allocated [OF no_memory(3,5,6)]])
    have "lib_ok (free_buffers i ?k)"
      by (rule lib_ok_heard [OF k, where cs = "[]"]) (simp_all add: free_buffers_def heard_pool)
    moreover have "\<not> lb_subscriber (free_buffers i ?k)"
      using assms(2) no_memory(2) heardD(3) [OF no_memory(5)] by (simp add: lib_ok_def free_buffers_def)
    ultimately show ?thesis using lib_ok_end [of "free_buffers i ?k" env] no_memory(7)
      by (simp add: unsubscribe_def)
  next
    case (not_subscribed p m k k')
    have "lib_ok k'" by (rule lib_ok_checked [OF not_subscribed(7) ready [OF not_subscribed(3,5,6)]])
    with not_subscribed(8) show ?thesis by (simp add: lib_ok_end)
  next
    case (switched p m k k1 k2)
    have "lib_ok k1" by (rule lib_ok_checked [OF switched(6) ready [OF switched(3,4,5)]])
    with lib_ok_set_enabled [OF switched(7)] have "lib_ok k2" .
    with switched(8) show ?thesis by (simp add: lib_ok_end)
  qed
qed

lemma lib_ok_step: "lib_step l l' \<Longrightarrow> lib_ok l \<Longrightarrow> lib_ok l'"
proof (induction rule: lib_step.induct)
  case (start env path capacity l e l')
  then show ?case by (rule lib_ok_start)
next
  case (flush env l e l')
  have "lib_ok (snd (call_mspti env Flush_All l))" using flush(2) by (rule lib_ok_call) simp
  with flush lib_ok_status show ?case
    by (auto simp: hang_mspti_flush_def check_def case_prod_beta split: if_splits)
next
  case (switch env enabled l e l')
  then show ?case using lib_ok_set_enabled by (auto simp: hang_mspti_set_enabled_def split: if_splits)
next
  case (stop l env)
  obtain e k where k: "set_enabled_locked env False (snd (call_mspti env Flush_All l)) = (e, k)" by force
  have "lib_ok (snd (call_mspti env Flush_All l))" using stop by (rule lib_ok_call) simp
  from lib_ok_set_enabled [OF k this] stop k show ?case by (simp add: hang_mspti_stop_def lib_ok_end)
next
  case (other l c)
  then show ?case by (intro lib_ok_heard [OF other heard_other, where cs = "[]"]) simp_all
qed

lemma lib_reach_ok: "lib_reach l \<Longrightarrow> lib_ok l"
  by (induction rule: lib_reach.induct) (auto intro: lib_ok_init lib_ok_step)

end
