(* ===== verification/Hang_Mspti.thy ===== *)
theory Hang_Mspti
  imports Mspti_Lib
begin

text \<open>
  \<open>python/hang_mspti.py\<close>: the worker bootstrap that starts the C++ library and the thread that
  follows the control file. A round of the thread is one step (what other threads of the process do
  meanwhile is part of it, as \<open>le_others\<close>); \<open>_stop.wait\<close> is its end. The C library of the process is
  part of the state, and only this module and msPTI's callbacks use it.
\<close>

subsection \<open>The module\<close>

text \<open>
  The thread: not started, in its loop with the locals \<open>active\<close> and \<open>collecting\<close>, returned, or ended by
  an exception.
\<close>

datatype hang_thread = No_Thread | Looping bool bool | Returned | Died py_error

record hang_config =
  hc_directory :: path
  hc_capacity :: int
  hc_control :: "string option"

record hang_module =
  hm_lib_set :: bool
  hm_stop_set :: bool
  hm_owner_pid :: "int option"
  hm_thread :: hang_thread
  hm_error_files :: "(string, string) dict"
  hm_c :: lib

definition module_init :: hang_module where
  "module_init = \<lparr>hm_lib_set = False, hm_stop_set = False, hm_owner_pid = None,
     hm_thread = No_Thread, hm_error_files = [], hm_c = lib_init\<rparr>"

subsection \<open>The control file\<close>

text \<open>What \<open>Path.read_text\<close> yields or raises.\<close>

datatype control_read =
    Control_Text string
  | Control_Missing
  | Control_OSError string
  | Control_Undecodable string

fun control_enabled :: "control_read \<Rightarrow> py_error + bool" where
  "control_enabled (Control_Text text) = Inr (str_strip text = ''1'')"
| "control_enabled Control_Missing = Inr False"
| "control_enabled (Control_OSError m) = Inl (OSError m)"
| "control_enabled (Control_Undecodable m) = Inl (ValueError m)"

text \<open>\<open>not control_file or _enabled(control_file)\<close>.\<close>

definition wanted :: "hang_config \<Rightarrow> control_read \<Rightarrow> py_error + bool" where
  "wanted cfg r =
     (case hc_control cfg of
        None \<Rightarrow> Inr True
      | Some path \<Rightarrow> if path = [] then Inr True else control_enabled r)"

subsection \<open>Start\<close>

text \<open>
  What a call meets: the process, \<open>mkdir\<close>, loading the library (\<open>OSError\<close> or, for a missing symbol,
  \<open>AttributeError\<close>), the control file and the C library's surroundings.
\<close>

record start_env =
  sv_pid :: int
  sv_mkdir :: "os_error option"
  sv_load :: "py_error option"
  sv_control :: control_read
  sv_lib :: lib_env

definition in_process :: "int \<Rightarrow> lib_env \<Rightarrow> lib_env" where
  "in_process pid env = env\<lparr>le_pid := word_of_int pid\<rparr>"

definition ring_path :: "hang_config \<Rightarrow> int \<Rightarrow> path" where
  "ring_path cfg pid = path_child (hc_directory cfg) (''mspti-'' @ str_int pid @ ''.msflight'')"

text \<open>\<open>lib.hang_mspti_start(os.fsencode(path), capacity)\<close>; ctypes takes the capacity modulo \<open>2 ^ 64\<close>.\<close>

definition lib_start :: "hang_config \<Rightarrow> int \<Rightarrow> lib_env \<Rightarrow> lib \<Rightarrow> int \<times> lib" where
  "lib_start cfg pid env c = hang_mspti_start (in_process pid env)
     (Some (path_str (ring_path cfg pid))) (word_of_int (hc_capacity cfg)) c"

definition hang_start :: "hang_config \<Rightarrow> start_env \<Rightarrow> hang_module \<Rightarrow> (py_error + path) \<times> hang_module" where
  "hang_start cfg env m =
     (if hm_lib_set m then (Inl (RuntimeError ''already started''), m)
      else case sv_mkdir env of
        Some e \<Rightarrow> (Inl (raised e), m)
      | None \<Rightarrow>
          (case sv_load env of
             Some e \<Rightarrow> (Inl e, m)
           | None \<Rightarrow>
               (let m = m\<lparr>hm_lib_set := True, hm_owner_pid := Some (sv_pid env)\<rparr>
                in case wanted cfg (sv_control env) of
                     Inl e \<Rightarrow> (Inl e, m)
                   | Inr False \<Rightarrow> (Inr (ring_path cfg (sv_pid env)), m\<lparr>hm_thread := Looping False False\<rparr>)
                   | Inr True \<Rightarrow>
                       (case lib_start cfg (sv_pid env) (sv_lib env) (hm_c m) of
                          (result, c) \<Rightarrow>
                            if result \<noteq> 0
                            then (Inl (RuntimeError (''hang_mspti_start failed: '' @ str_int result @
                                    ''; check LD_PRELOAD=libmspti.so'')), m\<lparr>hm_lib_set := False, hm_c := c\<rparr>)
                            else (Inr (ring_path cfg (sv_pid env)),
                                  m\<lparr>hm_thread := Looping True True, hm_c := c\<rparr>)))))"

subsection \<open>The thread\<close>

record round_env =
  rv_control :: control_read
  rv_write :: "os_error option"
  rv_lib :: lib_env

text \<open>The \<open>.error\<close> file and \<open>return\<close>; an error of writing it ends the thread instead.\<close>

definition give_up :: "round_env \<Rightarrow> int \<Rightarrow> string \<Rightarrow> hang_module \<Rightarrow> hang_module" where
  "give_up env pid text m =
     (case rv_write env of
        Some e \<Rightarrow> m\<lparr>hm_thread := Died (raised e)\<rparr>
      | None \<Rightarrow> m\<lparr>hm_error_files := dict_set (''mspti-'' @ str_int pid @ ''.error'') text (hm_error_files m),
                  hm_thread := Returned\<rparr>)"

definition failed_text :: "string \<Rightarrow> int \<Rightarrow> string" where
  "failed_text what result = what @ '' failed: '' @ str_int result @ [CHR 0x0A]"

definition end_round :: "round_env \<Rightarrow> int \<Rightarrow> bool \<Rightarrow> bool \<Rightarrow> hang_module \<Rightarrow> hang_module" where
  "end_round env pid active collecting m =
     m\<lparr>hm_thread := Looping active collecting,
       hm_c := (if collecting then snd (hang_mspti_flush (in_process pid (rv_lib env)) (hm_c m)) else hm_c m)\<rparr>"

definition worker_round :: "hang_config \<Rightarrow> int \<Rightarrow> round_env \<Rightarrow> bool \<Rightarrow> bool \<Rightarrow> hang_module \<Rightarrow> hang_module" where
  "worker_round cfg pid env active collecting m =
     (if hm_stop_set m
      then m\<lparr>hm_thread := Returned,
             hm_c := (if active then hang_mspti_stop (in_process pid (rv_lib env)) (hm_c m) else hm_c m)\<rparr>
      else case wanted cfg (rv_control env) of
        Inl e \<Rightarrow> m\<lparr>hm_thread := Died e\<rparr>
      | Inr enabled \<Rightarrow>
          if enabled \<and> \<not> active
          then (case lib_start cfg pid (rv_lib env) (hm_c m) of
                  (result, c) \<Rightarrow>
                    if result \<noteq> 0
                    then give_up env pid (failed_text ''hang_mspti_start'' result) (m\<lparr>hm_c := c\<rparr>)
                    else end_round env pid True True (m\<lparr>hm_c := c\<rparr>))
          else if active \<and> enabled \<noteq> collecting
          then (case hang_mspti_set_enabled (in_process pid (rv_lib env)) (if enabled then 1 else 0) (hm_c m) of
                  (result, c) \<Rightarrow>
                    if result \<noteq> 0
                    then give_up env pid (failed_text ''hang_mspti_set_enabled'' result) (m\<lparr>hm_c := c\<rparr>)
                    else end_round env pid active enabled (m\<lparr>hm_c := c\<rparr>))
          else end_round env pid active collecting m)"

subsection \<open>Stop\<close>

text \<open>The join only waits; it gives up after two seconds.\<close>

definition hang_stop :: "int \<Rightarrow> hang_module \<Rightarrow> hang_module" where
  "hang_stop pid m = (if hm_owner_pid m \<noteq> Some pid then m else m\<lparr>hm_stop_set := True\<rparr>)"

subsection \<open>The module in one process\<close>

text \<open>A system call that fails leaves a non-zero \<open>errno\<close>.\<close>

definition os_ok :: "lib_env \<Rightarrow> bool" where
  "os_ok env \<longleftrightarrow> le_os env \<noteq> Some 0"

inductive hang_step :: "hang_config \<Rightarrow> int \<Rightarrow> hang_module \<Rightarrow> hang_module \<Rightarrow> bool" for cfg pid where
  start: "os_ok (sv_lib env) \<Longrightarrow> hang_start cfg (env\<lparr>sv_pid := pid\<rparr>) m = (r, m') \<Longrightarrow> hang_step cfg pid m m'"
| round: "os_ok (rv_lib env) \<Longrightarrow> hm_thread m = Looping active collecting \<Longrightarrow>
    hang_step cfg pid m (worker_round cfg pid env active collecting m)"
| stop: "hang_step cfg pid m (hang_stop pid m)"
| event: "hang_step cfg pid m (m\<lparr>hm_c := other_step c (hm_c m)\<rparr>)"

inductive hang_reach :: "hang_config \<Rightarrow> int \<Rightarrow> hang_module \<Rightarrow> hang_module \<Rightarrow> bool" for cfg pid m where
  here: "hang_reach cfg pid m m"
| step: "hang_reach cfg pid m m' \<Longrightarrow> hang_step cfg pid m' m'' \<Longrightarrow> hang_reach cfg pid m m''"

subsection \<open>The library under the module\<close>

definition mapped :: "lib \<Rightarrow> bool" where
  "mapped c \<longleftrightarrow> lb_ring c \<noteq> None"

lemma mapped_frame [simp]:
  "mapped (record_status env e w l) = mapped l" "mapped (other_step c l) = mapped l"
  "mapped (unsubscribe env l) = mapped l" "mapped (snd (call_mspti env call l)) = mapped l"
  "\<not> mapped (unmap env l)" "mapped (mapped_as env p r l)"
  by (simp_all add: mapped_def del: not_None_eq)

lemma heard_mapped: "heard l l' \<Longrightarrow> mapped l' = mapped l"
  using heardD(7) by (simp add: mapped_def del: not_None_eq)

lemma set_enabled_mapped: "set_enabled_locked env b l = (e, l') \<Longrightarrow> mapped l' = mapped l"
  using set_enabled_frame by (simp add: mapped_def del: not_None_eq)

lemma checked_frame:
  assumes "checked_calls env cs l = (e, l')"
  shows "lb_enabled l' = lb_enabled l \<and> lb_owner l' = lb_owner l \<and> lb_path l' = lb_path l \<and>
    lb_files l' = lb_files l \<and> mapped l' = mapped l"
  using assms
proof (cases rule: checked_calls_cases)
  case succeeded
  then show ?thesis by (simp add: heardD heard_mapped)
next
  case (failed j k)
  then show ?thesis using heardD [OF failed(3)] heard_mapped [OF failed(3)] by simp
qed

text \<open>
  A start that succeeds leaves the ring mapped and the library enabled; if the library was not enabled
  before, all five switches are on. A start that fails leaves no mapping.
\<close>

lemma start_outcome:
  assumes "hang_mspti_start env path capacity l = (e, l')" and "os_ok env" and "\<not> mapped l"
  shows "if e = 0 then lb_enabled l' \<and> mapped l' \<and> lb_owner l' = le_pid env \<and>
      (\<not> lb_enabled l \<longrightarrow> (\<forall>sw. switch_on (lb_calls l') sw))
    else lb_enabled l' = lb_enabled l \<and> \<not> mapped l'"
  using assms(1)
proof (cases rule: start_cases)
  case refused
  with assms(2,3) show ?thesis by (simp add: os_ok_def)
next
  case (no_memory p m k i)
  with heardD [OF no_memory(5)] show ?thesis by (simp add: ENOMEM_def free_buffers_def)
next
  case (not_subscribed p m k k')
  from checked_frame [OF not_subscribed(7)] heardD [OF not_subscribed(5)] not_subscribed(4,8)
  show ?thesis by simp
next
  case (switched p m k k1 k2)
  from checked_frame [OF switched(6)] heardD [OF switched(4)] heard_mapped [OF switched(4)]
  have k1: "lb_enabled k1 = lb_enabled l" "lb_owner k1 = le_pid env" "mapped k1"
    by (simp_all add: mapped_def)
  from set_enabled_result [OF switched(7)] set_enabled_frame [OF switched(7)]
    set_enabled_mapped [OF switched(7)] set_enabled_switches [OF switched(7)] k1 switched(8)
  show ?thesis by (auto split: if_splits)
qed

lemma flush_frame [simp]:
  "lb_enabled (snd (hang_mspti_flush env l)) = lb_enabled l"
  "lb_owner (snd (hang_mspti_flush env l)) = lb_owner l" "lb_path (snd (hang_mspti_flush env l)) = lb_path l"
  "mapped (snd (hang_mspti_flush env l)) = mapped l"
  by (simp_all add: hang_mspti_flush_def check_def case_prod_beta)

lemma flush_switches [simp]: "switch_on (lb_calls (snd (hang_mspti_flush env l))) = switch_on (lb_calls l)"
  using switch_on_neutral [of "[(Flush_All, le_answer env (length (lb_calls l)))]" "lb_calls l"]
  by (simp add: hang_mspti_flush_def check_def case_prod_beta)

lemma lib_reach_start: "lib_reach c \<Longrightarrow> lib_reach (snd (hang_mspti_start env path capacity c))"
  by (rule lib_reach.step [OF _ lib_step.start [of env path capacity c "fst (hang_mspti_start env path capacity c)"]])
    simp_all

lemma lib_reach_set: "lib_reach c \<Longrightarrow> lib_reach (snd (hang_mspti_set_enabled env b c))"
  by (rule lib_reach.step [OF _ lib_step.switch [of env b c "fst (hang_mspti_set_enabled env b c)"]]) simp_all

lemma lib_reach_flush: "lib_reach c \<Longrightarrow> lib_reach (snd (hang_mspti_flush env c))"
  by (rule lib_reach.step [OF _ lib_step.flush [of env c "fst (hang_mspti_flush env c)"]]) simp_all

lemma lib_reach_stop: "lib_reach c \<Longrightarrow> lib_reach (hang_mspti_stop env c)"
  by (rule lib_reach.step [OF _ lib_step.stop])

lemma give_up_c [simp]: "hm_c (give_up env pid text m) = hm_c m"
  by (simp add: give_up_def split: option.split)

lemma end_round_reach: "lib_reach (hm_c m) \<Longrightarrow> lib_reach (hm_c (end_round env pid a c m))"
  by (simp add: end_round_def lib_reach_flush)

lemma worker_round_reach:
  assumes "lib_reach (hm_c m)"
  shows "lib_reach (hm_c (worker_round cfg pid env a c m))"
proof -
  have begun: "lib_reach (snd (lib_start cfg pid (rv_lib env) (hm_c m)))"
    using lib_reach_start [OF assms] by (simp add: lib_start_def)
  have "lib_reach (snd (hang_mspti_set_enabled e b (hm_c m)))" for e b
    using lib_reach_set [OF assms] by simp
  with begun assms show ?thesis
    by (simp add: worker_round_def end_round_reach lib_reach_stop case_prod_beta split: sum.split)
qed

lemma hang_start_c:
  "hang_start cfg env m = (r, m') \<Longrightarrow> hm_c m' = hm_c m \<or> hm_c m' = snd (lib_start cfg (sv_pid env) (sv_lib env) (hm_c m))"
  by (auto simp: hang_start_def Let_def case_prod_beta split: if_splits option.splits sum.splits bool.splits)

lemma hang_start_reach:
  assumes "hang_start cfg env m = (r, m')" and "lib_reach (hm_c m)"
  shows "lib_reach (hm_c m')"
  using hang_start_c [OF assms(1)] assms(2) lib_reach_start [OF assms(2)] by (auto simp: lib_start_def)

subsection \<open>The thread and the library agree\<close>

definition thread_ok :: "int \<Rightarrow> hang_module \<Rightarrow> bool" where
  "thread_ok pid m \<longleftrightarrow> (case hm_thread m of
       No_Thread \<Rightarrow> \<not> mapped (hm_c m) \<and> \<not> lb_enabled (hm_c m)
     | Looping active collecting \<Rightarrow> hm_lib_set m \<and> (active \<longleftrightarrow> mapped (hm_c m)) \<and>
         (active \<longrightarrow> lb_owner (hm_c m) = word_of_int pid) \<and> collecting = lb_enabled (hm_c m) \<and>
         (collecting \<longrightarrow> active) \<and> (active \<longrightarrow> (\<forall>sw. switch_on (lb_calls (hm_c m)) sw = collecting))
     | _ \<Rightarrow> hm_lib_set m)"

lemma end_round_ok:
  assumes "hm_lib_set m" and "a \<longleftrightarrow> mapped (hm_c m)" and "a \<longrightarrow> lb_owner (hm_c m) = word_of_int pid"
    and "c = lb_enabled (hm_c m)" and "c \<longrightarrow> a" and "a \<longrightarrow> (\<forall>sw. switch_on (lb_calls (hm_c m)) sw = c)"
  shows "thread_ok pid (end_round env pid a c m)"
  using assms by (auto simp: thread_ok_def end_round_def)

lemma give_up_ok: "hm_lib_set m \<Longrightarrow> thread_ok pid (give_up env pid text m)"
  by (simp add: thread_ok_def give_up_def split: option.split)

lemma worker_round_ok:
  assumes "os_ok (rv_lib env)" and "hm_thread m = Looping a c" and "thread_ok pid m"
  shows "thread_ok pid (worker_round cfg pid env a c m)"
proof -
  have t: "hm_lib_set m" "a \<longleftrightarrow> mapped (hm_c m)" "a \<longrightarrow> lb_owner (hm_c m) = word_of_int pid"
    "c = lb_enabled (hm_c m)" "c \<longrightarrow> a" "a \<longrightarrow> (\<forall>sw. switch_on (lb_calls (hm_c m)) sw = c)"
    using assms(2,3) by (auto simp: thread_ok_def)
  show ?thesis
  proof (cases "hm_stop_set m")
    case True
    with t(1) show ?thesis by (simp add: worker_round_def thread_ok_def)
  next
    case run: False
    show ?thesis
    proof (cases "wanted cfg (rv_control env)")
      case (Inl e)
      with t(1) run show ?thesis by (simp add: worker_round_def thread_ok_def)
    next
      case (Inr enabled)
      consider (first) "enabled" "\<not> a" | (switch) "a" "enabled \<noteq> c"
        | (same) "\<not> (enabled \<and> \<not> a)" "\<not> (a \<and> enabled \<noteq> c)" by blast
      then show ?thesis
      proof cases
        case first
        obtain e l where l: "lib_start cfg pid (rv_lib env) (hm_c m) = (e, l)" by force
        have "os_ok (in_process pid (rv_lib env))" using assms(1) by (simp add: os_ok_def in_process_def)
        from start_outcome [OF l [unfolded lib_start_def] this] first t
        have "if e = 0 then lb_enabled l \<and> mapped l \<and> lb_owner l = word_of_int pid \<and>
            (\<forall>sw. switch_on (lb_calls l) sw) else True"
          by (auto simp: in_process_def split: if_splits)
        with first l run Inr t(1) show ?thesis
          by (auto simp: worker_round_def intro: give_up_ok end_round_ok)
      next
        case switch
        obtain e l where l: "hang_mspti_set_enabled (in_process pid (rv_lib env)) (if enabled then 1 else 0) (hm_c m) = (e, l)"
          by force
        have "\<not> not_ours (in_process pid (rv_lib env)) (hm_c m)"
          using switch t by (simp add: not_ours_def in_process_def mapped_def)
        with l have set: "set_enabled_locked (in_process pid (rv_lib env)) enabled (hm_c m) = (e, l)"
          by (cases enabled) (simp_all add: hang_mspti_set_enabled_def)
        moreover have "if e = 0 then \<forall>sw. switch_on (lb_calls l) sw = enabled else True"
          using set_enabled_switches [OF set] switch(2) t(4) by auto
        ultimately show ?thesis
          using set_enabled_result [OF set] set_enabled_frame [OF set] set_enabled_mapped [OF set] switch l run Inr t
          by (simp add: worker_round_def give_up_ok end_round_ok)
      next
        case same
        have "worker_round cfg pid env a c m = end_round env pid a c m"
          unfolding worker_round_def using run Inr same by (simp only: sum.case if_False)
        with end_round_ok [OF t] show ?thesis by simp
      qed
    qed
  qed
qed

lemma hang_start_ok:
  assumes "hang_start cfg env m = (r, m')" and "os_ok (sv_lib env)" and "thread_ok (sv_pid env) m"
    and "\<not> hm_lib_set m \<longrightarrow> hm_thread m = No_Thread"
  shows "thread_ok (sv_pid env) m'"
proof (cases "hm_lib_set m \<or> sv_mkdir env \<noteq> None \<or> sv_load env \<noteq> None")
  case True
  with assms(1,3) show ?thesis by (auto simp: hang_start_def split: option.splits if_splits)
next
  case False
  with assms(3,4) have none: "hm_thread m = No_Thread" "\<not> mapped (hm_c m)" "\<not> lb_enabled (hm_c m)"
    by (simp_all add: thread_ok_def)
  show ?thesis
  proof (cases "wanted cfg (sv_control env) = Inr True")
    case False': False
    with False assms(1) none show ?thesis
      by (auto simp: hang_start_def thread_ok_def Let_def split: sum.splits bool.splits)
  next
    case True
    obtain e l where l: "lib_start cfg (sv_pid env) (sv_lib env) (hm_c m) = (e, l)" by force
    have "os_ok (in_process (sv_pid env) (sv_lib env))" using assms(2) by (simp add: os_ok_def in_process_def)
    from start_outcome [OF l [unfolded lib_start_def] this none(2)]
    have out: "if e = 0 then lb_enabled l \<and> mapped l \<and> lb_owner l = word_of_int (sv_pid env) \<and>
        (\<forall>sw. switch_on (lb_calls l) sw)
        else \<not> lb_enabled l \<and> \<not> mapped l"
      using none(3) by (auto simp: in_process_def split: if_splits)
    from False True l assms(1) have "m' = (if e \<noteq> 0
        then m\<lparr>hm_lib_set := False, hm_owner_pid := Some (sv_pid env), hm_c := l\<rparr>
        else m\<lparr>hm_lib_set := True, hm_owner_pid := Some (sv_pid env), hm_thread := Looping True True, hm_c := l\<rparr>)"
      by (auto simp: hang_start_def Let_def)
    with out none show ?thesis by (simp add: thread_ok_def split: if_splits)
  qed
qed

definition module_ok :: "int \<Rightarrow> hang_module \<Rightarrow> bool" where
  "module_ok pid m \<longleftrightarrow> lib_reach (hm_c m) \<and> thread_ok pid m \<and> (\<not> hm_lib_set m \<longrightarrow> hm_thread m = No_Thread)"

lemma worker_round_lib_set [simp]: "hm_lib_set (worker_round cfg pid env a c m) = hm_lib_set m"
  by (simp add: worker_round_def end_round_def give_up_def split: sum.split prod.split option.split)

lemma module_ok_step: "hang_step cfg pid m m' \<Longrightarrow> module_ok pid m \<Longrightarrow> module_ok pid m'"
proof (induction rule: hang_step.induct)
  case (start env m r m')
  have "hm_thread m' = No_Thread" if "\<not> hm_lib_set m'"
    using start(2,3) that
    by (auto simp: hang_start_def module_ok_def Let_def split: if_splits option.splits sum.splits bool.splits prod.splits)
  moreover have "thread_ok pid m'" using hang_start_ok [OF start(2)] start(1,3) by (simp add: module_ok_def)
  ultimately show ?case using hang_start_reach [OF start(2)] start(3) by (simp add: module_ok_def)
next
  case (round env m active collecting)
  then have "hm_lib_set m" by (auto simp: module_ok_def)
  with round worker_round_ok worker_round_reach show ?case by (simp add: module_ok_def)
next
  case (stop m)
  then show ?case by (cases "hm_thread m") (simp_all add: module_ok_def hang_stop_def thread_ok_def)
next
  case (event m c)
  have "lib_reach (other_step c (hm_c m))"
    using event lib_reach.step [OF _ lib_step.other] by (auto simp: module_ok_def)
  moreover have "thread_ok pid (m\<lparr>hm_c := other_step c (hm_c m)\<rparr>)"
    using event by (simp add: module_ok_def thread_ok_def split: hang_thread.splits)
  ultimately show ?case using event by (simp add: module_ok_def)
qed

lemma module_ok_init: "module_ok pid module_init"
  by (simp add: module_ok_def thread_ok_def module_init_def lib_reach.init) (simp add: lib_init_def mapped_def)

lemma hang_reach_ok: "hang_reach cfg pid m m' \<Longrightarrow> module_ok pid m \<Longrightarrow> module_ok pid m'"
  by (induction rule: hang_reach.induct) (auto intro: module_ok_step)

end
