(* ===== verification/Hang_Properties.thy ===== *)
theory Hang_Properties
  imports Hang_Mspti
begin

text \<open>
  What the recorder of msPTI callbacks promises: the evidence a failed start leaves behind, the
  agreement of thread, library and msPTI's switches, how the control file is followed, and what an
  orderly and a disorderly end leave.
\<close>

subsection \<open>Rings that only grow\<close>

lemma ring_grows_ringE:
  assumes "ring_grows P l l'" and "lb_ring l = Some r"
  obtains cs d where "\<And>c. c \<in> set cs \<Longrightarrow> P c" "lb_ring l' = Some ((fold ring_store cs r)\<lparr>rm_dropped := d\<rparr>)"
  using assms by (auto simp: ring_grows_def)

lemma unmap_keeps:
  assumes "ring_grows P l x" and "lb_ring l = Some r" and "\<And>c. no_status c \<Longrightarrow> P c"
  obtains cs d where "\<And>c. c \<in> set cs \<Longrightarrow> P c"
    "dict_get (lb_files (unmap env x)) (lb_path x) = Some ((fold ring_store cs r)\<lparr>rm_dropped := d\<rparr>)"
proof -
  have "ring_grows P x (others env Before_Unmap x)" using others_frame(8) assms(3) by (rule ring_grows_mono)
  from ring_grows_ringE [OF ring_grows_trans [OF assms(1) this] assms(2)] obtain cs d
    where cs: "\<And>c. c \<in> set cs \<Longrightarrow> P c"
    "lb_ring (others env Before_Unmap x) = Some ((fold ring_store cs r)\<lparr>rm_dropped := d\<rparr>)"
    by blast
  then show thesis by (intro that [of cs d]) (simp_all add: unmap_def cleanup_map_def py_dict)
qed

lemma ring_grows_flush: "ring_grows (\<lambda>_. True) l (snd (hang_mspti_flush env l))"
proof -
  let ?k = "snd (call_mspti env Flush_All l)" and ?e = "le_answer env (length (lb_calls l))"
  have call: "ring_grows (\<lambda>_. True) l ?k" by (rule heard_grows [OF heard_call])
  also have "ring_grows (\<lambda>_. True) ?k (record_status env ?e ''flush'' ?k)"
    by (simp add: record_status_def ring_grows_record)
  finally have "ring_grows (\<lambda>_. True) l (record_status env ?e ''flush'' ?k)" .
  with call show ?thesis
    by (simp add: hang_mspti_flush_def check_def case_prod_beta call_mspti_result ring_grows_same)
qed

text \<open>What the reader makes of a fresh ring after some records and some dropped buffers.\<close>

lemma read_grown:
  assumes "fresh_hang_ring m" and "length cs < 2 ^ 64"
  obtains h where "read_ring utf8 (Inr (\<lambda>s k. ring_image ((fold ring_store cs m)\<lparr>rm_dropped := d\<rparr>))) =
    Inr (h, take_last (length (rm_cells m)) (ring_history utf8 m cs))"
proof -
  have "ring_history utf8 (m\<lparr>rm_dropped := d\<rparr>) cs = ring_history utf8 m cs"
    by (simp add: ring_history_def stamped_cell_def)
  with read_ring_run [of "m\<lparr>rm_dropped := d\<rparr>" cs utf8] assms that show thesis by simp
qed

lemma status_label: "re_kind (cell_event utf8 (stamped_cell m c s)) = ''status'' \<longleftrightarrow> ra_kind c = HANG_STATUS"
proof -
  have "uint (ra_kind c) = 7 \<longleftrightarrow> ra_kind c = HANG_STATUS"
    by (simp add: HANG_STATUS_def word_uint_eq_iff)
  then show ?thesis
    by (auto simp: cell_event_def stamped_cell_def LABELS_def split: option.split)
qed

subsection \<open>A start that fails\<close>

definition start_calls :: "(mspti_call \<times> string) list" where
  "start_calls = subscribe_calls @ enable_calls"

lemma names_fit:
  "what \<in> insert ''buffer_pool'' (snd ` set start_calls) \<Longrightarrow> visible_name (Some (c_string what)) = c_string what"
proof -
  have "\<forall>what \<in> set (''buffer_pool'' # map snd start_calls). visible_name (Some (c_string what)) = c_string what"
    by code_simp
  then show "what \<in> insert ''buffer_pool'' (snd ` set start_calls) \<Longrightarrow> ?thesis" by auto
qed

text \<open>
  Where a start that created the ring and failed has made its record; from there to the end of the
  mapping only other threads write.
\<close>

definition status_of :: "int \<Rightarrow> string \<Rightarrow> ring_call \<Rightarrow> bool" where
  "status_of e what c \<longleftrightarrow> ra_kind c = HANG_STATUS \<and> ra_code c = word_of_int e \<and> ra_name c = Some (c_string what)"

lemma status_stored:
  assumes "lb_ring k = Some r" and "lb_owner k = le_pid env"
  obtains c where "status_of e what c" "lb_ring (record_status env e what k) = Some (ring_store c r)"
proof -
  let ?c = "(record_args HANG_STATUS UINT32_MAX UINT32_MAX 0 0 0 (word_of_int e) (Some (c_string what)) None)
    \<lparr>ra_now := le_now env (written k), ra_tid := le_tid env\<rparr>"
  show thesis
    by (rule that [of ?c]) (use assms in \<open>simp_all add: status_of_def record_args_def record_status_def
      lib_record_def ring_record_def\<close>)
qed

lemma failed_start_cases:
  assumes "hang_mspti_start env (Some p) capacity l = (e, l')" and "e \<noteq> 0" and "l' \<noteq> l"
  obtains m k what x where "fresh_hang_ring m" "ring_grows no_status (mapped_as env p m l) k"
    "lb_owner k = le_pid env" "ring_grows no_status (record_status env e what k) x" "lb_path x = p" "l' = unmap env x"
    "what = ''buffer_pool'' \<and> e = ENOMEM \<or> (\<exists>c. (c, what) \<in> set start_calls \<and> (c, e) \<in> set (lb_calls l'))"
  using assms(1)
proof (cases rule: start_cases)
  case refused
  with assms(3) show thesis by simp
next
  case (no_memory q m k i)
  with heardD [OF no_memory(5)] show thesis
    by (intro that [of m k "''buffer_pool''" "free_buffers i (record_status env ENOMEM ''buffer_pool'' k)"])
      (simp_all add: free_buffers_def ring_grows_pool)
next
  case (not_subscribed q m k k')
  from not_subscribed(7) show thesis
  proof (cases rule: checked_calls_cases)
    case succeeded
    with not_subscribed show thesis by simp
  next
    case (failed j k1)
    have "subscribe_calls ! j \<in> set subscribe_calls" using failed(1) by (rule nth_mem)
    then have "(fst (subscribe_calls ! j), snd (subscribe_calls ! j)) \<in> set start_calls"
      by (simp add: start_calls_def)
    moreover have "(fst (subscribe_calls ! j), e) \<in> set (lb_calls l')"
      using failed(4,5) not_subscribed(8) unsubscribe_calls [of env k'] by auto
    moreover have "ring_grows no_status k k1" using heardD(8) [OF failed(3)] by (simp add: ring_grows_def)
    ultimately show thesis
      using failed(4) not_subscribed(1,3,8) heardD [OF not_subscribed(5)] heardD [OF failed(3)]
      by (intro that [of m k1 "snd (subscribe_calls ! j)" "unsubscribe env k'"])
        (auto intro: ring_grows_trans)
  qed
next
  case (switched q m k k1 k2)
  have run: "checked_calls env enable_calls k1 = (e, k2)"
    using switched(7) assms(2) by (auto simp: set_enabled_locked_def split: if_splits prod.splits)
  have "ring_grows no_status k k1"
    using switched(6) by (cases rule: checked_calls_cases) (auto dest: heardD(8) simp: ring_grows_def)
  moreover have "lb_owner k1 = lb_owner k" "lb_path k1 = lb_path k" using checked_frame [OF switched(6)] by simp_all
  ultimately have k1: "ring_grows no_status (mapped_as env p m l) k1" "lb_owner k1 = le_pid env" "lb_path k1 = p"
    using heardD [OF switched(4)] switched(1) by (auto intro: ring_grows_trans)
  from run show thesis
  proof (cases rule: checked_calls_cases)
    case succeeded
    with assms(2) show thesis by simp
  next
    case (failed j k3)
    have "enable_calls ! j \<in> set enable_calls" using failed(1) by (rule nth_mem)
    then have "(fst (enable_calls ! j), snd (enable_calls ! j)) \<in> set start_calls" by (simp add: start_calls_def)
    moreover have "(fst (enable_calls ! j), e) \<in> set (lb_calls l')"
      using failed(4,5) switched(8) assms(2) unsubscribe_calls [of env k2] by auto
    ultimately show thesis
      using failed(4) switched(3,8) assms(2) k1 heardD [OF failed(3)]
      by (intro that [of m k3 "snd (enable_calls ! j)" "unsubscribe env k2"])
        (auto intro: ring_grows_trans)
  qed
qed

text \<open>One status record among records of other kinds, as the reader shows it.\<close>

lemma single_status:
  assumes "fresh_hang_ring m" and "status_of e what c" and "\<And>r. r \<in> set (before @ after) \<Longrightarrow> no_status r"
    and "length after < length (rm_cells m)" and "visible_name (Some (c_string what)) = c_string what"
  obtains ev where "filter (\<lambda>ev. re_kind ev = ''status'')
      (take_last (length (rm_cells m)) (ring_history utf8 m (before @ c # after))) = [ev]"
    "re_code ev = e mod 2 ^ 32" "re_name ev = utf8 (c_string what)"
proof -
  let ?ev = "cell_event utf8 (stamped_cell m c (Suc (length before)))"
  let ?before = "map (\<lambda>i. cell_event utf8 (stamped_cell m (before ! i) (Suc i))) [0..<length before]"
  let ?after = "map (\<lambda>i. cell_event utf8 (stamped_cell m (after ! i) (Suc (Suc (length before + i))))) [0..<length after]"
  let ?n = "Suc (length before + length after)"
  have "ring_history utf8 m (before @ c # after) = ?before @ ?ev # ?after"
    by (rule nth_equalityI) (auto simp: ring_history_def nth_append nth_Cons' not_less
        simp del: upt_Suc)
  then have "take_last (length (rm_cells m)) (ring_history utf8 m (before @ c # after)) =
      drop (?n - length (rm_cells m)) ?before @ ?ev # ?after"
    using assms(4) by (simp add: take_last_def)
  moreover have "filter (\<lambda>ev. re_kind ev = ''status'') (drop k ?before) = []" for k
    using assms(3) by (auto simp: filter_empty_conv status_label no_status_def dest!: in_set_dropD)
  moreover have "filter (\<lambda>ev. re_kind ev = ''status'') ?after = []"
    using assms(3) by (auto simp: filter_empty_conv status_label no_status_def)
  moreover have "re_kind ?ev = ''status''" using assms(2) by (simp add: status_label status_of_def)
  ultimately have "filter (\<lambda>ev. re_kind ev = ''status'')
      (take_last (length (rm_cells m)) (ring_history utf8 m (before @ c # after))) = [?ev]" by simp
  moreover have "re_code ?ev = e mod 2 ^ 32" "re_name ?ev = utf8 (c_string what)"
    using assms(2,5) by (simp_all add: cell_event_def stamped_cell_def status_of_def unsigned_of_int take_bit_eq_mod)
  ultimately show thesis using that by blast
qed

text \<open>C30: A start that fails after the ring file was created (for lack of memory or because msPTI refused one
  of the seven calls), whatever other threads do meanwhile, leaves a file whose ring holds one status
  record with the error code and the name of the call that failed; every other record of it comes from
  a callback or an activity buffer of another thread. A reader finds that status record and no other,
  as long as fewer records than the ring's capacity came after it. The ring is unmapped again, and
  because the file stays, every later start with the same path fails as well.\<close>

theorem failed_start_evidence:
  assumes "hang_mspti_start env (Some p) capacity l = (e, l')" and "e \<noteq> 0" and "l' \<noteq> l"
  shows "(\<exists>m before c after d what. fresh_hang_ring m \<and>
      dict_get (lb_files l') p = Some ((fold ring_store (before @ c # after) m)\<lparr>rm_dropped := d\<rparr>) \<and>
      ra_kind c = HANG_STATUS \<and> (\<forall>r \<in> set (before @ after). ra_kind r \<noteq> HANG_STATUS) \<and>
      (what = ''buffer_pool'' \<and> e = ENOMEM \<or>
       (\<exists>c. (c, what) \<in> set start_calls \<and> (c, e) \<in> set (lb_calls l'))) \<and>
      (length after < length (rm_cells m) \<and> length (before @ c # after) < 2 ^ 64 \<longrightarrow>
        (\<exists>h evs ev. read_ring utf8 (Inr (\<lambda>s k. ring_image
            ((fold ring_store (before @ c # after) m)\<lparr>rm_dropped := d\<rparr>))) = Inr (h, evs) \<and>
          filter (\<lambda>ev. re_kind ev = ''status'') evs = [ev] \<and>
          re_code ev = e mod 2 ^ 32 \<and> re_name ev = utf8 (c_string what)))) \<and>
    lb_ring l' = None \<and>
    (\<forall>env' capacity'. fst (hang_mspti_start env' (Some p) capacity' l') \<noteq> 0 \<and>
       snd (hang_mspti_start env' (Some p) capacity' l') = l')"
proof -
  from assms obtain m k what x where k: "fresh_hang_ring m" "ring_grows no_status (mapped_as env p m l) k"
    "lb_owner k = le_pid env" "ring_grows no_status (record_status env e what k) x" "lb_path x = p" "l' = unmap env x"
    and what: "what = ''buffer_pool'' \<and> e = ENOMEM \<or> (\<exists>c. (c, what) \<in> set start_calls \<and> (c, e) \<in> set (lb_calls l'))"
    by (rule failed_start_cases)
  obtain before d0 where before: "\<And>r. r \<in> set before \<Longrightarrow> no_status r"
    "lb_ring k = Some ((fold ring_store before m)\<lparr>rm_dropped := d0\<rparr>)"
    using ring_grows_ringE [OF k(2), of m] by (metis mapped_as_frame(1))
  obtain c where c: "status_of e what c"
    "lb_ring (record_status env e what k) = Some (ring_store c ((fold ring_store before m)\<lparr>rm_dropped := d0\<rparr>))"
    by (rule status_stored [OF before(2) k(3)])
  obtain after d where after: "\<And>r. r \<in> set after \<Longrightarrow> no_status r"
    "dict_get (lb_files (unmap env x)) (lb_path x) =
      Some ((fold ring_store after (ring_store c ((fold ring_store before m)\<lparr>rm_dropped := d0\<rparr>)))\<lparr>rm_dropped := d\<rparr>)"
    using unmap_keeps [OF k(4) c(2), of env] by blast
  let ?m = "(fold ring_store (before @ c # after) m)\<lparr>rm_dropped := d\<rparr>"
  have stored: "dict_get (lb_files l') p = Some ?m" "lb_ring l' = None" using after(2) k(5,6) by simp_all
  have others: "no_status r" if "r \<in> set (before @ after)" for r using that before(1) after(1) by auto
  have name: "visible_name (Some (c_string what)) = c_string what" by (rule names_fit) (use what in force)
  have reads: "\<exists>h evs ev. read_ring utf8 (Inr (\<lambda>s k. ring_image ?m)) = Inr (h, evs) \<and>
      filter (\<lambda>ev. re_kind ev = ''status'') evs = [ev] \<and>
      re_code ev = e mod 2 ^ 32 \<and> re_name ev = utf8 (c_string what)"
    if short: "length after < length (rm_cells m)" "length (before @ c # after) < 2 ^ 64"
  proof -
    obtain h where "read_ring utf8 (Inr (\<lambda>s k. ring_image ?m)) =
        Inr (h, take_last (length (rm_cells m)) (ring_history utf8 m (before @ c # after)))"
      by (rule read_grown [OF k(1) short(2)])
    moreover obtain ev where "filter (\<lambda>ev. re_kind ev = ''status'')
        (take_last (length (rm_cells m)) (ring_history utf8 m (before @ c # after))) = [ev]"
      "re_code ev = e mod 2 ^ 32" "re_name ev = utf8 (c_string what)"
      by (rule single_status [OF k(1) c(1) others short(1) name])
    ultimately show ?thesis by blast
  qed
  have "fst (hang_mspti_start env' (Some p) capacity' l') \<noteq> 0 \<and>
      snd (hang_mspti_start env' (Some p) capacity' l') = l'" for env' capacity'
    using stored by (simp add: hang_mspti_start_def ring_create_def)
  moreover have "ra_kind c = HANG_STATUS" "\<forall>r \<in> set (before @ after). ra_kind r \<noteq> HANG_STATUS"
    using c(1) others by (auto simp: status_of_def no_status_def)
  ultimately show ?thesis using k(1) stored what reads by blast
qed

subsection \<open>Thread, library and msPTI\<close>

text \<open>C28: In every reachable state of a process that uses the module: before the thread exists, nothing is
  mapped or enabled. While it is in its loop, it regards the library as active exactly when the ring is
  mapped and as collecting exactly when the library is enabled, and while it is active, all five msPTI
  switches (two callback domains, three activity kinds) were last switched on if it is collecting and
  off if it is not, whatever calls failed before. Once it ended, no further start is possible. In all
  states together, also after the thread ended, the five switches agree with the library's flag as long
  as no switching call has failed.\<close>

theorem thread_in_step:
  assumes "hang_reach cfg pid module_init m"
  shows "(case hm_thread m of
       No_Thread \<Rightarrow> lb_ring (hm_c m) = None \<and> \<not> lb_enabled (hm_c m)
     | Looping active collecting \<Rightarrow> active = (lb_ring (hm_c m) \<noteq> None) \<and> collecting = lb_enabled (hm_c m) \<and>
         (collecting \<longrightarrow> active) \<and> (active \<longrightarrow> (\<forall>sw. switch_on (lb_calls (hm_c m)) sw = collecting))
     | _ \<Rightarrow> hm_lib_set m) \<and>
    (no_switch_failed (lb_calls (hm_c m)) \<longrightarrow> (\<forall>sw. switch_on (lb_calls (hm_c m)) sw = lb_enabled (hm_c m)))"
proof -
  have ok: "module_ok pid m" using hang_reach_ok [OF assms module_ok_init] .
  then have "switches_agree (hm_c m)" by (simp add: module_ok_def lib_okD lib_reach_ok)
  moreover have "thread_ok pid m" using ok by (simp add: module_ok_def)
  ultimately show ?thesis
    by (auto simp: switches_agree_def thread_ok_def mapped_def split: hang_thread.splits)
qed

lemma ring_grows_end_round: "ring_grows (\<lambda>_. True) (hm_c m) (hm_c (end_round env pid a c m))"
  by (simp add: end_round_def ring_grows_flush ring_grows_same)

text \<open>C29: A round of the thread that reads the control file either follows it (afterwards the thread
  collects exactly if the file says so) or ends the thread, with an \<open>.error\<close> file that names the
  failing call or with the error of writing that file. Records made before are kept in every case: the ring is the earlier
  one with further records and a count of dropped buffers.\<close>

theorem control_followed:
  assumes "hang_reach cfg pid module_init m" and "hm_thread m = Looping active collecting"
    and "\<not> hm_stop_set m" and "wanted cfg (rv_control env) = Inr enabled"
  defines "m' \<equiv> worker_round cfg pid env active collecting m"
  shows "((\<exists>active'. hm_thread m' = Looping active' enabled) \<or>
      hm_thread m' = Returned \<and> (\<exists>what result. result \<noteq> 0 \<and>
        what \<in> {''hang_mspti_start'', ''hang_mspti_set_enabled''} \<and>
        dict_get (hm_error_files m') (''mspti-'' @ str_int pid @ ''.error'') = Some (failed_text what result)) \<or>
      (\<exists>e. rv_write env = Some e \<and> hm_thread m' = Died (raised e))) \<and>
    (\<forall>r. lb_ring (hm_c m) = Some r \<longrightarrow> (\<exists>cs d. lb_ring (hm_c m') = Some ((fold ring_store cs r)\<lparr>rm_dropped := d\<rparr>)))"
proof -
  have "thread_ok pid m" using hang_reach_ok [OF assms(1) module_ok_init] by (simp add: module_ok_def)
  with assms(2) have t: "active = mapped (hm_c m)" "collecting \<longrightarrow> active" by (auto simp: thread_ok_def)
  have ends: "hm_thread (give_up env pid (failed_text what result) k) = Returned \<and>
      dict_get (hm_error_files (give_up env pid (failed_text what result) k)) (''mspti-'' @ str_int pid @ ''.error'') =
        Some (failed_text what result) \<or>
      (\<exists>e. rv_write env = Some e \<and> hm_thread (give_up env pid (failed_text what result) k) = Died (raised e))"
    for what result k
    by (simp add: give_up_def py_dict split: option.split)
  have loops: "hm_thread (end_round env pid a c k) = Looping a c" for a c k by (simp add: end_round_def)
  consider (first) "enabled" "\<not> active" | (switch) "active" "enabled \<noteq> collecting"
    | (same) "\<not> (enabled \<and> \<not> active)" "\<not> (active \<and> enabled \<noteq> collecting)" by blast
  then show ?thesis
  proof cases
    case first
    obtain e l where l: "lib_start cfg pid (rv_lib env) (hm_c m) = (e, l)" by force
    have m': "m' = (if e \<noteq> 0 then give_up env pid (failed_text ''hang_mspti_start'' e) (m\<lparr>hm_c := l\<rparr>)
        else end_round env pid True True (m\<lparr>hm_c := l\<rparr>))"
      using first l assms(3,4) by (simp add: m'_def worker_round_def)
    have "lb_ring (hm_c m) = None" using first t by (simp add: mapped_def)
    with m' first ends [of "''hang_mspti_start''" e] loops show ?thesis by (cases "e = 0") auto
  next
    case switch
    obtain e l where l: "hang_mspti_set_enabled (in_process pid (rv_lib env)) (if enabled then 1 else 0) (hm_c m) = (e, l)"
      by force
    have m': "m' = (if e \<noteq> 0 then give_up env pid (failed_text ''hang_mspti_set_enabled'' e) (m\<lparr>hm_c := l\<rparr>)
        else end_round env pid active enabled (m\<lparr>hm_c := l\<rparr>))"
      using switch l assms(3,4) by (simp add: m'_def worker_round_def)
    have "ring_grows (\<lambda>_. True) (hm_c m) l"
      using l by (auto simp: hang_mspti_set_enabled_def intro: set_enabled_grows ring_grows_same split: if_splits)
    moreover have "ring_grows (\<lambda>_. True) l (hm_c (end_round env pid active enabled (m\<lparr>hm_c := l\<rparr>)))"
      using ring_grows_end_round [of "m\<lparr>hm_c := l\<rparr>"] by simp
    ultimately have "ring_grows (\<lambda>_. True) (hm_c m) (hm_c m')"
      unfolding m' using ring_grows_trans by (simp split: if_split)
    then have "\<exists>cs d. lb_ring (hm_c m') = Some ((fold ring_store cs r)\<lparr>rm_dropped := d\<rparr>)"
      if "lb_ring (hm_c m) = Some r" for r
      using that by (elim ring_grows_ringE) auto
    with m' ends [of "''hang_mspti_set_enabled''" e] loops show ?thesis
      by (cases "e = 0") auto
  next
    case same
    have m': "m' = end_round env pid active collecting m"
      unfolding m'_def worker_round_def using assms(3,4) same by (simp only: sum.case if_False)
    have "collecting = enabled" using same t by auto
    with ring_grows_end_round [of m] loops show ?thesis unfolding m' by (blast elim: ring_grows_ringE)
  qed
qed

subsection \<open>How it ends\<close>

lemma stop_keeps:
  assumes "lb_ring l = Some r" and "\<not> not_ours env l"
  shows "\<exists>cs d. dict_get (lb_files (hang_mspti_stop env l)) (lb_path l) = Some ((fold ring_store cs r)\<lparr>rm_dropped := d\<rparr>)"
proof -
  obtain e k where k: "set_enabled_locked env False (snd (call_mspti env Flush_All l)) = (e, k)" by force
  have "ring_grows (\<lambda>_. True) l (snd (call_mspti env Flush_All l))" by (rule heard_grows [OF heard_call])
  also have "ring_grows (\<lambda>_. True) (snd (call_mspti env Flush_All l)) k" by (rule set_enabled_grows [OF k])
  also have "ring_grows (\<lambda>_. True) k (unsubscribe env k)" by (rule ring_grows_mono [OF unsubscribe_frame(8)]) simp
  finally obtain cs d where "dict_get (lb_files (unmap env (unsubscribe env k))) (lb_path (unsubscribe env k)) =
      Some ((fold ring_store cs r)\<lparr>rm_dropped := d\<rparr>)"
    by (rule unmap_keeps [OF _ assms(1), of _ _ env]) auto
  with assms(2) k set_enabled_frame [OF k] show ?thesis by (auto simp: hang_mspti_stop_def)
qed

text \<open>C31: Once \<open>stop\<close> has set the event, the next round ends the thread; the ring is unmapped whatever msPTI
  answers, and its file holds everything that was recorded before, possibly followed by more records.\<close>

theorem orderly_stop_keeps_records:
  assumes "hang_reach cfg pid module_init m" and "hm_thread m = Looping active collecting"
    and "hm_stop_set m" and m'_def: "m' = worker_round cfg pid env active collecting m"
  shows "hm_thread m' = Returned \<and> lb_ring (hm_c m') = None \<and>
    (\<forall>r. lb_ring (hm_c m) = Some r \<longrightarrow>
       (\<exists>cs d. dict_get (lb_files (hm_c m')) (lb_path (hm_c m)) = Some ((fold ring_store cs r)\<lparr>rm_dropped := d\<rparr>)))"
proof -
  have "thread_ok pid m" using hang_reach_ok [OF assms(1) module_ok_init] by (simp add: module_ok_def)
  with assms(2) have t: "active = mapped (hm_c m)" "active \<longrightarrow> lb_owner (hm_c m) = word_of_int pid"
    by (auto simp: thread_ok_def)
  have m': "m' = m\<lparr>hm_thread := Returned, hm_c := (if active
      then hang_mspti_stop (in_process pid (rv_lib env)) (hm_c m) else hm_c m)\<rparr>"
    using assms(3) by (simp add: m'_def worker_round_def)
  show ?thesis
  proof (cases "mapped (hm_c m)")
    case False
    with t m' show ?thesis by (simp add: mapped_def)
  next
    case True
    with t have ours: "\<not> not_ours (in_process pid (rv_lib env)) (hm_c m)"
      by (simp add: not_ours_def in_process_def mapped_def)
    then have "lb_ring (hm_c m') = None" using True t by (simp add: m' hang_mspti_stop_def)
    moreover have "\<exists>cs d. dict_get (lb_files (hm_c m')) (lb_path (hm_c m)) = Some ((fold ring_store cs r)\<lparr>rm_dropped := d\<rparr>)"
      if "lb_ring (hm_c m) = Some r" for r
      using stop_keeps [OF that ours] True t by (simp add: m')
    ultimately show ?thesis by (simp add: m')
  qed
qed

text \<open>
  The states after the thread died of an unreadable control file: the library stays mapped and
  enabled, and no call of the module changes that.
\<close>

lemma orphaned_step:
  assumes "hang_step cfg pid m m'" and "hm_lib_set m" and "hm_thread m = Died e"
    and "mapped (hm_c m)" and "lb_enabled (hm_c m)"
  shows "hm_lib_set m' \<and> hm_thread m' = Died e \<and> mapped (hm_c m') \<and> lb_enabled (hm_c m')"
  using assms
  by cases (auto simp: hang_start_def hang_stop_def)

text \<open>C32: If reading the control file fails with anything but a missing file while events are collected, the
  thread dies at once without stopping the library: it stays mapped, subscribed and enabled for the
  rest of the process, nobody flushes it any more, \<open>stop\<close> does not reach it, and a new \<open>start\<close> is refused.\<close>

theorem unreadable_control_orphans:
  assumes "hang_reach cfg pid module_init m" and "hm_thread m = Looping True True"
    and "\<not> hm_stop_set m" and "wanted cfg (rv_control env) = Inl e"
    and "hang_reach cfg pid (worker_round cfg pid env True True m) m'"
  shows "hm_thread m' = Died e \<and> lb_ring (hm_c m') \<noteq> None \<and> lb_enabled (hm_c m') \<and>
    hang_start cfg senv m' = (Inl (RuntimeError ''already started''), m')"
proof -
  have "thread_ok pid m" using hang_reach_ok [OF assms(1) module_ok_init] by (simp add: module_ok_def)
  with assms(2) have t: "hm_lib_set m" "mapped (hm_c m)" "lb_enabled (hm_c m)" by (auto simp: thread_ok_def)
  have dead: "worker_round cfg pid env True True m = m\<lparr>hm_thread := Died e\<rparr>"
    using assms(3,4) by (simp add: worker_round_def)
  from assms(5) have "hm_lib_set m' \<and> hm_thread m' = Died e \<and> mapped (hm_c m') \<and> lb_enabled (hm_c m')"
  proof (induction rule: hang_reach.induct)
    case here
    with t show ?case by (simp add: dead)
  next
    case (step k k')
    then show ?case using orphaned_step [OF step.hyps(2)] by blast
  qed
  then show ?thesis by (simp add: mapped_def hang_start_def)
qed

text \<open>
  The same read in \<open>start\<close> leaves \<open>_lib\<close> set: the exception reports a failure, no thread exists, and
  every further \<open>start\<close> says that it is already started.
\<close>

lemma unreadable_control_blocks_start:
  assumes "\<not> hm_lib_set m" and "sv_mkdir env = None" and "sv_load env = None"
    and "wanted cfg (sv_control env) = Inl e" and "hang_start cfg env m = (r, m')"
  shows "r = Inl e \<and> hm_thread m' = hm_thread m \<and>
    hang_start cfg env' m' = (Inl (RuntimeError ''already started''), m')"
  using assms by (auto simp: hang_start_def)

text \<open>What a sequence of checked calls returns, from the answers of msPTI.\<close>

lemma checked_calls_succeed:
  "(\<And>i. i < length cs \<Longrightarrow> le_answer env (length (lb_calls l) + i) = 0) \<Longrightarrow> fst (checked_calls env cs l) = 0"
proof (induction cs arbitrary: l)
  case (Cons c cs)
  obtain call name where c: "c = (call, name)" by force
  have "fst (checked_calls env cs (snd (call_mspti env call l))) = 0"
    using Cons.prems [of "Suc i" for i] by (intro Cons.IH) simp
  moreover have "le_answer env (length (lb_calls l)) = 0" using Cons.prems [of 0] by simp
  ultimately show ?case by (simp add: c check_def case_prod_beta call_mspti_result)
qed simp

lemma checked_calls_fail:
  assumes "j < length cs" and "\<And>i. i < j \<Longrightarrow> le_answer env (length (lb_calls l) + i) = 0"
    and "le_answer env (length (lb_calls l) + j) = r" and "r \<noteq> 0"
  shows "fst (checked_calls env cs l) = r \<and> lb_calls (snd (checked_calls env cs l)) =
    lb_calls l @ map (\<lambda>c. (fst c, 0)) (take j cs) @ [(fst (cs ! j), r)]"
  using assms
proof (induction cs arbitrary: l j)
  case (Cons c cs)
  obtain call name where c: "c = (call, name)" by force
  show ?case
  proof (cases j)
    case 0
    with Cons.prems(3,4) show ?thesis by (simp add: c check_def case_prod_beta call_mspti_result)
  next
    case (Suc i)
    let ?l = "snd (call_mspti env call l)"
    have "fst (checked_calls env cs ?l) = r \<and> lb_calls (snd (checked_calls env cs ?l)) =
        lb_calls ?l @ map (\<lambda>c. (fst c, 0)) (take i cs) @ [(fst (cs ! i), r)]"
      using Cons.prems(1,3,4) Cons.prems(2) [of "Suc n" for n] by (intro Cons.IH) (simp_all add: Suc)
    moreover have "le_answer env (length (lb_calls l)) = 0" using Cons.prems(2) [of 0] Suc by simp
    ultimately show ?thesis by (simp add: c Suc check_def case_prod_beta call_mspti_result)
  qed
qed simp

lemma alloc_buffers_succeeds: "(\<And>i. le_memory env i) \<Longrightarrow> fst (alloc_buffers env is l) = None"
  by (induction env "is" l rule: alloc_buffers.induct) (simp_all add: Let_def)

text \<open>With the memory and the system calls answering success, a start gets as far as msPTI allows.\<close>

lemma start_runs:
  assumes "lb_ring l = None" and "64 \<le> capacity" and "capacity \<le> 2 ^ 24" and "dict_get (lb_files l) p = None"
    and "le_os env = None" and "\<And>i. le_memory env i"
  obtains m k where "fresh_hang_ring m" "heard (mapped_as env p m l) k" "lb_calls k = lb_calls l"
    "hang_mspti_start env (Some p) capacity l =
      (case checked_calls env subscribe_calls (k\<lparr>lb_subscriber := le_handle env\<rparr>) of
         (error, l) \<Rightarrow> (case (if error = 0 then set_enabled_locked env True l else (error, l)) of
           (error, l) \<Rightarrow> (error, if error \<noteq> 0 then unmap env (unsubscribe env l) else l)))"
proof -
  obtain m where m: "ring_create None True None (le_pid env) (le_wall_ns env) (le_mono_ns env) capacity = (0, Some m)"
    using assms(2,3) by (auto simp: ring_create_def not_less [symmetric] word_less_def word_le_def)
  obtain k where k: "alloc_buffers env [0..<BUFFER_COUNT] (mapped_as env p m l) = (None, k)"
    using alloc_buffers_succeeds [OF assms(6)] by (metis prod.collapse)
  show thesis
    by (rule that [of m k]) (use m assms heard_alloc [OF k] k in
      \<open>simp_all add: hang_mspti_start_def mapped_as_def ring_create_fresh\<close>)
qed

lemma start_succeeds:
  assumes "lb_ring l = None" and "64 \<le> capacity" and "capacity \<le> 2 ^ 24" and "dict_get (lb_files l) p = None"
    and "le_os env = None" and "\<And>i. le_memory env i"
    and answers: "\<And>i. i < (if lb_enabled l then 2 else 7) \<Longrightarrow> le_answer env (length (lb_calls l) + i) = 0"
  shows "fst (hang_mspti_start env (Some p) capacity l) = 0"
proof -
  obtain m k where "fresh_hang_ring m" and k: "heard (mapped_as env p m l) k" "lb_calls k = lb_calls l"
    and run: "hang_mspti_start env (Some p) capacity l =
      (case checked_calls env subscribe_calls (k\<lparr>lb_subscriber := le_handle env\<rparr>) of
         (error, l) \<Rightarrow> (case (if error = 0 then set_enabled_locked env True l else (error, l)) of
           (error, l) \<Rightarrow> (error, if error \<noteq> 0 then unmap env (unsubscribe env l) else l)))"
    by (rule start_runs [OF assms(1-6)])
  let ?k = "k\<lparr>lb_subscriber := le_handle env\<rparr>"
  have "fst (checked_calls env subscribe_calls ?k) = 0"
  proof (rule checked_calls_succeed)
    show "le_answer env (length (lb_calls ?k) + i) = 0" if "i < length subscribe_calls" for i
      using answers [of i] that k(2) by (simp add: subscribe_calls_def split: if_splits)
  qed
  then obtain k1 where k1: "checked_calls env subscribe_calls ?k = (0, k1)"
    by (cases "checked_calls env subscribe_calls ?k") simp
  have "lb_enabled k1 = lb_enabled l" using checked_frame [OF k1] heardD [OF k(1)] by simp
  moreover have "length (lb_calls k1) = length (lb_calls l) + 2"
    using k1 k(2) by (cases rule: checked_calls_cases) (simp_all add: subscribe_calls_def)
  moreover have "fst (checked_calls env enable_calls k1) = 0" if off: "\<not> lb_enabled l"
  proof (rule checked_calls_succeed)
    show "le_answer env (length (lb_calls k1) + i) = 0" if "i < length enable_calls" for i
      using answers [of "2 + i"] that off calculation(2) by (simp add: enable_calls_def add.assoc)
  qed
  ultimately have "fst (set_enabled_locked env True k1) = 0"
    by (simp add: set_enabled_locked_def case_prod_beta)
  with run k1 show ?thesis by (simp add: case_prod_beta)
qed

text \<open>A stop in which msPTI refuses the \<open>j\<close>-th of the five disabling calls.\<close>

definition disable_switches :: "switch list" where
  "disable_switches = [Domain_Switch Runtime_Domain, Domain_Switch Hccl_Domain, Activity_Switch Kernel_Kind,
     Activity_Switch Hccl_Kind, Activity_Switch Runtime_Api_Kind]"

lemma disable_order:
  assumes "j \<le> 5"
  shows "fold apply_call (map (\<lambda>c. (fst c, 0)) (take j disable_calls)) on sw \<longleftrightarrow>
    on sw \<and> sw \<notin> set (take j disable_switches)"
proof -
  from assms have "j = 0 \<or> j = 1 \<or> j = 2 \<or> j = 3 \<or> j = 4 \<or> j = 5" by linarith
  then show ?thesis by (elim disjE) (auto simp: disable_calls_def disable_switches_def apply_call_def)
qed

lemma failed_stop:
  assumes "lb_enabled l" and "\<not> not_ours env l" and "j < 5"
    and "\<And>i. i < j \<Longrightarrow> le_answer env (length (lb_calls l) + 2 + i) = 0"
    and "le_answer env (length (lb_calls l) + 2 + j) \<noteq> 0"
  shows "lb_ring (hang_mspti_stop env l) = None \<and> lb_enabled (hang_mspti_stop env l) \<and>
    switch_on (lb_calls (hang_mspti_stop env l)) sw =
      (switch_on (lb_calls l) sw \<and> sw \<notin> set (take j disable_switches))"
proof -
  let ?l = "snd (call_mspti env Flush_All (snd (call_mspti env Flush_All l)))"
  define r where "r = le_answer env (length (lb_calls l) + 2 + j)"
  then have r: "r \<noteq> 0" using assms(5) by simp
  let ?last = "checked_calls env disable_calls ?l"
  have len: "length (lb_calls ?l) = length (lb_calls l) + 2" by simp
  have fails: "fst ?last = r \<and> lb_calls (snd ?last) =
      lb_calls ?l @ map (\<lambda>c. (fst c, 0)) (take j disable_calls) @ [(fst (disable_calls ! j), r)]"
    by (rule checked_calls_fail) (use assms(3,4) r in \<open>simp_all only: len r_def, simp_all add: disable_calls_def\<close>)
  then obtain k where k: "?last = (r, k)"
    "lb_calls k = lb_calls ?l @ map (\<lambda>c. (fst c, 0)) (take j disable_calls) @ [(fst (disable_calls ! j), r)]"
    by (cases ?last) simp
  have stopped: "hang_mspti_stop env l = unmap env (unsubscribe env k)"
    using assms(1,2) r k(1) by (simp add: hang_mspti_stop_def set_enabled_locked_def)
  obtain us where us: "lb_calls (unsubscribe env k) = lb_calls k @ us" "\<forall>x \<in> set us. fst x = Unsubscribe"
    using unsubscribe_calls by blast
  have skip: "apply_call (c, r) on = on" for c on using r by (simp add: apply_call_def)
  have "lb_enabled k" using checked_frame [OF k(1)] assms(1) by simp
  moreover have "switch_on (lb_calls k @ us) = switch_on (lb_calls k)"
    using us(2) by (intro switch_on_neutral) auto
  moreover have "lb_calls ?l = lb_calls l @ [(Flush_All, le_answer env (length (lb_calls l))),
      (Flush_All, le_answer env (length (lb_calls l) + 1))]" by simp
  then have "switch_on (lb_calls ?l) = switch_on (lb_calls l)"
    by (simp only:) (rule switch_on_neutral, auto)
  then have "switch_on (lb_calls k) sw = (switch_on (lb_calls l) sw \<and> sw \<notin> set (take j disable_switches))"
    using assms(3) disable_order [of j] by (simp add: k(2) switch_on_def skip)
  ultimately show ?thesis by (simp add: stopped us(1))
qed

text \<open>C33: If msPTI refuses any of the five calls by which \<open>hang_mspti_stop\<close> switches collection off, the ring
  is unmapped but the library still believes it is enabled. The next \<open>hang_mspti_start\<close>, in a file of
  its own and with memory, system calls, subscription and registration succeeding, returns success
  without making any enabling call: what the failed stop had switched off before the refusal stays off
  (and the rest stays as it was), and the new ring holds no status record, not even that of a start.\<close>

theorem failed_stop_silent_restart:
  assumes "lb_enabled l" and "\<not> not_ours env l" and "j < 5"
    and "\<And>i. i < j \<Longrightarrow> le_answer env (length (lb_calls l) + 2 + i) = 0"
    and "le_answer env (length (lb_calls l) + 2 + j) \<noteq> 0"
  defines "s \<equiv> hang_mspti_stop env l"
  assumes "64 \<le> capacity" and "capacity \<le> 2 ^ 24" and "dict_get (lb_files s) p = None"
    and "le_os env' = None" and "\<And>i. le_memory env' i"
    and "le_answer env' (length (lb_calls s)) = 0" and "le_answer env' (length (lb_calls s) + 1) = 0"
  shows "lb_ring s = None \<and> lb_enabled s \<and>
    (\<exists>l'. hang_mspti_start env' (Some p) capacity s = (0, l') \<and> lb_enabled l' \<and>
      lb_calls l' = lb_calls s @ [(Subscribe, 0), (Register_Callbacks, 0)] \<and>
      (\<forall>sw. switch_on (lb_calls l') sw =
        (switch_on (lb_calls l) sw \<and> sw \<notin> set (take j disable_switches))) \<and>
      (\<exists>m cs d. fresh_hang_ring m \<and> lb_ring l' = Some ((fold ring_store cs m)\<lparr>rm_dropped := d\<rparr>) \<and>
        (\<forall>c \<in> set cs. ra_kind c \<noteq> HANG_STATUS)))"
proof -
  note stopped = failed_stop [OF assms(1-5), folded s_def]
  have "le_answer env' (length (lb_calls s) + i) = 0" if "i < 2" for i
    using that assms(12,13) by (cases i) (auto simp: less_Suc_eq numeral_2_eq_2)
  then have "fst (hang_mspti_start env' (Some p) capacity s) = 0"
    using stopped assms(7-11) by (intro start_succeeds) simp_all
  then obtain l' where l': "hang_mspti_start env' (Some p) capacity s = (0, l')" by (metis prod.collapse)
  from l' show ?thesis
  proof (cases rule: start_cases)
    case refused
    with assms(10) show ?thesis by simp
  next
    case (no_memory q m k i)
    then show ?thesis by (simp add: ENOMEM_def)
  next
    case (not_subscribed q m k k')
    then show ?thesis by simp
  next
    case (switched q m k k1 k2)
    from switched(6) have k1: "heard (k\<lparr>lb_subscriber := le_handle env'\<rparr>) k1"
      "lb_calls k1 = lb_calls s @ [(Subscribe, 0), (Register_Callbacks, 0)]"
      using switched(5) by (cases rule: checked_calls_cases, simp_all add: subscribe_calls_def)+
    have "lb_enabled k1" using heardD(4) [OF k1(1)] heardD(4) [OF switched(4)] stopped by simp
    with switched(7,8) have "l' = k1" by (simp add: set_enabled_locked_def)
    moreover have "switch_on (lb_calls k1) = switch_on (lb_calls s)"
      unfolding k1(2) by (rule switch_on_neutral) auto
    moreover have "ring_grows no_status (mapped_as env' q m s) k1"
      using ring_grows_trans [OF heardD(8) [OF switched(4)]] heardD(8) [OF k1(1)] by (simp add: ring_grows_def)
    then have "\<exists>m cs d. fresh_hang_ring m \<and> lb_ring k1 = Some ((fold ring_store cs m)\<lparr>rm_dropped := d\<rparr>) \<and>
        (\<forall>c \<in> set cs. ra_kind c \<noteq> HANG_STATUS)"
      using switched(3) by (elim ring_grows_ringE) (auto simp: no_status_def)
    ultimately show ?thesis using \<open>lb_enabled k1\<close> k1(2) stopped l' by auto
  qed
qed

subsection \<open>Witnesses\<close>

definition quiet_env :: lib_env where
  "quiet_env = \<lparr>le_pid = 7, le_now = (\<lambda>_. 0), le_tid = 7, le_answer = (\<lambda>_. 0), le_handle = True,
     le_os = None, le_memory = (\<lambda>_. True), le_wall_ns = 0, le_mono_ns = 0, le_others = (\<lambda>_. [])\<rparr>"

definition demo_config :: hang_config where
  "demo_config = \<lparr>hc_directory = Path [''d''], hc_capacity = 64, hc_control = Some ''enable_prof''\<rparr>"

definition demo_start :: "control_read \<Rightarrow> start_env" where
  "demo_start r = \<lparr>sv_pid = 7, sv_mkdir = None, sv_load = None, sv_control = r, sv_lib = quiet_env\<rparr>"

definition demo_round :: "control_read \<Rightarrow> round_env" where
  "demo_round r = \<lparr>rv_control = r, rv_write = None, rv_lib = quiet_env\<rparr>"

text \<open>A process whose control file reads 1, and its state after a successful start.\<close>

definition demo_module :: hang_module where
  "demo_module = snd (hang_start demo_config (demo_start (Control_Text ''1'')) module_init)"

lemma demo_wanted:
  "wanted demo_config (Control_Text ''1'') = Inr True" "wanted demo_config (Control_Text ''0'') = Inr False"
  "wanted demo_config (Control_OSError e) = Inl (OSError e)"
  by (simp_all add: wanted_def demo_config_def, code_simp+)

lemma demo_lib_start: "fst (lib_start demo_config 7 quiet_env lib_init) = 0"
  unfolding lib_start_def
  by (rule start_succeeds) (simp_all add: lib_init_def demo_config_def in_process_def quiet_env_def)

lemma demo_module:
  "hang_start demo_config ((demo_start (Control_Text ''1''))\<lparr>sv_pid := 7\<rparr>) module_init =
     (Inr (ring_path demo_config 7), demo_module)"
  "hm_thread demo_module = Looping True True" "\<not> hm_stop_set demo_module"
  using demo_lib_start
  by (simp_all add: hang_start_def demo_start_def module_init_def demo_wanted case_prod_beta demo_module_def)

lemma demo_reach: "hang_reach demo_config 7 module_init demo_module"
  by (rule hang_reach.step [OF hang_reach.here hang_step.start [OF _ demo_module(1)]])
    (simp add: demo_start_def os_ok_def quiet_env_def)

lemma demo_stopped:
  "hang_reach demo_config 7 module_init (hang_stop 7 demo_module)"
  "hm_thread (hang_stop 7 demo_module) = Looping True True" "hm_stop_set (hang_stop 7 demo_module)"
proof -
  have "hm_owner_pid demo_module = Some 7"
    using demo_lib_start
    by (simp add: demo_module_def hang_start_def demo_start_def module_init_def demo_wanted case_prod_beta)
  then show "hm_thread (hang_stop 7 demo_module) = Looping True True" "hm_stop_set (hang_stop 7 demo_module)"
    using demo_module by (simp_all add: hang_stop_def)
  show "hang_reach demo_config 7 module_init (hang_stop 7 demo_module)"
    by (rule hang_reach.step [OF demo_reach hang_step.stop])
qed

theorem thread_in_step_witness:
  "lb_enabled (hm_c demo_module) \<and> lb_ring (hm_c demo_module) \<noteq> None"
  using thread_in_step [OF demo_reach] by (simp add: demo_module(2))

theorem control_followed_witness:
  "hm_thread (worker_round demo_config 7 (demo_round (Control_Text ''0'')) True True demo_module) \<noteq> Looping True True"
  using control_followed [OF demo_reach demo_module(2,3), of "demo_round (Control_Text ''0'')" False]
  by (auto simp: demo_round_def demo_wanted)

theorem orderly_stop_keeps_records_witness:
  "hm_thread (worker_round demo_config 7 (demo_round Control_Missing) True True (hang_stop 7 demo_module)) = Returned"
  using orderly_stop_keeps_records [OF demo_stopped refl] by blast

theorem unreadable_control_orphans_witness:
  "lb_enabled (hm_c (worker_round demo_config 7 (demo_round (Control_OSError ''Permission denied'')) True True demo_module))"
  using unreadable_control_orphans [OF demo_reach demo_module(2,3) _ hang_reach.here,
      of "demo_round (Control_OSError ''Permission denied'')"]
  by (simp add: demo_round_def demo_wanted)

text \<open>
  msPTI that switches the runtime callbacks on, delivers one from another thread, and then refuses the
  next domain.
\<close>

definition refusing_env :: lib_env where
  "refusing_env = quiet_env\<lparr>le_answer := (\<lambda>k. if k = 3 then 6 else 0),
     le_others := (\<lambda>t. if t = During_Call 2
       then [Other_Callback \<lparr>le_pid = 7, le_now = (\<lambda>_. 1), le_tid = 8\<rparr> From_Runtime 1
         (Some \<lparr>cb_enter = True, cb_correlation = 1, cb_name = None\<rparr>)]
       else [])\<rparr>"

lemma refused_start:
  "fst (hang_mspti_start refusing_env (Some ''r'') 64 lib_init) = 6 \<and>
   lb_calls (snd (hang_mspti_start refusing_env (Some ''r'') 64 lib_init)) \<noteq> []"
proof -
  let ?env = refusing_env
  obtain m k where "fresh_hang_ring m" and k: "heard (mapped_as ?env ''r'' m lib_init) k" "lb_calls k = lb_calls lib_init"
    and run: "hang_mspti_start ?env (Some ''r'') 64 lib_init =
      (case checked_calls ?env subscribe_calls (k\<lparr>lb_subscriber := le_handle ?env\<rparr>) of
         (error, l) \<Rightarrow> (case (if error = 0 then set_enabled_locked ?env True l else (error, l)) of
           (error, l) \<Rightarrow> (error, if error \<noteq> 0 then unmap ?env (unsubscribe ?env l) else l)))"
    by (rule start_runs [of lib_init 64 "''r''" ?env]) (simp_all add: lib_init_def refusing_env_def quiet_env_def)
  let ?k = "k\<lparr>lb_subscriber := le_handle ?env\<rparr>"
  have calls: "lb_calls k = []" using k(2) by (simp add: lib_init_def)
  have "fst (checked_calls ?env subscribe_calls ?k) = 0"
    by (rule checked_calls_succeed) (auto simp: calls subscribe_calls_def refusing_env_def)
  then obtain k1 where k1: "checked_calls ?env subscribe_calls ?k = (0, k1)"
    by (cases "checked_calls ?env subscribe_calls ?k") simp
  have calls1: "lb_calls k1 = [(Subscribe, 0), (Register_Callbacks, 0)]"
    using k1 by (cases rule: checked_calls_cases) (simp_all add: calls subscribe_calls_def)
  have "\<not> lb_enabled k1"
    using checked_frame [OF k1] heardD(4) [OF k(1)] by (simp add: lib_init_def)
  moreover have "fst (checked_calls ?env enable_calls k1) = 6"
    using checked_calls_fail [of 1 enable_calls ?env k1 6]
    by (simp add: calls1 enable_calls_def refusing_env_def quiet_env_def)
  ultimately obtain k2 where k2: "set_enabled_locked ?env True k1 = (6, k2)"
    by (cases "checked_calls ?env enable_calls k1") (simp add: set_enabled_locked_def)
  then have "lb_calls k2 \<noteq> []"
  proof (cases rule: set_enabled_cases)
    case (ran k0 fs k3)
    from ran(5) have "lb_calls k3 \<noteq> []"
      by (cases rule: checked_calls_cases) (simp_all add: ran(3) calls1)
    with ran(6) show ?thesis by simp
  qed (simp add: calls1)
  with k1 k2 run unsubscribe_calls [of ?env k2] show ?thesis by auto
qed

theorem failed_start_evidence_witness:
  "\<exists>m. dict_get (lb_files (snd (hang_mspti_start refusing_env (Some ''r'') 64 lib_init))) ''r'' = Some m"
proof -
  let ?l = "snd (hang_mspti_start refusing_env (Some ''r'') 64 lib_init)"
  have run: "hang_mspti_start refusing_env (Some ''r'') 64 lib_init = (6, ?l)"
    using refused_start by (metis prod.collapse)
  have new: "?l \<noteq> lib_init" using refused_start by (auto simp: lib_init_def)
  have nonzero: "(6 :: int) \<noteq> 0" by simp
  from failed_start_evidence [OF run nonzero new, of "\<lambda>_. []"] show ?thesis
    by (elim conjE exE) (intro exI, assumption)
qed

lemma start_files:
  assumes "hang_mspti_start env (Some p) capacity l = (0, l')" and "os_ok env"
  shows "lb_path l' = p \<and> lb_files l' = lb_files l"
  using assms(1)
proof (cases rule: start_cases)
  case (switched q m k k1 k2)
  from checked_frame [OF switched(6)] have "lb_path k1 = q \<and> lb_files k1 = lb_files l"
    using heardD [OF switched(4)] by simp
  with switched(1,8) set_enabled_frame [OF switched(7)] show ?thesis by simp
qed (use assms(2) in \<open>simp_all add: os_ok_def ENOMEM_def\<close>)

lemma stop_files:
  assumes "\<not> not_ours env l" and "q \<noteq> lb_path l"
  shows "dict_get (lb_files (hang_mspti_stop env l)) q = dict_get (lb_files l) q"
proof -
  obtain e k where k: "set_enabled_locked env False (snd (call_mspti env Flush_All l)) = (e, k)" by force
  from set_enabled_frame [OF k] assms show ?thesis
    using k by (simp add: hang_mspti_stop_def unmap_def) (simp add: cleanup_map_def py_dict split: option.split)
qed

text \<open>msPTI that refuses the fourth call after \<open>n\<close> others.\<close>

definition stubborn_env :: "nat \<Rightarrow> lib_env" where
  "stubborn_env n = quiet_env\<lparr>le_answer := (\<lambda>k. if k = n + 3 then 5 else 0)\<rparr>"

theorem failed_stop_silent_restart_witness:
  "\<exists>l env env' l'. lb_enabled l \<and> hang_mspti_start env' (Some ''b'') 64 (hang_mspti_stop env l) = (0, l') \<and>
     \<not> switch_on (lb_calls l') (Domain_Switch Runtime_Domain)"
proof -
  let ?l = "snd (hang_mspti_start quiet_env (Some ''a'') 64 lib_init)"
  let ?env = "stubborn_env (length (lb_calls ?l))"
  have ok: "os_ok quiet_env" by (simp add: os_ok_def quiet_env_def)
  have "fst (hang_mspti_start quiet_env (Some ''a'') 64 lib_init) = 0"
    by (rule start_succeeds) (simp_all add: lib_init_def quiet_env_def)
  then have first: "hang_mspti_start quiet_env (Some ''a'') 64 lib_init = (0, ?l)" by (metis prod.collapse)
  from start_outcome [OF first ok] have l: "lb_enabled ?l" "mapped ?l" "lb_owner ?l = 7"
    by (simp_all add: mapped_def lib_init_def quiet_env_def)
  then have ours: "\<not> not_ours ?env ?l" by (simp add: not_ours_def mapped_def stubborn_env_def quiet_env_def)
  have "lb_path ?l = ''a'' \<and> lb_files ?l = []" using start_files [OF first ok] by (simp add: lib_init_def)
  then have free: "dict_get (lb_files (hang_mspti_stop ?env ?l)) ''b'' = None"
    using stop_files [OF ours, of "''b''"] by simp
  have refused: "le_answer ?env (length (lb_calls ?l) + 2 + 1) \<noteq> 0"
    "le_answer ?env (length (lb_calls ?l) + 2 + i) = 0" if "i < 1" for i
    using that by (simp_all add: stubborn_env_def quiet_env_def)
  obtain l' where "hang_mspti_start quiet_env (Some ''b'') 64 (hang_mspti_stop ?env ?l) = (0, l')"
    "switch_on (lb_calls l') (Domain_Switch Runtime_Domain) =
      (switch_on (lb_calls ?l) (Domain_Switch Runtime_Domain) \<and>
        Domain_Switch Runtime_Domain \<notin> set (take 1 disable_switches))"
    using failed_stop_silent_restart [OF l(1) ours _ refused(2) refused(1) _ _ free, where capacity = 64 and env' = quiet_env]
    by (auto simp: quiet_env_def)
  with l(1) show ?thesis by (auto simp: disable_switches_def)
qed

end
