(* ===== verification/Recorder_Client.thy ===== *)
theory Recorder_Client
  imports Flight_Writer Py_World
begin

text \<open>
  \<open>flightrecorder/client.py\<close>: the ctypes wrapper around the C++ recorder. ctypes takes an integer
  argument modulo the width of its C type. The global recorder of the library is part of the state.
\<close>

subsection \<open>Opening\<close>

text \<open>
  What opening meets: the process, \<open>mkdir\<close>, loading the library (\<open>OSError\<close>, or \<open>AttributeError\<close> for a
  missing symbol), the errno of the first failing system call of \<open>flight_init\<close>, the clocks and
  \<open>os.strerror\<close>.
\<close>

record recorder_env =
  ie_pid :: int
  ie_mkdir :: "os_error option"
  ie_load :: "py_error option"
  ie_os :: "int option"
  ie_wall_ns :: u64
  ie_mono_ns :: u64
  ie_strerror :: "int \<Rightarrow> string"

definition recorder_path :: "path \<Rightarrow> int \<Rightarrow> int \<Rightarrow> path" where
  "recorder_path base rank pid =
     path_child base (''rank'' @ str_int rank @ ''-pid'' @ str_int pid @ ''.flight'')"

definition recorder_init ::
  "recorder_env \<Rightarrow> path \<Rightarrow> int \<Rightarrow> int \<Rightarrow> int \<Rightarrow> shm option \<Rightarrow> (py_error + path) \<times> shm option" where
  "recorder_init env base rank device capacity cur =
     (case ie_mkdir env of
        Some e \<Rightarrow> (Inl (raised e), cur)
      | None \<Rightarrow>
          (let p = recorder_path base rank (ie_pid env)
           in case ie_load env of
                Some e \<Rightarrow> (Inl e, cur)
              | None \<Rightarrow>
                  (case flight_init cur True (ie_os env) (word_of_int (ie_pid env)) (ie_wall_ns env)
                          (ie_mono_ns env) (word_of_int rank) (word_of_int device) (word_of_int capacity) of
                     (err, cur') \<Rightarrow>
                       (if err \<noteq> 0
                        then Inl (OSError (''[Errno '' @ str_int err @ ''] '' @ ie_strerror env err @ '': '' @
                               [CHR 0x27] @ path_str p @ [CHR 0x27]))
                        else Inr p, cur'))))"

subsection \<open>Recording\<close>

record client_call =
  cc_name :: string
  cc_stream :: int
  cc_correlation :: int
  cc_arg0 :: int
  cc_arg1 :: int
  cc_flags :: int

text \<open>The arguments as the C function receives them; \<open>None\<close> is the \<open>KeyError\<close> of \<open>TYPES[name]\<close>.\<close>

definition c_call :: "client_call \<Rightarrow> u64 \<Rightarrow> u32 \<Rightarrow> record_call option" where
  "c_call c now tid =
     (case dict_get TYPES (cc_name c) of
        None \<Rightarrow> None
      | Some t \<Rightarrow> Some \<lparr>rc_type = word_of_int t, rc_stream = word_of_int (cc_stream c),
          rc_correlation = word_of_int (cc_correlation c), rc_arg0 = word_of_int (cc_arg0 c),
          rc_arg1 = word_of_int (cc_arg1 c), rc_flags = word_of_int (cc_flags c),
          rc_now = now, rc_tid = tid\<rparr>)"

definition recorder_record ::
  "bool \<Rightarrow> u64 \<Rightarrow> u32 \<Rightarrow> client_call \<Rightarrow> shm option \<Rightarrow> (py_error + int) \<times> shm option" where
  "recorder_record getpid_is_owner now tid c cur =
     (case c_call c now tid of
        None \<Rightarrow> (Inl KeyError, cur)
      | Some call \<Rightarrow>
          (case flight_record cur getpid_is_owner call of (seq, cur') \<Rightarrow> (Inr (uint seq), cur')))"

definition recorder_close :: "shm option \<Rightarrow> shm option" where
  "recorder_close cur = flight_close cur"

subsection \<open>What the reader sees of a call\<close>

lemma TYPES_get: "dict_get TYPES n = Some t \<longleftrightarrow> (\<exists>i < 25. n = NAMES ! i \<and> t = int i)"
proof -
  have keys: "map fst TYPES = NAMES" using map_nth [of NAMES] by (simp add: TYPES_def comp_def)
  then have "distinct (map fst TYPES)" by (simp add: distinct_NAMES)
  then have "dict_get TYPES n = Some t \<longleftrightarrow> (n, t) \<in> set TYPES" by (rule map_of_eq_Some_iff)
  also have "\<dots> \<longleftrightarrow> (\<exists>i < 25. n = NAMES ! i \<and> t = int i)" by (auto simp: TYPES_def)
  finally show ?thesis .
qed

lemma type_name_of_TYPES:
  assumes "dict_get TYPES n = Some t"
  shows "type_name (t mod 65536) = n"
  using assms by (auto simp: TYPES_get type_name_def)

definition client_event :: "int \<Rightarrow> int \<Rightarrow> int \<Rightarrow> nat \<Rightarrow> u64 \<Rightarrow> u32 \<Rightarrow> client_call \<Rightarrow> event" where
  "client_event rank device pid seq now tid c =
     \<lparr>ev_timestamp_ns = uint now, ev_seq = int seq, ev_pid = pid mod 2 ^ 32, ev_tid = uint tid,
      ev_device = device mod 2 ^ 16, ev_rank = rank mod 2 ^ 16, ev_stream = cc_stream c mod 2 ^ 32,
      ev_type = cc_name c, ev_flags = cc_flags c mod 2 ^ 16,
      ev_correlation_id = cc_correlation c mod 2 ^ 64, ev_arg0 = cc_arg0 c mod 2 ^ 64,
      ev_arg1 = cc_arg1 c mod 2 ^ 64\<rparr>"

lemma uint_ctypes [simp]:
  "uint (word_of_int n :: u16) = n mod 2 ^ 16" "uint (word_of_int n :: u32) = n mod 2 ^ 32"
  "uint (word_of_int n :: u64) = n mod 2 ^ 64"
  by (simp_all add: uint_word_of_int)

lemma client_event_view:
  assumes "c_call c now tid = Some call" and "s < 2 ^ 64"
    and "sh_rank m = word_of_int rank" and "sh_device m = word_of_int device" and "sh_pid m = word_of_int pid"
  shows "event_view (filled_event m call (of_nat s)) = client_event rank device pid s now tid c"
  using assms
  by (auto simp: c_call_def event_view_def filled_event_def client_event_def uint_seq type_name_of_TYPES
      split: option.splits)

lemma recorder_init_Inr:
  assumes "recorder_init env base rank device capacity None = (Inr p, Some m)"
  shows "p = recorder_path base rank (ie_pid env) \<and> fresh_ring m \<and> sh_rank m = word_of_int rank \<and>
    sh_device m = word_of_int device \<and> sh_pid m = word_of_int (ie_pid env) \<and>
    sh_capacity m = word_of_int capacity \<and> length (sh_slots m) = nat (capacity mod 2 ^ 64) \<and>
    sh_started_wall_ns m = ie_wall_ns env \<and> sh_started_mono_ns m = ie_mono_ns env"
proof -
  let ?init = "flight_init None True (ie_os env) (word_of_int (ie_pid env)) (ie_wall_ns env) (ie_mono_ns env)
    (word_of_int rank) (word_of_int device) (word_of_int capacity)"
  from assms have p: "p = recorder_path base rank (ie_pid env)" and i: "?init = (0, Some m)"
    by (auto simp: recorder_init_def Let_def split: option.splits prod.splits if_splits)
  have "fresh_ring m" by (rule flight_init_fresh [OF i]) simp
  with p i show ?thesis
    by (auto simp: flight_init_def EINVAL_def EOVERFLOW_def unat_eq_nat_uint split: if_splits option.splits)
qed

end
