(* ===== verification/Checkpoint_Client.thy ===== *)
theory Checkpoint_Client
  imports Checkpoint_Alone Py_World
begin

text \<open>
  \<open>flightrecorder/checkpoint.py\<close>: the ctypes wrapper around the checkpoint pool, and the result codes of
  its CANN backend (\<open>src/cann_checkpoint.cpp\<close>). An object is its handle, \<open>None\<close> after a successful
  \<open>close\<close>; the C functions take that as a null pointer. The methods run here without another thread
  inside the pool; how threads interleave is the subject of \<open>Checkpoint_System\<close>.
\<close>

type_synonym client = "manager option"

subsection \<open>The CANN backend\<close>

text \<open>\<open>aclrtQueryEventStatus\<close> yields an error code and whether the event is finished.\<close>

definition query_event :: "int \<Rightarrow> bool \<Rightarrow> int" where
  "query_event rc finished = (if rc \<noteq> 0 then - rc else if finished then 1 else 0)"

lemma query_event_complete: "0 \<le> rc \<Longrightarrow> query_event rc finished = 1 \<longleftrightarrow> rc = 0 \<and> finished"
  by (simp add: query_event_def)

subsection \<open>The wrapper\<close>

text \<open>\<open>OSError(rc, os.strerror(rc))\<close>.\<close>

definition os_failure :: "(int \<Rightarrow> string) \<Rightarrow> int \<Rightarrow> py_error" where
  "os_failure strerror rc = OSError (''[Errno '' @ str_int rc @ ''] '' @ strerror rc)"

definition client_create :: "py_error option \<Rightarrow> bool \<Rightarrow> int \<Rightarrow> py_error + client" where
  "client_create load memory slots_per_stream =
     (case load of
        Some e \<Rightarrow> Inl e
      | None \<Rightarrow>
          (case checkpoint_create True memory (word_of_int slots_per_stream) of
             None \<Rightarrow> Inl (RuntimeError ''unable to create CANN checkpoint manager'')
           | Some m \<Rightarrow> Inr (Some m)))"

definition client_register ::
  "(int \<Rightarrow> string) \<Rightarrow> (int \<times> u64) list \<Rightarrow> int \<Rightarrow> int \<Rightarrow> client \<Rightarrow> py_error option \<times> client" where
  "client_register strerror creates sid handle c =
     (case (case c of None \<Rightarrow> (EINVAL, c)
            | Some m \<Rightarrow> (case register_stream creates (word_of_int sid) (word_of_int handle) m of (rc, m') \<Rightarrow> (rc, Some m'))) of
        (rc, c') \<Rightarrow> (if rc \<noteq> 0 then Some (os_failure strerror rc) else None, c'))"

text \<open>A submission that does not return has no result: \<open>None\<close>.\<close>

definition client_submit ::
  "(int \<Rightarrow> string) \<Rightarrow> (pc \<Rightarrow> step_env) \<Rightarrow> int \<Rightarrow> int \<Rightarrow> int \<Rightarrow> client \<Rightarrow> (py_error + int) option \<times> client" where
  "client_submit strerror env sid submitted_seq checkpoint_id c =
     (case c of
        None \<Rightarrow> (Some (Inl (os_failure strerror EINVAL)), c)
      | Some m \<Rightarrow>
          (case checkpoint_submit env (word_of_int sid) (word_of_int submitted_seq) (word_of_int checkpoint_id) m of
             (Return rc gen, m') \<Rightarrow>
               (Some (if rc \<noteq> 0 then Inl (os_failure strerror rc)
                      else Inr (case gen of None \<Rightarrow> 0 | Some g \<Rightarrow> uint g)), Some m')
           | (_, m') \<Rightarrow> (None, Some m')))"

definition client_poll :: "(pc \<Rightarrow> step_env) \<Rightarrow> int \<Rightarrow> client \<Rightarrow> int option \<times> client" where
  "client_poll env budget c =
     (case c of
        None \<Rightarrow> (Some 0, c)
      | Some m \<Rightarrow>
          (case checkpoint_poll env (word_of_int budget) m of
             (Return completed gen, m') \<Rightarrow> (Some completed, Some m')
           | (_, m') \<Rightarrow> (None, Some m')))"

text \<open>\<open>None\<close>: the process is terminated.\<close>

definition client_start_poller ::
  "(int \<Rightarrow> string) \<Rightarrow> bool \<Rightarrow> int \<Rightarrow> int \<Rightarrow> client \<Rightarrow> (py_error option \<times> client) option" where
  "client_start_poller strerror spawned interval_us budget c =
     (case (case c of None \<Rightarrow> Some (EINVAL, c)
            | Some m \<Rightarrow> (case start_poller (word_of_int interval_us) (word_of_int budget) spawned m of
                None \<Rightarrow> None | Some (rc, m') \<Rightarrow> Some (rc, Some m'))) of
        None \<Rightarrow> None
      | Some (rc, c') \<Rightarrow> Some (if rc \<noteq> 0 then Some (os_failure strerror rc) else None, c'))"

text \<open>\<open>flight_checkpoint_stop_poller\<close> returns when the poller thread has ended.\<close>

definition client_stop_poller :: "client \<Rightarrow> client" where
  "client_stop_poller c =
     (case c of
        None \<Rightarrow> None
      | Some m \<Rightarrow> Some (if cm_poller m = None then request_stop m
                        else join_poller (poller_exit (request_stop m))))"

definition client_close :: "(int \<Rightarrow> string) \<Rightarrow> client \<Rightarrow> py_error option \<times> client" where
  "client_close strerror c =
     (case client_stop_poller c of
        None \<Rightarrow> (None, None)
      | Some m \<Rightarrow>
          (case checkpoint_destroy m of
             (rc, released) \<Rightarrow>
               if rc = EBUSY
               then (Some (RuntimeError ''checkpoint events still pending; keep manager alive until process exit''), Some m)
               else if rc \<noteq> 0 then (Some (os_failure strerror rc), Some m)
               else (None, None)))"

end
