(* ===== verification/Client_Properties.thy ===== *)
theory Client_Properties
  imports Recorder_Client Checkpoint_Client Checkpoint_Properties
begin

text \<open>
  What the two Python wrappers promise: the round trip from \<open>Recorder.record\<close> to \<open>read_events\<close>, and when
  a checkpoint manager can be closed.
\<close>

subsection \<open>The recorder\<close>

definition c_calls :: "(client_call \<times> u64 \<times> u32) list \<Rightarrow> record_call list" where
  "c_calls cs = map (\<lambda>(c, now, tid). the (c_call c now tid)) cs"

lemma c_call_known: "cc_name c \<in> set NAMES \<Longrightarrow> \<exists>call. c_call c now tid = Some call"
proof -
  assume "cc_name c \<in> set NAMES"
  then obtain i where "i < 25" "cc_name c = NAMES ! i" by (metis in_set_conv_nth length_NAMES)
  then have "dict_get TYPES (cc_name c) = Some (int i)" by (auto simp: TYPES_get)
  then show ?thesis by (simp add: c_call_def)
qed

lemma record_all_calls:
  assumes "\<forall>(c, now, tid) \<in> set cs. cc_name c \<in> set NAMES"
  shows "fold (\<lambda>(c, now, tid) cur. snd (recorder_record True now tid c cur)) cs (Some m) =
    Some (fold store_event (c_calls cs) m)"
  using assms
proof (induction cs arbitrary: m)
  case (Cons x cs)
  obtain c now tid where x: "x = (c, now, tid)" by (metis prod_cases3)
  with Cons.prems obtain call where "c_call c now tid = Some call" using c_call_known by fastforce
  with Cons x show ?case by (simp add: c_calls_def recorder_record_def flight_record_def)
qed (simp add: c_calls_def)

lemma store_all_ids:
  "sh_rank (fold store_event es m) = sh_rank m \<and> sh_device (fold store_event es m) = sh_device m \<and>
   sh_pid (fold store_event es m) = sh_pid m"
  by (induction es arbitrary: m) (simp_all add: store_event_def Let_def)

text \<open>C34: What is passed to \<open>Recorder.record\<close> is what \<open>read_events\<close> returns. A recorder opened for a rank and
  device and used for fewer than \<open>2 ^ 64\<close> calls with known names leaves a file, named after the rank and
  the process, from which the newest \<open>capacity\<close> events are read back in order with the names and all
  arguments of the calls, each modulo the width of its C type; so are rank, device and process in the
  header. In particular rank 65536 is read back as rank 0, although the file name says 65536.\<close>

theorem client_roundtrip:
  assumes "recorder_init env base rank device capacity None = (Inr p, Some m)"
    and "\<forall>(c, now, tid) \<in> set cs. cc_name c \<in> set NAMES" and "length cs < 2 ^ 64"
    and "fold (\<lambda>(c, now, tid) cur. snd (recorder_record True now tid c cur)) cs (Some m) = Some m'"
    and "fs p 0 = Inr (file_image m')" and "fs p 1 = Inr (file_image m')"
  shows "p = recorder_path base rank (ie_pid env) \<and>
    (\<exists>h. read_events fs p = Inr (h, take_last (nat (capacity mod 2 ^ 64))
        (map (\<lambda>(i, c, now, tid). client_event rank device (ie_pid env) (Suc i) now tid c) (enumerate 0 cs))) \<and>
      hd_rank h = rank mod 2 ^ 16 \<and> hd_device h = device mod 2 ^ 16 \<and> hd_pid h = ie_pid env mod 2 ^ 32)"
proof -
  note i = recorder_init_Inr [OF assms(1)]
  have m': "m' = fold store_event (c_calls cs) m" using assms(2,4) by (simp add: record_all_calls)
  have len: "length (c_calls cs) = length cs" by (simp add: c_calls_def)
  have fresh: "fresh_ring m" using i by blast
  have short: "length (c_calls cs) < 2 ^ 64" using assms(3) len by simp
  have "read_events fs p = Inr (header_view p m', take_last (length (sh_slots m)) (history m (c_calls cs)))"
    unfolding m' by (rule read_run [where fs = fs and p = p, OF fresh short assms(5) [unfolded m'] assms(6) [unfolded m']])
  moreover have "history m (c_calls cs) =
      map (\<lambda>(i, c, now, tid). client_event rank device (ie_pid env) (Suc i) now tid c) (enumerate 0 cs)"
  proof (rule nth_equalityI)
    fix k assume "k < length (history m (c_calls cs))"
    then have k: "k < length cs" by (simp add: history_def len)
    obtain c now tid where c: "cs ! k = (c, now, tid)" by (metis prod_cases3)
    then have "cc_name c \<in> set NAMES" using assms(2) nth_mem [OF k] by fastforce
    then obtain call where "c_call c now tid = Some call" using c_call_known by blast
    moreover from this have "c_calls cs ! k = call" using k c by (simp add: c_calls_def)
    moreover have "Suc k < 2 ^ 64" using k assms(3) by linarith
    ultimately show "history m (c_calls cs) ! k = map (\<lambda>(i, c, now, tid).
        client_event rank device (ie_pid env) (Suc i) now tid c) (enumerate 0 cs) ! k"
      using client_event_view [of c now tid call "Suc k" m rank device "ie_pid env"] i k c len
      by (simp add: history_def nth_enumerate_eq del: of_nat_Suc)
  qed (simp add: history_def len)
  moreover have "sh_rank m' = sh_rank m \<and> sh_device m' = sh_device m \<and> sh_pid m' = sh_pid m"
    unfolding m' by (rule store_all_ids)
  ultimately show ?thesis using i by (simp add: header_view_def)
qed

text \<open>A recorder for rank 65536 of a small file, and one call.\<close>

definition small_recorder :: recorder_env where
  "small_recorder = \<lparr>ie_pid = 9, ie_mkdir = None, ie_load = None, ie_os = None, ie_wall_ns = 0, ie_mono_ns = 0,
     ie_strerror = (\<lambda>_. [])\<rparr>"

definition small_call :: client_call where
  "small_call = \<lparr>cc_name = ''KV_BEGIN'', cc_stream = 3, cc_correlation = 4, cc_arg0 = 5, cc_arg1 = 6, cc_flags = 0\<rparr>"

theorem client_roundtrip_witness:
  "\<exists>p m m' h. recorder_init small_recorder (Path [''d'']) 65536 4 2 None = (Inr p, Some m) \<and>
    read_events (\<lambda>p k. Inr (file_image m')) p = Inr (h, [client_event 65536 4 9 1 7 8 small_call]) \<and> hd_rank h = 0"
proof -
  let ?p = "recorder_path (Path [''d'']) 65536 9"
  obtain m where m: "recorder_init small_recorder (Path [''d'']) 65536 4 2 None = (Inr ?p, Some m)"
    by (simp add: recorder_init_def small_recorder_def flight_init_def Let_def)
  have names: "\<forall>(c, now, tid) \<in> set [(small_call, 7, 8)]. cc_name c \<in> set NAMES"
    by (simp add: small_call_def NAMES_def)
  from record_all_calls [OF names, of m] obtain m' where
    run: "fold (\<lambda>(c, now, tid) cur. snd (recorder_record True now tid c cur)) [(small_call, 7, 8)] (Some m) = Some m'"
    by blast
  have one: "take_last (nat (2 mod 2 ^ 64)) (map (\<lambda>(i, c, now, tid).
      client_event 65536 4 9 (Suc i) now tid c) (enumerate 0 [(small_call, 7, 8)])) = [client_event 65536 4 9 1 7 8 small_call]"
    by (simp add: take_last_def)
  have pid: "ie_pid small_recorder = 9" by (simp add: small_recorder_def)
  have "length [(small_call, 7 :: u64, 8 :: u32)] < 2 ^ 64" by simp
  from client_roundtrip [OF m names this run refl refl, unfolded pid one] obtain h where
    h: "read_events (\<lambda>p k. Inr (file_image m')) ?p = Inr (h, [client_event 65536 4 9 1 7 8 small_call])"
      "hd_rank h = 65536 mod 2 ^ 16" by blast
  then have "hd_rank h = 0" by simp
  with m h(1) show ?thesis by blast
qed

subsection \<open>Closing a checkpoint manager\<close>

lemma running_joinable:
  "pool_reach answers sched s \<Longrightarrow> cm_poller_running (sy_pool s) \<Longrightarrow> cm_poller (sy_pool s) \<noteq> None"
proof (induction rule: pool_reach.induct)
  case (create given memory slots m)
  then show ?case by (auto simp: checkpoint_create_def pool_start_def split: if_splits)
next
  case (trans s s')
  have same: "cm_poller_running (snd (pool_step env pc m)) = cm_poller_running m \<and>
      cm_poller (snd (pool_step env pc m)) = cm_poller m" for env pc m
    by (cases pc) (auto simp: query_result_def set_slot_def log_call_def Let_def)
  have device: "sy_pool (device_step env pc s) = sy_pool s" for env pc s by (cases pc) simp_all
  from trans(2) show ?case
  proof cases
    case (start interval_us budget spawned rc m)
    then show ?thesis using trans.IH trans.prems by (auto simp: start_poller_def Let_def split: if_splits)
  next
    case (thread t env)
    then show ?thesis using trans.IH trans.prems same by (simp add: run_thread_def case_prod_beta)
  qed (use trans.IH trans.prems in \<open>auto simp: call_thread_def register_stream_def submit_call_def poll_call_def
      poller_exit_def request_stop_def join_poller_def Let_def split: if_splits sum.splits option.splits\<close>)
qed

lemma stop_reach:
  assumes "pool_reach answers (\<lambda>s. True) s" and "sy_threads s 0 = Idle"
    and "client_stop_poller (Some (sy_pool s)) = Some m"
  shows "pool_reach answers (\<lambda>s. True) (s\<lparr>sy_pool := m\<rparr>) \<and> \<not> cm_poller_running m \<and> cm_poller m = None \<and>
    cm_streams m = cm_streams (sy_pool s)"
proof -
  have asked: "pool_reach answers (\<lambda>s. True) (s\<lparr>sy_pool := request_stop (sy_pool s)\<rparr>)"
    by (rule pool_reach.trans [OF assms(1) pool_trans.request]) simp
  show ?thesis
  proof (cases "cm_poller (sy_pool s) = None")
    case True
    with assms(3) have "m = request_stop (sy_pool s)" by (simp add: client_stop_poller_def)
    moreover from True have "\<not> cm_poller_running (sy_pool s)" using running_joinable [OF assms(1)] by blast
    ultimately show ?thesis using True asked by (simp add: request_stop_def)
  next
    case False
    with assms(3) have m: "m = join_poller (poller_exit (request_stop (sy_pool s)))"
      by (simp add: client_stop_poller_def)
    let ?s = "s\<lparr>sy_pool := request_stop (sy_pool s)\<rparr>" and ?e = "s\<lparr>sy_pool := poller_exit (request_stop (sy_pool s))\<rparr>"
    have ended: "pool_reach answers (\<lambda>s. True) ?e"
    proof (cases "cm_poller_running (sy_pool s)")
      case True
      from pool_reach.trans [OF asked pool_trans.stopped] True assms(2) show ?thesis
        by (simp add: request_stop_def)
    next
      case False
      then have "poller_exit (request_stop (sy_pool s)) = request_stop (sy_pool s)"
        by (simp add: poller_exit_def request_stop_def)
      with asked show ?thesis by simp
    qed
    from pool_reach.trans [OF ended pool_trans.join] have "pool_reach answers (\<lambda>s. True) (s\<lparr>sy_pool := m\<rparr>)"
      by (simp add: m poller_exit_def)
    then show ?thesis by (simp add: m join_poller_def poller_exit_def request_stop_def)
  qed
qed

lemma destroy_refuses:
  assumes "\<not> cm_poller_running m" and "cm_poller m = None" and "checkpoint_destroy m = (rc, released)" and "rc \<noteq> 0"
  shows "rc = EBUSY \<and> (\<exists>i k. in_pool m i k \<and> ps_state (slot_of m i k) \<noteq> FREE)"
proof -
  from assms have rc: "rc = EBUSY" and "\<exists>st \<in> set (cm_streams m). \<exists>s \<in> set (st_slots st). ps_state s \<noteq> FREE"
    by (auto simp: checkpoint_destroy_def list_ex_iff Let_def split: if_splits)
  then obtain i k where "i < length (cm_streams m)" "k < length (st_slots (cm_streams m ! i))"
    "ps_state (st_slots (cm_streams m ! i) ! k) \<noteq> FREE" by (metis in_set_conv_nth)
  with rc show ?thesis unfolding in_pool_def slot_of_def by blast
qed

text \<open>C35: \<open>close\<close> of a checkpoint manager, called in any reachable state while the poller thread is between two
  polls, either succeeds, and then every submission ever recorded has its confirmation on record, no
  thread is in the middle of one, and the handle is gone; or it raises exactly the documented
  \<open>RuntimeError\<close> because some slot is still in use, and then the poller is stopped and the manager with
  all its slots is kept, so that \<open>close\<close> can be called again.\<close>

theorem close_contract:
  assumes "pool_reach answers (\<lambda>s. True) s" and "sy_threads s 0 = Idle"
    and "client_close strerror (Some (sy_pool s)) = (r, c)"
  shows "(r = None \<and> c = None \<and> (\<forall>t. owned (sy_threads s t) = None) \<and>
      (\<forall>key. submissions key (cm_log (sy_pool s)) = confirmations key (cm_log (sy_pool s)))) \<or>
    (r = Some (RuntimeError ''checkpoint events still pending; keep manager alive until process exit'') \<and>
      (\<exists>m. c = Some m \<and> cm_streams m = cm_streams (sy_pool s) \<and> cm_log m = cm_log (sy_pool s) \<and> cm_poller m = None \<and>
        (\<exists>i k. in_pool m i k \<and> ps_state (slot_of m i k) \<noteq> FREE)))"
proof -
  obtain m where m: "client_stop_poller (Some (sy_pool s)) = Some m" by (simp add: client_stop_poller_def)
  note st = stop_reach [OF assms(1,2) m]
  have log: "cm_log m = cm_log (sy_pool s)"
    using m by (auto simp: client_stop_poller_def request_stop_def poller_exit_def join_poller_def split: if_splits)
  obtain rc released where d: "checkpoint_destroy m = (rc, released)" by force
  show ?thesis
  proof (cases "rc = 0")
    case True
    with assms(3) m d have "r = None" "c = None" by (simp_all add: client_close_def EBUSY_def)
    moreover have "pool_reach answers (\<lambda>s. True) (s\<lparr>sy_pool := m\<rparr>)" using st by blast
    from destroy_all_confirmed [OF this] d True
    have "(\<forall>key. submissions key (cm_log m) = confirmations key (cm_log m)) \<and> (\<forall>t. owned (sy_threads s t) = None)"
      by simp
    ultimately show ?thesis using log by simp
  next
    case False
    from destroy_refuses [OF _ _ d False] st have "rc = EBUSY" "\<exists>i k. in_pool m i k \<and> ps_state (slot_of m i k) \<noteq> FREE"
      by simp_all
    moreover from this assms(3) m d
    have "r = Some (RuntimeError ''checkpoint events still pending; keep manager alive until process exit'')" "c = Some m"
      by (simp_all add: client_close_def)
    ultimately show ?thesis using st log by blast
  qed
qed

theorem close_contract_witness:
  "\<exists>c. client_close (\<lambda>_. []) (Some (sy_pool small_pool)) = (None, c) \<and> c = None"
proof -
  obtain r c where run: "client_close (\<lambda>_. []) (Some (sy_pool small_pool)) = (r, c)" by fastforce
  have "pool_reach device_answers (\<lambda>s. True) small_pool" by (simp add: small_pool_reach)
  moreover have "sy_threads small_pool 0 = Idle" by code_simp
  ultimately have "r = None \<and> c = None \<or> r \<noteq> None" using close_contract [OF _ _ run] by blast
  moreover have "fst (client_close (\<lambda>_. []) (Some (sy_pool small_pool))) = None" by code_simp
  ultimately show ?thesis using run by auto
qed

end
