(* ===== verification/Aicpu_Sampler.thy ===== *)
theory Aicpu_Sampler
  imports Analyzer Py_World
begin

text \<open>
  \<open>flightrecorder/aicpu_sampler.py\<close>: device utilisation read from \<open>npu-smi\<close> in regular rounds, and the
  summary of what was sampled. The sampled file is the list of JSON rows it holds, one per line; the
  results of \<open>npu-smi\<close>, the clocks and the file errors are arguments.
\<close>

subsection \<open>Reading the output of npu-smi\<close>

definition FIELDS :: "(string \<times> string) list" where
  "FIELDS =
     [(''Aicpu Usage Rate(%)'', ''aicpu_pct''), (''Aicore Usage Rate(%)'', ''aicore_pct''),
      (''Aivector Usage Rate(%)'', ''aivector_pct''), (''Ctrlcpu Usage Rate(%)'', ''ctrlcpu_pct'')]"

fun after_prefix :: "string \<Rightarrow> string \<Rightarrow> string option" where
  "after_prefix [] s = Some s"
| "after_prefix (p # ps) [] = None"
| "after_prefix (p # ps) (c # cs) = (if c = p then after_prefix ps cs else None)"

definition newline :: char where "newline = CHR 0x0A"

text \<open>
  The regular expression of one label, tried at a line start: \<open>\s*\<close> also crosses line ends, and the
  \<open>\s*$\<close> after the digits holds at a line end or at the end of the text.
\<close>

definition match_usage :: "string \<Rightarrow> string \<Rightarrow> int option" where
  "match_usage label s =
     (case after_prefix label (dropWhile is_space s) of
        None \<Rightarrow> None
      | Some rest \<Rightarrow>
          (case dropWhile is_space rest of
             [] \<Rightarrow> None
           | c # rest \<Rightarrow>
               (let rest = dropWhile is_space rest; digits = takeWhile is_digit rest;
                    rest = dropWhile is_digit rest
                in if c = CHR '':'' \<and> digits \<noteq> [] \<and>
                      (dropWhile is_space rest = [] \<or> newline \<in> set (takeWhile is_space rest))
                   then Some (int (nat_of_digits digits)) else None)))"

text \<open>\<open>re.search\<close> with \<open>re.M\<close>: the first position at a line start where it matches.\<close>

fun search_lines :: "(string \<Rightarrow> 'a option) \<Rightarrow> bool \<Rightarrow> string \<Rightarrow> 'a option" where
  "search_lines f at_start [] = (if at_start then f [] else None)"
| "search_lines f at_start (c # cs) =
     (case (if at_start then f (c # cs) else None) of
        Some r \<Rightarrow> Some r
      | None \<Rightarrow> search_lines f (c = newline) cs)"

definition parse_usages :: "string \<Rightarrow> (string, int) dict" where
  "parse_usages output = fold (\<lambda>(label, key) values.
     (case search_lines (match_usage label) True output of
        None \<Rightarrow> values | Some v \<Rightarrow> dict_set key v values)) FIELDS []"

subsection \<open>One sample\<close>

text \<open>
  What \<open>subprocess.run\<close> yields: the output, or one of the caught exceptions (\<open>OSError\<close>, \<open>SubprocessError\<close>,
  \<open>ValueError\<close> with their subclasses) by class name and text.
\<close>

datatype smi_result = Smi_Output string | Smi_Failed string string

record sample_row =
  sr_device :: int
  sr_started_wall_ns :: int
  sr_ended_wall_ns :: int
  sr_usage :: "string + (string, int) dict"

definition sample :: "int \<Rightarrow> smi_result \<Rightarrow> int \<Rightarrow> int \<Rightarrow> sample_row" where
  "sample device result started ended =
     \<lparr>sr_device = device, sr_started_wall_ns = started, sr_ended_wall_ns = ended,
      sr_usage = (case result of
         Smi_Failed name text \<Rightarrow> Inl (name @ '': '' @ text)
       | Smi_Output output \<Rightarrow>
           (let values = parse_usages output
            in if dict_get values ''aicpu_pct'' = None
               then Inl ''ValueError: npu-smi output has no Aicpu Usage Rate'' else Inr values))\<rparr>"

definition sample_json :: "sample_row \<Rightarrow> json" where
  "sample_json r = JObj
     ([(''device'', JInt (sr_device r)), (''started_wall_ns'', JInt (sr_started_wall_ns r)),
       (''ended_wall_ns'', JInt (sr_ended_wall_ns r))] @
      (case sr_usage r of
         Inl e \<Rightarrow> [(''error'', JStr e)] | Inr values \<Rightarrow> map (\<lambda>(k, v). (k, JInt v)) values))"

subsection \<open>Capturing\<close>

text \<open>
  One round: the monotonic clock at the loop test, per device the result of \<open>npu-smi\<close> with the wall
  clock around it, and the error of writing or synchronising. \<open>sm_partial\<close> rows are written before a
  write error. The sleep is the end of the round.
\<close>

record sample_round =
  sm_monotonic :: rat
  sm_result :: "nat \<Rightarrow> smi_result"
  sm_started :: "nat \<Rightarrow> int"
  sm_ended :: "nat \<Rightarrow> int"
  sm_partial :: nat
  sm_error :: "os_error option"

datatype capture_status = Capturing | Finished | Capture_Failed py_error

definition sample_devices :: "int list \<Rightarrow> sample_round \<Rightarrow> sample_row list" where
  "sample_devices devices env =
     map (\<lambda>(i, d). sample d (sm_result env i) (sm_started env i) (sm_ended env i)) (enumerate 0 devices)"

fun capture_loop ::
  "int list \<Rightarrow> rat option \<Rightarrow> sample_round list \<Rightarrow> sample_row list \<Rightarrow> capture_status \<times> sample_row list" where
  "capture_loop devices deadline [] rows = (Capturing, rows)"
| "capture_loop devices deadline (env # envs) rows =
     (if (case deadline of None \<Rightarrow> False | Some t \<Rightarrow> \<not> sm_monotonic env < t) then (Finished, rows)
      else case sm_error env of
        Some e \<Rightarrow> (Capture_Failed (raised e), rows @ take (sm_partial env) (sample_devices devices env))
      | None \<Rightarrow> capture_loop devices deadline envs (rows @ sample_devices devices env))"

text \<open>\<open>started\<close> is the monotonic clock before the loop; \<open>opened\<close> the errors of making the directory and of opening.\<close>

definition sample_capture ::
  "int list \<Rightarrow> rat \<Rightarrow> rat option \<Rightarrow> rat \<Rightarrow> os_error option \<Rightarrow> sample_round list \<Rightarrow> sample_row list \<Rightarrow>
    capture_status \<times> sample_row list" where
  "sample_capture devices interval_s duration_s started opened envs rows =
     (if devices = [] \<or> interval_s \<le> 0
      then (Capture_Failed (ValueError ''devices required and interval must be positive''), rows)
      else case opened of
        Some e \<Rightarrow> (Capture_Failed (raised e), rows)
      | None \<Rightarrow> capture_loop devices (map_option (\<lambda>d. to_double (started + d)) duration_s) envs rows)"

subsection \<open>The summary\<close>

definition valid_samples :: "sample_row list \<Rightarrow> (int \<times> sample_row) list" where
  "valid_samples rows = List.map_filter (\<lambda>r. case sr_usage r of
     Inl e \<Rightarrow> None | Inr values \<Rightarrow> map_option (\<lambda>v. (v, r)) (dict_get values ''aicpu_pct'')) rows"

definition error_text :: "sample_row \<Rightarrow> string" where
  "error_text r = (case sr_usage r of Inl e \<Rightarrow> e | Inr values \<Rightarrow> ''None'')"

definition device_line :: "int \<Rightarrow> sample_row list \<Rightarrow> string" where
  "device_line device rows =
     (let valid = valid_samples rows; values = map fst valid
      in if valid = []
         then ''device '' @ str_int device @ '': no valid samples; last error: '' @ error_text (last rows)
         else ''device '' @ str_int device @ '': AICPU mean='' @
              format_fixed 1 (int_div (sum_list values) (int (length valid))) @ ''% peak='' @
              str_int (Max (set values)) @ ''% last='' @ str_int (last values) @ ''% valid='' @
              str_int (int (length valid)) @ ''/'' @ str_int (int (length rows)) @ '' last_wall_ns='' @
              str_int (sr_ended_wall_ns (snd (last valid))))"

definition usage_note :: string where
  "usage_note = ''Device-wide utilization only; it does not identify a process, task, '' @
     ''HCCL operation, or the reason for a wait.''"

definition sample_summary :: "path \<Rightarrow> sample_row list \<Rightarrow> string list" where
  "sample_summary p rows =
     [''file: '' @ path_str p @ ''  samples: '' @ str_int (int (length rows))] @
     map (\<lambda>d. device_line d (filter (\<lambda>r. sr_device r = d) rows)) (sorted_set (map sr_device rows)) @
     [usage_note]"

subsection \<open>The command line\<close>

definition capture_main ::
  "string \<Rightarrow> rat \<Rightarrow> rat option \<Rightarrow> rat \<Rightarrow> os_error option \<Rightarrow> sample_round list \<Rightarrow> sample_row list \<Rightarrow>
    capture_status \<times> sample_row list" where
  "capture_main devices interval_s duration_s started opened envs rows =
     (case parse_ints (str_split (CHR '','') devices) of
        Inl e \<Rightarrow> (Capture_Failed e, rows)
      | Inr ds \<Rightarrow> sample_capture ds interval_s duration_s started opened envs rows)"

subsection \<open>What is read from lines\<close>

lemma search_inside:
  "newline \<notin> set xs \<Longrightarrow> search_lines f False (xs @ newline # rest) = search_lines f True rest"
  by (induction xs) auto

lemma search_line:
  "newline \<notin> set line \<Longrightarrow> search_lines f True (line @ newline # rest) =
    (case f (line @ newline # rest) of Some r \<Rightarrow> Some r | None \<Rightarrow> search_lines f True rest)"
  by (cases line) (auto simp: search_inside split: option.split)

lemma after_prefix_append [simp]: "after_prefix p (p @ s) = Some s"
  by (induction p) simp_all

definition blank :: "string \<Rightarrow> bool" where
  "blank s \<longleftrightarrow> (\<forall>c \<in> set s. is_space c \<and> c \<noteq> newline)"

text \<open>A line as \<open>npu-smi\<close> prints it, with any blanks around its parts.\<close>

record usage_line =
  ul_label :: string
  ul_value :: nat
  ul_pads :: "string \<times> string \<times> string \<times> string"

definition usage_text :: "usage_line \<Rightarrow> string" where
  "usage_text u = (case ul_pads u of (a, b, c, d) \<Rightarrow>
     a @ ul_label u @ b @ '':'' @ c @ str_nat (ul_value u) @ d)"

definition usage_ok :: "usage_line \<Rightarrow> bool" where
  "usage_ok u \<longleftrightarrow> ul_label u \<in> set (map fst FIELDS) \<and>
     (case ul_pads u of (a, b, c, d) \<Rightarrow> blank a \<and> blank b \<and> blank c \<and> blank d)"

lemma newline_facts [simp]: "is_space newline" "\<not> is_digit newline" "newline \<noteq> CHR '':''"
  by (simp_all add: newline_def is_space_def is_digit_def)

lemma digit_not_space: "is_digit c \<Longrightarrow> \<not> is_space c \<and> c \<noteq> newline"
  by (auto simp: is_digit_def is_space_def newline_def)

lemma space_not_digit: "is_space c \<Longrightarrow> \<not> is_digit c"
  using digit_not_space by blast

lemma drop_blank: "blank a \<Longrightarrow> dropWhile is_space (a @ s) = dropWhile is_space s"
  by (simp add: blank_def dropWhile_append2)

lemma label_facts:
  assumes "l \<in> set (map fst FIELDS)"
  shows "l \<noteq> []" "\<not> is_space (hd l)" "newline \<notin> set l"
  using assms by (auto simp: FIELDS_def is_space_def newline_def)

lemma after_prefix_differs:
  "k < length p \<Longrightarrow> k < length q \<Longrightarrow> p ! k \<noteq> q ! k \<Longrightarrow> after_prefix p (q @ s) = None"
proof (induction p arbitrary: q k)
  case (Cons x p)
  then show ?case by (cases q; cases k) auto
qed simp

lemma label_mismatch:
  assumes "l \<in> set (map fst FIELDS)" and "l' \<in> set (map fst FIELDS)" and "l \<noteq> l'"
  shows "after_prefix l (l' @ s) = None"
proof -
  have "\<forall>l \<in> set (map fst FIELDS). \<forall>l' \<in> set (map fst FIELDS). l = l' \<or>
      (\<exists>k \<in> set [0..<8]. k < length l \<and> k < length l' \<and> l ! k \<noteq> l' ! k)" by code_simp
  with assms obtain k where "k < length l" "k < length l'" "l ! k \<noteq> l' ! k" by meson
  then show ?thesis by (rule after_prefix_differs)
qed

lemma str_nat_line: "newline \<notin> set (str_nat v)"
  using str_nat_digits [of v] by auto

lemma usage_text_line: "usage_ok u \<Longrightarrow> newline \<notin> set (usage_text u)"
proof -
  assume ok: "usage_ok u"
  obtain a b c d where pads: "ul_pads u = (a, b, c, d)" by (metis prod_cases4)
  with ok have "newline \<notin> set a \<union> set b \<union> set c \<union> set d" "newline \<notin> set (ul_label u)"
    using label_facts(3) by (auto simp: usage_ok_def blank_def)
  with pads str_nat_line show ?thesis by (simp add: usage_text_def)
qed

lemma label_start: "usage_ok u \<Longrightarrow> dropWhile is_space (usage_text u @ s) =
  (case ul_pads u of (a, b, c, d) \<Rightarrow> ul_label u @ b @ '':'' @ c @ str_nat (ul_value u) @ d @ s)"
  using label_facts(1,2) [of "ul_label u"]
  by (cases "ul_pads u"; cases "ul_label u") (auto simp: usage_ok_def usage_text_def drop_blank)

lemma take_digits: "\<not> is_digit (hd s) \<Longrightarrow> s \<noteq> [] \<Longrightarrow>
    takeWhile is_digit (str_nat v @ s) = str_nat v \<and> dropWhile is_digit (str_nat v @ s) = s"
  using str_nat_digits [of v] by (cases s) (simp_all add: takeWhile_append2 dropWhile_append2)

lemma match_own:
  assumes "usage_ok u"
  shows "match_usage (ul_label u) (usage_text u @ newline # rest) = Some (int (ul_value u))"
proof -
  obtain a b c d where pads: "ul_pads u = (a, b, c, d)" by (metis prod_cases4)
  then have ok: "blank b" "blank c" "blank d" using assms by (simp_all add: usage_ok_def)
  have colon: "\<not> is_space (CHR '':'')" by (simp add: is_space_def)
  have first: "dropWhile is_space (str_nat v @ s) = str_nat v @ s" for v s
    using str_nat_digits [of v] str_nat_nonempty [of v] digit_not_space
    by (cases "str_nat v") auto
  have tail: "\<not> is_digit (hd (d @ newline # rest))" "d @ newline # rest \<noteq> []"
    using ok(3) space_not_digit by (cases d; auto simp: blank_def)+
  have "newline \<in> set (takeWhile is_space (d @ newline # rest))"
    using ok(3) by (simp add: blank_def takeWhile_append2)
  with take_digits [OF tail] label_start [OF assms, of "newline # rest"] pads ok colon first show ?thesis
    by (simp add: match_usage_def drop_blank Let_def)
qed

lemma match_other:
  assumes "usage_ok u" and "l \<in> set (map fst FIELDS)" and "l \<noteq> ul_label u"
  shows "match_usage l (usage_text u @ s) = None"
proof -
  have "ul_label u \<in> set (map fst FIELDS)" using assms(1) by (simp add: usage_ok_def)
  from label_mismatch [OF assms(2) this assms(3)] label_start [OF assms(1), of s] show ?thesis
    by (simp add: match_usage_def split: prod.split)
qed

definition usage_output :: "usage_line list \<Rightarrow> string" where
  "usage_output us = concat (map (\<lambda>u. usage_text u @ [newline]) us)"

lemma search_usage:
  assumes "\<forall>u \<in> set us. usage_ok u" and "l \<in> set (map fst FIELDS)"
  shows "search_lines (match_usage l) True (usage_output us) =
    map_option (\<lambda>u. int (ul_value u)) (find (\<lambda>u. ul_label u = l) us)"
  using assms(1)
proof (induction us)
  case Nil
  have "match_usage l [] = None" using label_facts(1) [OF assms(2)] by (cases l) (simp_all add: match_usage_def)
  then show ?case by (simp add: usage_output_def)
next
  case (Cons u us)
  have split: "usage_output (u # us) = usage_text u @ newline # usage_output us" by (simp add: usage_output_def)
  show ?case
  proof (cases "ul_label u = l")
    case True
    with Cons.prems match_own [of u "usage_output us"] show ?thesis
      by (auto simp: split search_line usage_text_line)
  next
    case False
    with Cons match_other [of u l] assms(2) show ?thesis
      by (auto simp: split search_line usage_text_line)
  qed
qed

end
