(* ===== verification/Device_Ops.thy ===== *)
theory Device_Ops
  imports Analyzer Py_World
begin

text \<open>
  \<open>flightrecorder/device_ops.py\<close>: the list of device kernels from the profiler's CSV files, with the parts of
  \<open>csv.DictReader\<close> it uses. Directory contents and file errors are arguments.
\<close>

subsection \<open>CSV\<close>

text \<open>
  The reader of \<open>csv\<close> with its default dialect: states of the machine, the field and the row read so
  far. A row ends at a line feed, a carriage return or both; an empty line is an empty row.
\<close>

datatype csv_state = Start_Record | After_CR | Start_Field | In_Field | In_Quoted | Quote_In_Quoted

definition row_end :: "char \<Rightarrow> bool" where
  "row_end c \<longleftrightarrow> c = CHR 0x0A \<or> c = CHR 0x0D"

definition quote :: char where "quote = CHR 0x22"

definition next_record :: "char \<Rightarrow> csv_state" where
  "next_record c = (if c = CHR 0x0D then After_CR else Start_Record)"

fun csv_rows :: "csv_state \<Rightarrow> string \<Rightarrow> string list \<Rightarrow> string \<Rightarrow> string list list" where
  "csv_rows Start_Record field row [] = []"
| "csv_rows After_CR field row [] = []"
| "csv_rows st field row [] = [row @ [field]]"
| "csv_rows Start_Record field row (c # cs) =
     (if row_end c then [] # csv_rows (next_record c) [] [] cs
      else if c = quote then csv_rows In_Quoted [] [] cs
      else if c = CHR '','' then csv_rows Start_Field [] [[]] cs
      else csv_rows In_Field [c] [] cs)"
| "csv_rows After_CR field row (c # cs) =
     (if c = CHR 0x0A then csv_rows Start_Record [] [] cs
      else if row_end c then [] # csv_rows (next_record c) [] [] cs
      else if c = quote then csv_rows In_Quoted [] [] cs
      else if c = CHR '','' then csv_rows Start_Field [] [[]] cs
      else csv_rows In_Field [c] [] cs)"
| "csv_rows Start_Field field row (c # cs) =
     (if row_end c then (row @ [field]) # csv_rows (next_record c) [] [] cs
      else if c = quote then csv_rows In_Quoted [] row cs
      else if c = CHR '','' then csv_rows Start_Field [] (row @ [field]) cs
      else csv_rows In_Field [c] row cs)"
| "csv_rows In_Field field row (c # cs) =
     (if row_end c then (row @ [field]) # csv_rows (next_record c) [] [] cs
      else if c = CHR '','' then csv_rows Start_Field [] (row @ [field]) cs
      else csv_rows In_Field (field @ [c]) row cs)"
| "csv_rows In_Quoted field row (c # cs) =
     (if c = quote then csv_rows Quote_In_Quoted field row cs
      else csv_rows In_Quoted (field @ [c]) row cs)"
| "csv_rows Quote_In_Quoted field row (c # cs) =
     (if c = quote then csv_rows In_Quoted (field @ [c]) row cs
      else if row_end c then (row @ [field]) # csv_rows (next_record c) [] [] cs
      else if c = CHR '','' then csv_rows Start_Field [] (row @ [field]) cs
      else csv_rows In_Field (field @ [c]) row cs)"

text \<open>
  A row of \<open>DictReader\<close>: the values under the field names, \<open>None\<close> for the fields a short row lacks; what
  a long row has beyond them is not used here. \<open>DictReader\<close> skips the empty rows behind the first.
\<close>

type_synonym csv_row = "(string, string option) dict"

definition dict_row :: "string list \<Rightarrow> string list \<Rightarrow> csv_row" where
  "dict_row names row = fold (\<lambda>(i, n). dict_set n (if i < length row then Some (row ! i) else None))
     (enumerate 0 names) []"

definition dict_rows :: "string \<Rightarrow> csv_row list" where
  "dict_rows text =
     (case csv_rows Start_Record [] [] text of
        [] \<Rightarrow> []
      | names # rows \<Rightarrow> map (dict_row names) (filter (\<lambda>r. r \<noteq> []) rows))"

subsection \<open>The summary\<close>

text \<open>\<open>f"{row.get(key, '?')}"\<close>, and \<open>row.get(key, '').strip()\<close>, which fails on \<open>None\<close>.\<close>

definition shown_field :: "csv_row \<Rightarrow> string \<Rightarrow> string" where
  "shown_field row key = (case dict_get row key of None \<Rightarrow> ''?'' | Some None \<Rightarrow> ''None'' | Some (Some v) \<Rightarrow> v)"

definition stripped_field :: "csv_row \<Rightarrow> string \<Rightarrow> py_error + string" where
  "stripped_field row key = (case dict_get row key of
     None \<Rightarrow> Inr [] | Some None \<Rightarrow> Inl AttributeError | Some (Some v) \<Rightarrow> Inr (str_strip v))"

definition kernel_line :: "csv_row \<Rightarrow> py_error + string" where
  "kernel_line row =
     (case stripped_field row ''Start Time(us)'' of
        Inl e \<Rightarrow> Inl e
      | Inr start \<Rightarrow>
          (case stripped_field row ''Duration(us)'' of
             Inl e \<Rightarrow> Inl e
           | Inr duration \<Rightarrow> Inr (''  device='' @ shown_field row ''Device_id'' @ '' start_us='' @ start @
                 '' duration_us='' @ duration @ '' name='' @ shown_field row ''Name'')))"

text \<open>
  The directory: its entries, per entry the \<open>kernel_details.csv\<close> files below it, the text or the error
  of opening a file, and the error of writing the output.
\<close>

record profiles =
  pf_entries :: "string list"
  pf_files :: "string \<Rightarrow> path list"
  pf_text :: "path \<Rightarrow> os_error + string"
  pf_write :: "os_error option"

definition read_rows :: "profiles \<Rightarrow> string \<Rightarrow> py_error + csv_row list" where
  "read_rows env name = map_sum id concat
     (collect (\<lambda>p. case pf_text env p of Inl e \<Rightarrow> Inl (raised e) | Inr text \<Rightarrow> Inr (Some (dict_rows text)))
        (sort (pf_files env name)))"

type_synonym ops_state = "(int, int) dict \<times> string list"

definition rank_ops :: "profiles \<Rightarrow> string \<Rightarrow> ops_state \<Rightarrow> py_error option \<times> ops_state" where
  "rank_ops env name s =
     (case parse_int (drop 4 name) of
        Inl e \<Rightarrow> (None, s)
      | Inr rank \<Rightarrow>
          (case read_rows env name of
             Inl e \<Rightarrow> (Some e, s)
           | Inr rows \<Rightarrow>
               (let counts = dict_set rank (int (length rows)) (fst s);
                    lines = snd s @ [[], ''RANK '' @ str_int rank @ '': device_kernel_count='' @ str_int (int (length rows))]
                in case collect (\<lambda>row. map_sum id Some (kernel_line row)) rows of
                     Inl e \<Rightarrow> (Some e, (counts, lines))
                   | Inr shown \<Rightarrow> (None, (counts, lines @ shown @
                       (if rows = [] then [''  no parsed kernel_details.csv found''] else []))))))"

definition ops_heading :: "string list" where
  "ops_heading =
     [''Ascend device kernels from completed profiler windows'',
      ''These are executed device kernels recorded before the controlled hang.'',
      ''They do not prove completion of tasks submitted after profiler stop.'']"

definition rank_dirs :: "profiles \<Rightarrow> string list" where
  "rank_dirs env = sort (filter (\<lambda>n. str_startswith n ''rank'') (pf_entries env))"

text \<open>The result and the text written, or the exception.\<close>

definition summarize :: "profiles \<Rightarrow> py_error + (int, int) dict \<times> string list" where
  "summarize env =
     (case run_ops (map (rank_ops env) (rank_dirs env)) ([], ops_heading) of
        (Some e, _) \<Rightarrow> Inl e
      | (None, (counts, lines)) \<Rightarrow>
          (case pf_write env of Some e \<Rightarrow> Inl (raised e) | None \<Rightarrow> Inr (counts, lines)))"

subsection \<open>When it fails\<close>

text \<open>A row that ends before one of the two columns whose text is stripped.\<close>

definition cut_short :: "csv_row \<Rightarrow> bool" where
  "cut_short row \<longleftrightarrow> dict_get row ''Start Time(us)'' = Some None \<or> dict_get row ''Duration(us)'' = Some None"

definition all_rows :: "profiles \<Rightarrow> string \<Rightarrow> csv_row list" where
  "all_rows env name = concat (map (\<lambda>p. dict_rows (projr (pf_text env p))) (sort (pf_files env name)))"

definition readable :: "profiles \<Rightarrow> bool" where
  "readable env \<longleftrightarrow> (\<forall>name \<in> set (rank_dirs env). \<forall>p \<in> set (pf_files env name). \<exists>text. pf_text env p = Inr text)"

lemma kernel_line_cases:
  "if cut_short row then kernel_line row = Inl AttributeError else (\<exists>text. kernel_line row = Inr text)"
  by (auto simp: cut_short_def kernel_line_def stripped_field_def split: option.splits)

lemma read_rows_readable:
  assumes "readable env" and "name \<in> set (rank_dirs env)"
  shows "read_rows env name = Inr (all_rows env name)"
proof -
  have ok: "pf_text env p = Inr (projr (pf_text env p))" if "p \<in> set (sort (pf_files env name))" for p
    using assms that by (fastforce simp: readable_def)
  have "collect (\<lambda>p. case pf_text env p of Inl e \<Rightarrow> Inl (raised e) | Inr text \<Rightarrow> Inr (Some (dict_rows text)))
      (sort (pf_files env name)) = Inr (map (\<lambda>p. dict_rows (projr (pf_text env p))) (sort (pf_files env name)))"
    by (rule collect_map) (subst ok, simp_all)
  then show ?thesis by (simp add: read_rows_def all_rows_def)
qed

lemma collect_lines:
  "if list_ex cut_short rows then collect (\<lambda>row. map_sum id Some (kernel_line row)) rows = Inl AttributeError
   else (\<exists>shown. collect (\<lambda>row. map_sum id Some (kernel_line row)) rows = Inr shown)"
proof (induction rows)
  case (Cons row rows)
  then show ?case using kernel_line_cases [of row] by (auto split: if_splits)
qed simp

lemma rank_ops_cases:
  assumes "readable env" and "name \<in> set (rank_dirs env)"
  shows "fst (rank_ops env name s) =
    (if (\<exists>rank. parse_int (drop 4 name) = Inr rank) \<and> list_ex cut_short (all_rows env name)
     then Some AttributeError else None)"
  using collect_lines [of "all_rows env name"] read_rows_readable [OF assms]
  by (auto simp: rank_ops_def Let_def split: sum.split if_splits)

lemma run_rank_ops:
  assumes "readable env" and "set names \<subseteq> set (rank_dirs env)"
  shows "fst (run_ops (map (rank_ops env) names) s) =
    (if \<exists>name \<in> set names. (\<exists>rank. parse_int (drop 4 name) = Inr rank) \<and> list_ex cut_short (all_rows env name)
     then Some AttributeError else None)"
  using assms(2)
proof (induction names arbitrary: s)
  case (Cons name names)
  have "fst (rank_ops env name s) =
    (if (\<exists>rank. parse_int (drop 4 name) = Inr rank) \<and> list_ex cut_short (all_rows env name)
     then Some AttributeError else None)" using Cons.prems by (intro rank_ops_cases [OF assms(1)]) simp
  with Cons show ?case by (cases "rank_ops env name s") (auto split: option.splits if_splits)
qed simp

end
