(* ===== verification/Sampling_Properties.thy ===== *)
theory Sampling_Properties
  imports Aicpu_Sampler Device_Ops
begin

text \<open>
  What the two helpers for device data promise: reading the output of \<open>npu-smi\<close>, the accounting of the
  sampled file, and when the list of device kernels can be written.
\<close>

subsection \<open>Utilisation\<close>

lemma FIELDS_labels: "distinct (map fst FIELDS)" "distinct (map snd FIELDS)"
  by (simp_all add: FIELDS_def)

lemma parse_fold_get:
  assumes "distinct (map snd pairs)"
  shows "dict_get (fold (\<lambda>(label, key) values. case f label of None \<Rightarrow> values | Some v \<Rightarrow> dict_set key v values) pairs d) k =
    (case find (\<lambda>(label, key). key = k) pairs of
       None \<Rightarrow> dict_get d k
     | Some (label, key) \<Rightarrow> (case f label of None \<Rightarrow> dict_get d k | Some v \<Rightarrow> Some v))"
  using assms
proof (induction pairs arbitrary: d)
  case (Cons x pairs)
  obtain label key where x: "x = (label, key)" by force
  show ?case
  proof (cases "key = k")
    case True
    with Cons.prems x have "find (\<lambda>(label, key). key = k) pairs = None" by (force simp: find_None_iff)
    with Cons x True show ?thesis by (auto simp: py_dict split: option.split)
  next
    case False
    with Cons x show ?thesis by (auto simp: py_dict split: option.split)
  qed
qed simp

text \<open>C36: \<open>parse_usages\<close> reads back what \<open>npu-smi\<close> prints: for any lines of the form label, colon, decimal
  value, in any order, with any blanks around the parts, the result has for each of the four fields
  the value of the first line with its label, and no entry when there is none.\<close>

theorem usages_roundtrip:
  assumes "\<forall>u \<in> set us. usage_ok u" and "(label, key) \<in> set FIELDS"
  shows "dict_get (parse_usages (usage_output us)) key =
    map_option (\<lambda>u. int (ul_value u)) (find (\<lambda>u. ul_label u = label) us)"
proof -
  have "find (\<lambda>(label, k). k = key) FIELDS = Some (label, key)"
    using assms(2) by (auto simp: FIELDS_def)
  moreover have "label \<in> set (map fst FIELDS)" using assms(2) by force
  ultimately show ?thesis
    using parse_fold_get [OF FIELDS_labels(2), of "\<lambda>l. search_lines (match_usage l) True (usage_output us)" "[]" key]
      search_usage [OF assms(1)]
    by (simp add: parse_usages_def split: option.split)
qed

theorem usages_roundtrip_witness:
  "dict_get (parse_usages (usage_output
     [\<lparr>ul_label = ''Aicore Usage Rate(%)'', ul_value = 12, ul_pads = ([CHR 0x09], '' '', '' '', [])\<rparr>,
      \<lparr>ul_label = ''Aicpu Usage Rate(%)'', ul_value = 63, ul_pads = ([], '' '', '' '', '' '')\<rparr>])) ''aicpu_pct'' = Some 63"
  using usages_roundtrip [of
     "[\<lparr>ul_label = ''Aicore Usage Rate(%)'', ul_value = 12, ul_pads = ([CHR 0x09], '' '', '' '', [])\<rparr>,
      \<lparr>ul_label = ''Aicpu Usage Rate(%)'', ul_value = 63, ul_pads = ([], '' '', '' '', '' '')\<rparr>]"
     "''Aicpu Usage Rate(%)''" "''aicpu_pct''"]
  by (simp add: usage_ok_def FIELDS_def blank_def is_space_def newline_def)

subsection \<open>Rounds of samples\<close>

text \<open>The rounds that run before the deadline, and the samples of one device in them.\<close>

definition rounds_before :: "rat option \<Rightarrow> sample_round list \<Rightarrow> sample_round list" where
  "rounds_before deadline envs =
     takeWhile (\<lambda>env. case deadline of None \<Rightarrow> True | Some t \<Rightarrow> sm_monotonic env < t) envs"

definition samples_of :: "int list \<Rightarrow> int \<Rightarrow> sample_round list \<Rightarrow> sample_row list" where
  "samples_of devices d envs = concat (map (\<lambda>env. filter (\<lambda>r. sr_device r = d) (sample_devices devices env)) envs)"

lemma capture_loop_rows:
  assumes "\<forall>env \<in> set (rounds_before deadline envs). sm_error env = None"
  shows "capture_loop devices deadline envs rows =
    (if rounds_before deadline envs = envs then Capturing else Finished,
     rows @ concat (map (sample_devices devices) (rounds_before deadline envs)))"
  using assms
proof (induction envs arbitrary: rows)
  case (Cons env envs)
  then show ?case by (cases deadline) (auto simp: rounds_before_def)
qed (simp add: rounds_before_def)

lemma sample_devices_ids: "map sr_device (sample_devices devices env) = devices"
proof -
  have "map sr_device (sample_devices devices env) = map snd (enumerate 0 devices)"
    by (simp add: sample_devices_def sample_def comp_def case_prod_beta)
  then show ?thesis by simp
qed

lemma filter_concat_samples:
  "filter (\<lambda>r. sr_device r = d) (concat (map (sample_devices devices) envs)) = samples_of devices d envs"
  by (induction envs) (simp_all add: samples_of_def)

lemma samples_of_length:
  "length (samples_of devices d envs) = length envs * count_list devices d"
proof (induction envs)
  case (Cons env envs)
  have "length (filter (\<lambda>r. sr_device r = d) rs) = count_list (map sr_device rs) d" for rs
    by (induction rs) auto
  from this [of "sample_devices devices env"] Cons show ?case
    by (simp add: samples_of_def sample_devices_ids)
qed (simp add: samples_of_def)

text \<open>C37: A capture into an empty file that no write error stops, summarised afterwards: the file has one row per
  device and round, in order; the summary counts them all and has one line per device in ascending
  order, each made of exactly the samples of that device, as many as rounds were run (times how often
  the device was given).\<close>

theorem sampling_accounted:
  assumes "devices \<noteq> []" and "0 < interval"
    and "deadline = map_option (\<lambda>d. to_double (started + d)) duration"
    and "\<forall>env \<in> set (rounds_before deadline envs). sm_error env = None"
    and "rounds_before deadline envs \<noteq> []"
    and "sample_capture devices interval duration started None envs [] = (st, rows)"
  shows "st \<in> {Capturing, Finished} \<and>
    length rows = length (rounds_before deadline envs) * length devices \<and>
    sample_summary p rows =
      [''file: '' @ path_str p @ ''  samples: '' @ str_int (int (length rows))] @
      map (\<lambda>d. device_line d (samples_of devices d (rounds_before deadline envs))) (sorted_set devices) @ [usage_note] \<and>
    (\<forall>d. length (samples_of devices d (rounds_before deadline envs)) =
       length (rounds_before deadline envs) * count_list devices d)"
proof -
  let ?envs = "rounds_before deadline envs"
  from assms(1-3,6) have "capture_loop devices deadline envs [] = (st, rows)"
    by (simp add: sample_capture_def)
  with capture_loop_rows [OF assms(4), of devices "[]"]
  have rows: "st \<in> {Capturing, Finished}" "rows = concat (map (sample_devices devices) ?envs)"
    by (auto split: if_splits)
  have ids: "map sr_device (concat (map (sample_devices devices) es)) = concat (replicate (length es) devices)" for es
    by (induction es) (simp_all add: sample_devices_ids)
  have "length rows = length (map sr_device rows)" by simp
  also have "\<dots> = length ?envs * length devices"
    unfolding rows(2) ids by (induction "length ?envs") (simp_all add: length_concat sum_list_replicate)
  finally have len: "length rows = length ?envs * length devices" .
  have "set (map sr_device rows) = set devices"
    unfolding rows(2) ids using assms(5) by auto
  then have sorted: "sorted_set (map sr_device rows) = sorted_set devices"
    by (intro sorted_distinct_set_unique) simp_all
  have "filter (\<lambda>r. sr_device r = d) rows = samples_of devices d ?envs" for d
    unfolding rows(2) by (rule filter_concat_samples)
  with rows(1) len sorted samples_of_length show ?thesis by (simp add: sample_summary_def)
qed

text \<open>Two devices, of which the second does not answer.\<close>

definition demo_sample :: sample_round where
  "demo_sample = \<lparr>sm_monotonic = 0,
     sm_result = (\<lambda>i. if i = 0 then Smi_Output ''Aicpu Usage Rate(%) : 63'' else Smi_Failed ''TimeoutExpired'' ''timed out''),
     sm_started = (\<lambda>i. 1), sm_ended = (\<lambda>i. 2), sm_partial = 0, sm_error = None\<rparr>"

theorem sampling_accounted_witness:
  "length (sample_summary (Path [''u.jsonl'']) (snd (sample_capture [5, 4] 1 None 0 None [demo_sample, demo_sample] []))) = 4"
proof -
  let ?envs = "[demo_sample, demo_sample]"
  have all: "rounds_before None ?envs = ?envs" by (simp add: rounds_before_def)
  obtain st rows where run: "sample_capture [5, 4] 1 None 0 None ?envs [] = (st, rows)" by force
  from sampling_accounted [where deadline = None, OF _ _ _ _ _ run, of "Path [''u.jsonl'']"] all run
  have "sample_summary (Path [''u.jsonl'']) rows =
      [''file: '' @ path_str (Path [''u.jsonl'']) @ ''  samples: '' @ str_int (int (length rows))] @
      map (\<lambda>d. device_line d (samples_of [5, 4] d ?envs)) (sorted_set [5, 4]) @ [usage_note]"
    by (simp add: demo_sample_def)
  then have "length (sample_summary (Path [''u.jsonl'']) rows) = 2 + length (sorted_set [5, 4])" by simp
  moreover have "sorted_set [5, 4] = [4, 5]" by (simp add: sorted_set_def)
  ultimately show ?thesis by (simp add: run)
qed

subsection \<open>Device kernels\<close>

lemma rank_ops_counts:
  assumes "readable env" and "set names \<subseteq> set (rank_dirs env)"
    and "run_ops (map (rank_ops env) names) ([], ls) = (None, (counts, lines))"
  shows "dict_get counts rank = map_option (\<lambda>name. int (length (all_rows env name)))
    (last_opt (filter (\<lambda>name. parse_int (drop 4 name) = Inr rank) names))"
  using assms(2,3)
proof (induction names arbitrary: counts lines rule: rev_induct)
  case (snoc name names)
  obtain counts' lines' where before: "run_ops (map (rank_ops env) names) ([], ls) = (None, (counts', lines'))"
    and last: "rank_ops env name (counts', lines') = (None, (counts, lines))"
    using snoc.prems(2) by (auto simp: run_ops_append split: prod.splits option.splits)
  note IH = snoc.IH [OF _ before]
  have rows: "read_rows env name = Inr (all_rows env name)"
    using snoc.prems(1) by (intro read_rows_readable [OF assms(1)]) simp
  from last have "counts = (case parse_int (drop 4 name) of
      Inl e \<Rightarrow> counts' | Inr r \<Rightarrow> dict_set r (int (length (all_rows env name))) counts')"
    by (auto simp: rank_ops_def rows Let_def split: sum.splits)
  with IH snoc.prems(1) show ?case by (auto simp: py_dict split: sum.split)
qed simp

text \<open>C38: With readable files the kernel list is written exactly if no data row of any rank directory ends
  before its start time or duration column; one such row, as a profiler leaves it that is killed while
  writing, makes the whole summary fail with \<open>AttributeError\<close>. Otherwise the count of a rank is the number
  of data rows of its (last) directory.\<close>

theorem kernel_summary_outcome:
  assumes "readable env" and "pf_write env = None"
  shows "(summarize env = Inl AttributeError \<longleftrightarrow> (\<exists>name \<in> set (rank_dirs env).
      (\<exists>rank. parse_int (drop 4 name) = Inr rank) \<and> list_ex cut_short (all_rows env name))) \<and>
    (summarize env = Inl AttributeError \<or> (\<exists>counts lines. summarize env = Inr (counts, lines) \<and>
      (\<forall>rank. dict_get counts rank = map_option (\<lambda>name. int (length (all_rows env name)))
         (last_opt (filter (\<lambda>name. parse_int (drop 4 name) = Inr rank) (rank_dirs env))))))"
proof -
  obtain r counts lines where run: "run_ops (map (rank_ops env) (rank_dirs env)) ([], ops_heading) = (r, (counts, lines))"
    by (metis prod_cases3)
  with run_rank_ops [OF assms(1) subset_refl, of "([], ops_heading)"]
  have r: "r = (if \<exists>name \<in> set (rank_dirs env). (\<exists>rank. parse_int (drop 4 name) = Inr rank) \<and>
      list_ex cut_short (all_rows env name) then Some AttributeError else None)" by simp
  show ?thesis
  proof (cases r)
    case None
    with r run rank_ops_counts [OF assms(1) subset_refl, of ops_heading counts lines] assms(2) show ?thesis
      by (auto simp: summarize_def split: if_splits)
  next
    case (Some e)
    with r run show ?thesis by (auto simp: summarize_def split: if_splits)
  qed
qed

text \<open>A CSV file whose last row was cut off.\<close>

definition cut_profiles :: profiles where
  "cut_profiles = \<lparr>pf_entries = [''rank7''], pf_files = (\<lambda>_. [Path [''kernel_details.csv'']]),
     pf_text = (\<lambda>_. Inr (''Device_id,Name,Start Time(us),Duration(us)'' @ [CHR 0x0A] @ ''7,MatMul'')), pf_write = None\<rparr>"

theorem kernel_summary_outcome_witness: "summarize cut_profiles = Inl AttributeError"
proof -
  have "readable cut_profiles" by (simp add: readable_def cut_profiles_def)
  moreover have "rank_dirs cut_profiles = [''rank7'']" by code_simp
  moreover have "parse_int (drop 4 ''rank7'') = Inr 7" by code_simp
  moreover have "list_ex cut_short (all_rows cut_profiles ''rank7'')" by code_simp
  moreover have "pf_write cut_profiles = None" by (simp add: cut_profiles_def)
  ultimately show ?thesis using kernel_summary_outcome by simp
qed

end
