(* ===== verification/Hccl_Worker.thy ===== *)
theory Hccl_Worker
  imports Recorder_Client Analyzer
begin

text \<open>
  \<open>worker\<close> in \<open>examples/four_card_hccl_hang.py\<close>: one rank of the four-card reproduction. Its statements
  are a list of steps in the order of the source; calls into torch, HCCL, the profiler and the
  checkpoint library are steps that return, raise or never return, as \<open>ww_outcome\<close> says for their
  line. The recorder is the one of \<open>Recorder_Client\<close>, shared with the poller thread of the
  checkpoint library, which records in between. \<open>recorder.record\<close> is atomic here.
\<close>

definition DEVICES :: "int list" where "DEVICES = [4, 5, 6, 7]"
definition COMM :: int where "COMM = 700"
definition COLLECTIVE_TYPE_ALLREDUCE :: int where "COLLECTIVE_TYPE_ALLREDUCE = 1"

subsection \<open>The program\<close>

datatype worker_step =
    Call nat string
  | Open_Recorder
  | Record client_call
  | Submit nat int int
  | Await_Start
  | Await_Checkpoints
  | Sleep_Forever

text \<open>The arguments, and the numbers torch yields: stream pointers and element counts.\<close>

record worker_args =
  wk_device :: int
  wk_missing_rank :: int
  wk_checkpoint_library :: bool
  wk_device_profile :: bool

record torch_facts =
  tf_compute :: int
  tf_transfer :: int
  tf_default :: int
  tf_z_numel :: int
  tf_kv_numel :: int
  tf_result_numel :: int

text \<open>\<open>int(stream.npu_stream) & 0xFFFFFFFF\<close>.\<close>

definition stream_id :: "int \<Rightarrow> int" where
  "stream_id handle = handle mod 2 ^ 32"

definition note_call :: "string \<Rightarrow> int \<Rightarrow> int \<Rightarrow> int \<Rightarrow> int \<Rightarrow> worker_step" where
  "note_call name stream correlation arg0 arg1 = Record
     \<lparr>cc_name = name, cc_stream = stream, cc_correlation = correlation, cc_arg0 = arg0, cc_arg1 = arg1,
      cc_flags = 0\<rparr>"

definition worker_setup :: "worker_args \<Rightarrow> worker_step list" where
  "worker_setup a =
     [Call 38 ''torch.npu.set_device'', Call 39 ''dist.init_process_group'', Call 41 ''torch.npu.Stream'',
      Call 42 ''torch.npu.Stream'', Open_Recorder, Call 48 ''torch.npu.current_stream''] @
     (if wk_checkpoint_library a
      then [Call 51 ''CannCheckpointManager'', Call 52 ''register_stream'', Call 53 ''register_stream'',
            Call 54 ''register_stream'', Call 55 ''start_poller''] else []) @
     [Call 56 ''rank.ready'', Await_Start] @
     (if wk_device_profile a
      then [Call 63 ''tensorboard_trace_handler'', Call 65 ''profile'', Call 70 ''profiler.start''] else [])"

definition worker_model :: "worker_args \<Rightarrow> torch_facts \<Rightarrow> worker_step list" where
  "worker_model a t =
     (let rank = wk_device a; compute_id = stream_id (tf_compute t); transfer_id = stream_id (tf_transfer t)
      in [note_call ''REQUEST_BEGIN'' 0 101 131072 0, note_call ''SCHEDULER_BEGIN'' 0 1 0 0,
          note_call ''MODEL_BEGIN'' compute_id 1 0 0,
          Call 76 ''torch.randn'', Call 77 ''torch.randn'', Call 78 ''matmul'', Call 79 ''torch.npu.Event'',
          Call 80 ''ready.record'',
          note_call ''EVENT_RECORD'' compute_id (1000 + rank) 0 0,
          note_call ''KV_BEGIN'' transfer_id (2000 + rank) rank (tf_z_numel t),
          Call 85 ''transfer.wait_event'',
          note_call ''EVENT_WAIT'' transfer_id (1000 + rank) 0 0,
          Call 87 ''clone'', Call 88 ''torch.npu.Event'', Call 89 ''transferred.record'',
          note_call ''EVENT_RECORD'' transfer_id (2000 + rank) 0 0,
          note_call ''KV_END'' transfer_id (2000 + rank) rank (tf_kv_numel t)] @
         (if wk_checkpoint_library a then [Submit 94 transfer_id 6001] else []) @
         [Call 96 ''compute.wait_event'',
          note_call ''EVENT_WAIT'' compute_id (2000 + rank) 0 0,
          Call 98 ''matmul'',
          note_call ''MODEL_END'' compute_id 1 0 0] @
         (if wk_checkpoint_library a then [Submit 101 compute_id 5001] else []) @
         [note_call ''DEVICE_SYNC_BEGIN'' 0 1 0 0, Call 103 ''torch.npu.synchronize'',
          note_call ''DEVICE_SYNC_END'' 0 1 0 0,
          note_call ''DEVICE_CONFIRMED'' 0 1 (tf_result_numel t) 0])"

definition worker_first :: "worker_args \<Rightarrow> torch_facts \<Rightarrow> worker_step list" where
  "worker_first a t =
     (let default_id = stream_id (tf_default t)
      in [Call 108 ''torch.ones'', note_call ''HCCL_BEGIN'' default_id 1 COMM COLLECTIVE_TYPE_ALLREDUCE,
          Call 111 ''dist.all_reduce'', note_call ''HCCL_END'' default_id 1 COMM COLLECTIVE_TYPE_ALLREDUCE] @
         (if wk_checkpoint_library a then [Submit 115 default_id 7101] else []) @
         [Call 116 ''torch.npu.synchronize'', Call 117 ''assert torch.allclose'',
          note_call ''DEVICE_CONFIRMED'' 0 1 10 0] @
         (if wk_checkpoint_library a then [Await_Checkpoints] else []) @
         [note_call ''SCHEDULER_END'' 0 1 0 0] @
         (if wk_device_profile a then [Call 132 ''profiler.stop'', note_call ''CHECKPOINT'' 0 1 1 0] else []))"

definition worker_second :: "worker_args \<Rightarrow> torch_facts \<Rightarrow> worker_step list" where
  "worker_second a t =
     (let rank = wk_device a; default_id = stream_id (tf_default t); transfer_id = stream_id (tf_transfer t)
      in note_call ''SCHEDULER_BEGIN'' 0 2 0 0 #
         (if rank = wk_missing_rank a
          then [note_call ''KV_BEGIN'' transfer_id (3000 + rank) rank 4096, Sleep_Forever]
          else [note_call ''HCCL_BEGIN'' default_id 2 COMM COLLECTIVE_TYPE_ALLREDUCE,
                Call 144 ''dist.all_reduce'',
                note_call ''HCCL_END'' default_id 2 COMM COLLECTIVE_TYPE_ALLREDUCE] @
               (if wk_checkpoint_library a then [Submit 148 default_id 7102] else []) @
               [note_call ''DEVICE_SYNC_BEGIN'' 0 2 0 0, Call 150 ''torch.npu.synchronize'',
                note_call ''DEVICE_SYNC_END'' 0 2 0 0, note_call ''DEVICE_CONFIRMED'' 0 2 0 0]))"

definition worker_program :: "worker_args \<Rightarrow> torch_facts \<Rightarrow> worker_step list" where
  "worker_program a t = worker_setup a @ worker_model a t @ worker_first a t @ worker_second a t"

subsection \<open>Running it\<close>

datatype outcome = Returns | Raises py_error | Blocks

record worker_world =
  ww_args :: worker_args
  ww_torch :: torch_facts
  ww_outcome :: "nat \<Rightarrow> outcome"
  ww_recorder :: recorder_env
  ww_base :: path

text \<open>
  What is left to do, the recorder, the last sequence number returned, how many records the recorder
  has received (a quantity of the proof, not of the code), and the exception that ended the worker.
\<close>

record worker_state =
  ws_todo :: "worker_step list"
  ws_ring :: "shm option"
  ws_seq :: int
  ws_records :: nat
  ws_failed :: "py_error option"

definition worker_start :: "worker_world \<Rightarrow> worker_state" where
  "worker_start w = \<lparr>ws_todo = worker_program (ww_args w) (ww_torch w), ws_ring = None, ws_seq = 0,
     ws_records = 0, ws_failed = None\<rparr>"

text \<open>
  What a step meets: clock and thread of a record, the records the checkpoint library makes inside a
  submission, whether the \<open>START\<close> file exists, whether the deadline of the checkpoint loop is over.
\<close>

record moment =
  mo_now :: u64
  mo_tid :: u32
  mo_library :: "record_call list"
  mo_started :: bool
  mo_expired :: bool

definition confirmed_ids :: "event list \<Rightarrow> int list" where
  "confirmed_ids es = map ev_correlation_id (filter (\<lambda>e. ev_type e = ''DEVICE_CONFIRMED'') es)"

text \<open>One round of the loop that reads the own file back.\<close>

definition await_checkpoints :: "worker_world \<Rightarrow> moment \<Rightarrow> worker_state \<Rightarrow> worker_state" where
  "await_checkpoints w mo s =
     (case ws_ring s of
        None \<Rightarrow> s
      | Some m \<Rightarrow>
          (case read_events (\<lambda>_ _. Inr (file_image m))
                  (recorder_path (ww_base w) (wk_device (ww_args w)) (ie_pid (ww_recorder w))) of
             Inl e \<Rightarrow> s\<lparr>ws_failed := Some e\<rparr>
           | Inr (h, es) \<Rightarrow>
               if {5001, 6001, 7101} \<subseteq> set (confirmed_ids es) then s\<lparr>ws_todo := tl (ws_todo s)\<rparr>
               else if mo_expired mo
               then s\<lparr>ws_failed := Some (OSError ''completed first-step checkpoints were not observed'')\<rparr>
               else s))"

definition finish_call :: "worker_world \<Rightarrow> nat \<Rightarrow> worker_state \<Rightarrow> worker_state" where
  "finish_call w line s =
     (case ww_outcome w line of
        Returns \<Rightarrow> s\<lparr>ws_todo := tl (ws_todo s)\<rparr>
      | Raises e \<Rightarrow> s\<lparr>ws_failed := Some e\<rparr>
      | Blocks \<Rightarrow> s)"

definition library_stores :: "record_call list \<Rightarrow> worker_state \<Rightarrow> worker_state" where
  "library_stores cs s =
     s\<lparr>ws_ring := map_option (fold store_event cs) (ws_ring s), ws_records := ws_records s + length cs\<rparr>"

definition worker_move :: "worker_world \<Rightarrow> moment \<Rightarrow> worker_state \<Rightarrow> worker_state" where
  "worker_move w mo s =
     (if ws_failed s \<noteq> None then s
      else case ws_todo s of
        [] \<Rightarrow> s
      | Call line what # _ \<Rightarrow> finish_call w line s
      | Open_Recorder # rest \<Rightarrow>
          (case recorder_init (ww_recorder w) (ww_base w) (wk_device (ww_args w)) (wk_device (ww_args w)) 4096
                  (ws_ring s) of
             (Inl e, cur) \<Rightarrow> s\<lparr>ws_failed := Some e, ws_ring := cur\<rparr>
           | (Inr p, cur) \<Rightarrow> s\<lparr>ws_todo := rest, ws_ring := cur, ws_records := 0\<rparr>)
      | Record c # rest \<Rightarrow>
          (case recorder_record True (mo_now mo) (mo_tid mo) c (ws_ring s) of
             (Inl e, cur) \<Rightarrow> s\<lparr>ws_failed := Some e, ws_ring := cur\<rparr>
           | (Inr seq, cur) \<Rightarrow> s\<lparr>ws_todo := rest, ws_ring := cur, ws_seq := seq, ws_records := Suc (ws_records s)\<rparr>)
      | Submit line stream checkpoint_id # _ \<Rightarrow>
          finish_call w line (library_stores (mo_library mo) s)
      | Await_Start # rest \<Rightarrow> if mo_started mo then s\<lparr>ws_todo := rest\<rparr> else s
      | Await_Checkpoints # _ \<Rightarrow> await_checkpoints w mo s
      | Sleep_Forever # _ \<Rightarrow> s)"

text \<open>
  What the checkpoint library records: a submission its outcome, for the stream, the identifier and
  the sequence number it was given; a poll confirmations and observations, never a submission.
\<close>

definition submit_record :: "worker_state \<Rightarrow> record_call \<Rightarrow> bool" where
  "submit_record s c \<longleftrightarrow> (\<exists>line stream checkpoint_id rest. ws_todo s = Submit line stream checkpoint_id # rest \<and>
     rc_type c = 23 \<and> rc_stream c = word_of_int stream \<and> rc_correlation c = word_of_int checkpoint_id \<and>
     rc_arg0 c = word_of_int (ws_seq s) \<and> (rc_flags c = 1 \<or> rc_flags c = 2))"

definition poll_record :: "record_call \<Rightarrow> bool" where
  "poll_record c \<longleftrightarrow> rc_type c = 24 \<and> rc_flags c = 0 \<or> rc_type c = 23 \<and> (rc_flags c = 4 \<or> rc_flags c = 8)"

inductive worker_trans :: "worker_world \<Rightarrow> worker_state \<Rightarrow> worker_state \<Rightarrow> bool" for w where
  move: "\<forall>c \<in> set (mo_library mo). submit_record s c \<Longrightarrow> worker_trans w s (worker_move w mo s)"
| poller: "ws_ring s = Some m \<Longrightarrow> poll_record c \<Longrightarrow> wk_checkpoint_library (ww_args w) \<Longrightarrow>
    worker_trans w s (library_stores [c] s)"

abbreviation worker_run :: "worker_world \<Rightarrow> worker_state \<Rightarrow> worker_state \<Rightarrow> bool" where
  "worker_run w \<equiv> (worker_trans w)\<^sup>*\<^sup>*"

inductive_cases worker_transE: "worker_trans w s s'"

text \<open>The two places where the scenario is meant to stop.\<close>

definition hung :: "worker_world \<Rightarrow> worker_state \<Rightarrow> bool" where
  "hung w s \<longleftrightarrow> ws_failed s = None \<and>
     (case ws_todo s of
        Sleep_Forever # _ \<Rightarrow> True
      | Call line what # _ \<Rightarrow> line = 150 \<and> ww_outcome w 150 = Blocks
      | _ \<Rightarrow> False)"

subsection \<open>What the ring of a worker holds\<close>

abbreviation call_name :: "record_call \<Rightarrow> string" where
  "call_name c \<equiv> type_name (uint (rc_type c))"

text \<open>The types the checkpoint library records, and which records count as host events.\<close>

definition library_names :: "string list" where
  "library_names = [''CHECKPOINT'', ''DEVICE_CONFIRMED'']"

definition host_call :: "record_call \<Rightarrow> bool" where
  "host_call c \<longleftrightarrow> \<not> (call_name c = ''DEVICE_CONFIRMED'' \<or>
     call_name c = ''CHECKPOINT'' \<and> uint (rc_flags c) AND CHECKPOINT_SUBMITTED = 0)"

lemma host_call_event: "is_host_event (event_view (filled_event m c s)) = host_call c"
  by (simp add: is_host_event_def host_call_def has_flag_def event_view_def filled_event_def)

definition matches :: "client_call \<Rightarrow> record_call \<Rightarrow> bool" where
  "matches c call \<longleftrightarrow> (\<exists>now tid. c_call c now tid = Some call)"

lemma matches_fields:
  assumes "matches c call"
  shows "call_name call = cc_name c" "uint (rc_arg0 call) = cc_arg0 c mod 2 ^ 64"
    "uint (rc_correlation call) = cc_correlation c mod 2 ^ 64"
  using assms by (auto simp: matches_def c_call_def type_name_of_TYPES split: option.splits)

text \<open>The records a list of steps makes itself, apart from those of the library's types.\<close>

fun host_records :: "worker_step list \<Rightarrow> client_call list" where
  "host_records [] = []"
| "host_records (Record c # xs) = (if cc_name c \<in> set library_names then host_records xs else c # host_records xs)"
| "host_records (_ # xs) = host_records xs"

lemma host_records_append [simp]: "host_records (xs @ ys) = host_records xs @ host_records ys"
  by (induction xs rule: host_records.induct) auto

lemma library_call_names:
  "submit_record s c \<Longrightarrow> call_name c \<in> set library_names"
  "poll_record c \<Longrightarrow> call_name c \<in> set library_names" "poll_record c \<Longrightarrow> \<not> host_call c"
  by (auto simp: submit_record_def poll_record_def library_names_def host_call_def type_name_def NAMES_def
      CHECKPOINT_SUBMITTED_def)

subsection \<open>The invariant\<close>

definition opened :: "worker_world \<Rightarrow> shm \<Rightarrow> bool" where
  "opened w m \<longleftrightarrow> (\<exists>p. recorder_init (ww_recorder w) (ww_base w) (wk_device (ww_args w)) (wk_device (ww_args w))
     4096 None = (Inr p, Some m))"

fun submits :: "worker_step list \<Rightarrow> bool" where
  "submits (Submit line stream checkpoint_id # _) = True"
| "submits _ = False"

definition recorded :: "worker_step list \<Rightarrow> worker_step list \<Rightarrow> record_call list \<Rightarrow> bool" where
  "recorded past todo cs \<longleftrightarrow>
     list_all2 matches (host_records past) (filter (\<lambda>c. call_name c \<notin> set library_names) cs) \<and>
     (\<forall>before c. past = before @ [Record c] \<longrightarrow> cc_name c \<notin> set library_names \<longrightarrow> \<not> submits todo \<longrightarrow>
        (\<exists>call. matches c call \<and> last_opt (filter host_call cs) = Some call))"

definition worker_at :: "worker_world \<Rightarrow> worker_step list \<Rightarrow> worker_state \<Rightarrow> bool" where
  "worker_at w past s \<longleftrightarrow> worker_program (ww_args w) (ww_torch w) = past @ ws_todo s \<and>
     (\<forall>m. ws_ring s = Some m \<longrightarrow>
        (\<exists>m0 cs. opened w m0 \<and> m = fold store_event cs m0 \<and> recorded past (ws_todo s) cs \<and>
          length cs = ws_records s))"

lemma recorder_init_again: "recorder_init env base r d c (Some m) = (res, cur) \<Longrightarrow> (\<exists>e. res = Inl e) \<and> cur = Some m"
  by (auto simp: recorder_init_def flight_init_def EINVAL_def Let_def split: option.splits)

text \<open>The recorder is opened once, before anything is recorded.\<close>

definition before_open :: "worker_step list" where
  "before_open = [Call 38 ''torch.npu.set_device'', Call 39 ''dist.init_process_group'',
     Call 41 ''torch.npu.Stream'', Call 42 ''torch.npu.Stream'']"

lemma open_once:
  assumes "worker_program a t = past @ Open_Recorder # rest"
  shows "past = before_open"
proof -
  obtain post where p: "before_open @ Open_Recorder # post = worker_program a t" "Open_Recorder \<notin> set post"
    by (simp add: worker_program_def worker_setup_def worker_model_def worker_first_def worker_second_def
        before_open_def note_call_def Let_def)
  have "Open_Recorder \<notin> set before_open" by (simp add: before_open_def)
  from append_Cons_eq_iff [OF this p(2), of past rest] p(1) assms show ?thesis by simp
qed

subsection \<open>Every step keeps it\<close>

lemma recorded_step:
  assumes "recorded past todo cs" and "\<forall>c. x \<noteq> Record c"
  shows "recorded (past @ [x]) todo' cs"
  using assms by (cases x) (auto simp: recorded_def)

lemma recorded_own:
  assumes "recorded past todo cs" and "matches c call"
  shows "recorded (past @ [Record c]) todo' (cs @ [call])"
proof -
  have name: "call_name call = cc_name c" using matches_fields(1) [OF assms(2)] .
  have "host_call call" if "cc_name c \<notin> set library_names"
    using that name by (auto simp: host_call_def library_names_def)
  with assms name show ?thesis
    by (auto simp: recorded_def list_all2_appendI)
qed

lemma recorded_library:
  assumes "recorded past todo cs" and "\<forall>c \<in> set ls. call_name c \<in> set library_names"
    and "submits todo \<or> (\<forall>c \<in> set ls. \<not> host_call c)"
  shows "recorded past todo (cs @ ls)"
proof -
  have none: "filter (\<lambda>c. call_name c \<notin> set library_names) ls = []" using assms(2) by (simp add: filter_empty_conv)
  have "filter host_call ls = []" if "\<not> submits todo" using assms(3) that by (simp add: filter_empty_conv)
  with assms(1) none show ?thesis by (auto simp: recorded_def)
qed

lemma recorder_init_first: "recorder_init env base r d c None = (Inl e, cur) \<Longrightarrow> cur = None"
  by (auto simp: recorder_init_def flight_init_def Let_def split: option.splits if_splits)

lemma recorded_open:
  assumes "worker_program a t = past @ Open_Recorder # rest"
  shows "recorded (past @ [Open_Recorder]) rest []"
  using open_once [OF assms] by (simp add: recorded_def before_open_def)

lemma record_cases:
  assumes "recorder_record True now tid c cur = (res, cur')"
  shows "(res = Inl KeyError \<and> cur' = cur) \<or>
    (\<exists>call seq. res = Inr seq \<and> matches c call \<and> cur' = map_option (store_event call) cur)"
  using assms
  by (cases cur) (auto simp: recorder_record_def flight_record_def matches_def split: option.splits)


lemma at_failed: "worker_at w past s \<Longrightarrow> worker_at w past (s\<lparr>ws_failed := e\<rparr>)"
  by (simp add: worker_at_def)

lemma at_advance:
  assumes "worker_at w past s" and "ws_todo s = x # rest" and "\<forall>c. x \<noteq> Record c"
  shows "worker_at w (past @ [x]) (s\<lparr>ws_todo := rest\<rparr>)"
  using assms recorded_step [OF _ assms(3)] unfolding worker_at_def by fastforce

lemma at_library:
  assumes "worker_at w past s" and "\<forall>c \<in> set ls. call_name c \<in> set library_names"
    and "submits (ws_todo s) \<or> (\<forall>c \<in> set ls. \<not> host_call c)"
  shows "worker_at w past (library_stores ls s)"
proof -
  have "\<exists>m0 cs. opened w m0 \<and> fold store_event ls m = fold store_event cs m0 \<and> recorded past (ws_todo s) cs \<and>
      length cs = ws_records s + length ls"
    if m: "ws_ring s = Some m" for m
  proof -
    from assms(1) m obtain m0 cs where "opened w m0" "m = fold store_event cs m0" "recorded past (ws_todo s) cs"
      "length cs = ws_records s" by (auto simp: worker_at_def)
    with recorded_library [OF _ assms(2,3)] show ?thesis
      by (intro exI [of _ m0] exI [of _ "cs @ ls"]) simp
  qed
  with assms(1) show ?thesis by (auto simp: worker_at_def library_stores_def)
qed

lemma at_finish:
  assumes "worker_at w past s" and "ws_todo s = x # rest" and "\<forall>c. x \<noteq> Record c"
  shows "\<exists>past'. worker_at w past' (finish_call w line s)"
  using assms at_advance [OF assms] at_failed [OF assms(1)]
  by (auto simp: finish_call_def split: outcome.split)

lemma at_open:
  assumes at: "worker_at w past s" and todo: "ws_todo s = Open_Recorder # rest"
    and init: "recorder_init (ww_recorder w) (ww_base w) (wk_device (ww_args w)) (wk_device (ww_args w)) 4096
      (ws_ring s) = (res, cur)"
  shows "case res of Inl e \<Rightarrow> cur = ws_ring s
    | Inr p \<Rightarrow> worker_at w (past @ [Open_Recorder]) (s\<lparr>ws_todo := rest, ws_ring := cur, ws_records := 0\<rparr>)"
proof (cases "ws_ring s")
  case (Some m)
  with init recorder_init_again show ?thesis by (fastforce split: sum.split)
next
  case None
  have p: "worker_program (ww_args w) (ww_torch w) = past @ Open_Recorder # rest"
    using at todo by (simp add: worker_at_def)
  show ?thesis
  proof (cases res)
    case (Inl e)
    with init None show ?thesis by (simp add: recorder_init_first)
  next
    case (Inr p')
    with init None have "opened w m" if "cur = Some m" for m using that by (auto simp: opened_def)
    with recorded_open [OF p] have "\<exists>m0 cs. opened w m0 \<and> m = fold store_event cs m0 \<and>
        recorded (past @ [Open_Recorder]) rest cs \<and> length cs = 0" if "cur = Some m" for m
      using that by (intro exI [of _ m] exI [of _ "[]"]) simp
    with p Inr show ?thesis by (simp add: worker_at_def)
  qed
qed

lemma at_record:
  assumes at: "worker_at w past s" and todo: "ws_todo s = Record c # rest" and call: "matches c call"
  shows "worker_at w (past @ [Record c])
    (s\<lparr>ws_todo := rest, ws_ring := map_option (store_event call) (ws_ring s), ws_seq := seq,
      ws_records := Suc (ws_records s)\<rparr>)"
proof -
  have "\<exists>m0 cs. opened w m0 \<and> store_event call m = fold store_event cs m0 \<and> recorded (past @ [Record c]) rest cs \<and>
      length cs = Suc (ws_records s)"
    if m: "ws_ring s = Some m" for m
  proof -
    from at m obtain m0 cs where "opened w m0" "m = fold store_event cs m0" "recorded past (ws_todo s) cs"
      "length cs = ws_records s" by (auto simp: worker_at_def)
    with recorded_own [OF _ call] show ?thesis
      by (intro exI [of _ m0] exI [of _ "cs @ [call]"]) simp
  qed
  with at todo show ?thesis by (auto simp: worker_at_def)
qed

lemma at_await:
  assumes "worker_at w past s" and "ws_todo s = Await_Checkpoints # rest"
  shows "\<exists>past'. worker_at w past' (await_checkpoints w mo s)"
  using assms(1) at_advance [OF assms] at_failed [OF assms(1)] assms(2)
  by (auto simp: await_checkpoints_def split: option.split sum.split)

lemma move_at:
  assumes at: "worker_at w past s" and lib: "\<forall>c \<in> set (mo_library mo). submit_record s c"
  shows "\<exists>past'. worker_at w past' (worker_move w mo s)"
proof (cases "ws_failed s = None \<and> ws_todo s \<noteq> []")
  case True
  then obtain x rest where todo: "ws_todo s = x # rest" and ok: "ws_failed s = None" by (cases "ws_todo s") auto
  show ?thesis
  proof (cases x)
    case (Call line what)
    with at_finish [OF at todo] todo ok show ?thesis by (simp add: worker_move_def)
  next
    case Open_Recorder
    obtain res cur where init: "recorder_init (ww_recorder w) (ww_base w) (wk_device (ww_args w))
        (wk_device (ww_args w)) 4096 (ws_ring s) = (res, cur)" by force
    from at_open [OF at todo [unfolded Open_Recorder] init] at_failed [OF at] init todo ok Open_Recorder
    show ?thesis by (cases res) (auto simp: worker_move_def)
  next
    case (Record c)
    obtain res cur where r: "recorder_record True (mo_now mo) (mo_tid mo) c (ws_ring s) = (res, cur)" by force
    from record_cases [OF r] show ?thesis
    proof (elim disjE exE conjE)
      assume "res = Inl KeyError" "cur = ws_ring s"
      with r todo ok Record at_failed [OF at, of "Some KeyError"] show ?thesis by (auto simp: worker_move_def)
    next
      fix call seq assume "res = Inr seq" "cur = map_option (store_event call) (ws_ring s)" and m: "matches c call"
      with r todo ok Record at_record [OF at todo [unfolded Record] m, of seq] show ?thesis
        by (auto simp: worker_move_def)
    qed
  next
    case (Submit line stream checkpoint_id)
    have "worker_at w past (library_stores (mo_library mo) s)"
      using lib library_call_names(1) todo Submit by (intro at_library [OF at]) auto
    from at_finish [OF this, of x rest] todo ok Submit show ?thesis by (simp add: worker_move_def library_stores_def)
  next
    case Await_Start
    with at at_advance [OF at todo] todo ok show ?thesis by (auto simp: worker_move_def)
  next
    case Await_Checkpoints
    with at_await [OF at] todo ok show ?thesis by (simp add: worker_move_def)
  next
    case Sleep_Forever
    with at todo ok show ?thesis by (auto simp: worker_move_def)
  qed
qed (use at in \<open>auto simp: worker_move_def\<close>)

lemma run_at:
  assumes "worker_run w (worker_start w) s"
  shows "\<exists>past. worker_at w past s"
  using assms
proof (induction rule: rtranclp_induct)
  case base
  have "worker_at w [] (worker_start w)" by (simp add: worker_at_def worker_start_def)
  then show ?case by blast
next
  case (step s s')
  then obtain past where at: "worker_at w past s" by blast
  from step.hyps(2) show ?case
  proof cases
    case (move mo)
    with move_at [OF at] show ?thesis by simp
  next
    case (poller m c)
    from at_library [OF at, of "[c]"] library_call_names(2,3) [OF poller(3)] poller(1,2) show ?thesis by auto
  qed
qed

subsection \<open>Where it hangs\<close>

definition before_hang :: "worker_args \<Rightarrow> torch_facts \<Rightarrow> worker_step list" where
  "before_hang a t = worker_setup a @ worker_model a t @ worker_first a t @
     (let rank = wk_device a; default_id = stream_id (tf_default t)
      in if rank = wk_missing_rank a
         then [note_call ''SCHEDULER_BEGIN'' 0 2 0 0, note_call ''KV_BEGIN'' (stream_id (tf_transfer t)) (3000 + rank) rank 4096]
         else [note_call ''SCHEDULER_BEGIN'' 0 2 0 0,
               note_call ''HCCL_BEGIN'' default_id 2 COMM COLLECTIVE_TYPE_ALLREDUCE, Call 144 ''dist.all_reduce'',
               note_call ''HCCL_END'' default_id 2 COMM COLLECTIVE_TYPE_ALLREDUCE] @
              (if wk_checkpoint_library a then [Submit 148 default_id 7102] else []) @
              [note_call ''DEVICE_SYNC_BEGIN'' 0 2 0 0])"

definition hang_step :: "worker_args \<Rightarrow> worker_step" where
  "hang_step a = (if wk_device a = wk_missing_rank a then Sleep_Forever else Call 150 ''torch.npu.synchronize'')"

lemmas worker_parts = worker_setup_def worker_model_def worker_first_def worker_second_def note_call_def Let_def

lemma program_hang:
  obtains rest where "before_hang a t @ hang_step a # rest = worker_program a t"
    and "hang_step a \<notin> set (before_hang a t)" and "hang_step a \<notin> set rest"
    and "\<forall>x \<in> set (worker_program a t). x = Sleep_Forever \<or> (\<exists>what. x = Call 150 what) \<longrightarrow> x = hang_step a"
proof -
  let ?rest = "if wk_device a = wk_missing_rank a then []
    else [note_call ''DEVICE_SYNC_END'' 0 2 0 0, note_call ''DEVICE_CONFIRMED'' 0 2 0 0]"
  have "before_hang a t @ hang_step a # ?rest = worker_program a t"
    by (simp add: worker_program_def before_hang_def hang_step_def worker_second_def Let_def)
  moreover have "hang_step a \<notin> set (before_hang a t)" "hang_step a \<notin> set ?rest"
    by (simp_all add: before_hang_def hang_step_def worker_parts)
  moreover have "\<forall>x \<in> set (worker_program a t). x = Sleep_Forever \<or> (\<exists>what. x = Call 150 what) \<longrightarrow> x = hang_step a"
    by (auto simp: worker_program_def hang_step_def worker_parts split: if_splits)
  ultimately show thesis by (rule that)
qed

lemma hung_at:
  assumes "worker_at w past s" and "hung w s"
  shows "past = before_hang (ww_args w) (ww_torch w)"
proof -
  obtain x rest where todo: "ws_todo s = x # rest" and x: "x = Sleep_Forever \<or> (\<exists>what. x = Call 150 what)"
    using assms(2) by (auto simp: hung_def split: list.splits worker_step.splits)
  have p: "worker_program (ww_args w) (ww_torch w) = past @ x # rest"
    using assms(1) todo by (simp add: worker_at_def)
  obtain post where split: "before_hang (ww_args w) (ww_torch w) @ hang_step (ww_args w) # post =
      worker_program (ww_args w) (ww_torch w)"
    and once: "hang_step (ww_args w) \<notin> set (before_hang (ww_args w) (ww_torch w))" "hang_step (ww_args w) \<notin> set post"
    and only: "\<forall>x \<in> set (worker_program (ww_args w) (ww_torch w)).
      x = Sleep_Forever \<or> (\<exists>what. x = Call 150 what) \<longrightarrow> x = hang_step (ww_args w)"
    by (rule program_hang)
  from only p x have "x = hang_step (ww_args w)" by auto
  with p split append_Cons_eq_iff [OF once, of past rest] show ?thesis by simp
qed

lemma hang_records:
  "(\<exists>c \<in> set (host_records (before_hang a t)). cc_name c = ''HCCL_BEGIN'' \<and>
      cc_arg0 c mod 2 ^ 64 = COMM \<and> cc_correlation c mod 2 ^ 64 = 2) \<longleftrightarrow> wk_device a \<noteq> wk_missing_rank a"
  "(\<exists>c \<in> set (host_records (before_hang a t)). cc_name c = ''HCCL_END'' \<and>
      cc_arg0 c mod 2 ^ 64 = COMM \<and> cc_correlation c mod 2 ^ 64 = 2) \<longleftrightarrow> wk_device a \<noteq> wk_missing_rank a"
  "\<exists>before c. before_hang a t = before @ [Record c] \<and>
     cc_name c = (if wk_device a = wk_missing_rank a then ''KV_BEGIN'' else ''DEVICE_SYNC_BEGIN'')"
proof -
  show "(\<exists>c \<in> set (host_records (before_hang a t)). cc_name c = ''HCCL_BEGIN'' \<and>
      cc_arg0 c mod 2 ^ 64 = COMM \<and> cc_correlation c mod 2 ^ 64 = 2) \<longleftrightarrow> wk_device a \<noteq> wk_missing_rank a"
    by (simp add: before_hang_def worker_parts library_names_def COMM_def)
  show "(\<exists>c \<in> set (host_records (before_hang a t)). cc_name c = ''HCCL_END'' \<and>
      cc_arg0 c mod 2 ^ 64 = COMM \<and> cc_correlation c mod 2 ^ 64 = 2) \<longleftrightarrow> wk_device a \<noteq> wk_missing_rank a"
    by (simp add: before_hang_def worker_parts library_names_def COMM_def)
  have last: "\<exists>before c. xs @ [note_call name i j k l] = before @ [Record c] \<and> cc_name c = name" for xs name i j k l
    by (simp add: note_call_def)
  show "\<exists>before c. before_hang a t = before @ [Record c] \<and>
     cc_name c = (if wk_device a = wk_missing_rank a then ''KV_BEGIN'' else ''DEVICE_SYNC_BEGIN'')"
    using last [of "worker_setup a @ worker_model a t @ worker_first a t @ [note_call ''SCHEDULER_BEGIN'' 0 2 0 0]"]
      last [of "worker_setup a @ worker_model a t @ worker_first a t @
        [note_call ''SCHEDULER_BEGIN'' 0 2 0 0,
         note_call ''HCCL_BEGIN'' (stream_id (tf_default t)) 2 COMM COLLECTIVE_TYPE_ALLREDUCE, Call 144 ''dist.all_reduce'',
         note_call ''HCCL_END'' (stream_id (tf_default t)) 2 COMM COLLECTIVE_TYPE_ALLREDUCE] @
        (if wk_checkpoint_library a then [Submit 148 (stream_id (tf_default t)) 7102] else [])"]
    by (simp add: before_hang_def Let_def)
qed

subsection \<open>Along a run\<close>

definition extends :: "worker_state \<Rightarrow> worker_state \<Rightarrow> bool" where
  "extends s s' \<longleftrightarrow> (\<forall>m. ws_ring s = Some m \<longrightarrow>
     (\<exists>es. ws_ring s' = Some (fold store_event es m) \<and> ws_records s' = ws_records s + length es))"

lemma extends_refl: "extends s s"
  unfolding extends_def by (auto intro: exI [of _ "[]"])

lemma extends_trans: "extends s s' \<Longrightarrow> extends s' s'' \<Longrightarrow> extends s s''"
  unfolding extends_def by (metis add.assoc fold_append comp_apply length_append)

lemma extends_same: "ws_ring s' = ws_ring s \<Longrightarrow> ws_records s' = ws_records s \<Longrightarrow> extends s s'"
  unfolding extends_def by (auto intro: exI [of _ "[]"])

lemma extends_library: "extends s (library_stores es s)"
  by (auto simp: extends_def library_stores_def)

lemma extends_finish: "extends s s' \<Longrightarrow> extends s (finish_call w line s')"
  by (simp add: extends_def finish_call_def split: outcome.split)

lemma move_extends: "extends s (worker_move w mo s)"
proof (cases "ws_failed s = None \<and> ws_todo s \<noteq> []")
  case True
  then obtain x rest where todo: "ws_todo s = x # rest" and ok: "ws_failed s = None" by (cases "ws_todo s") auto
  show ?thesis
  proof (cases x)
    case Open_Recorder
    show ?thesis
    proof (cases "ws_ring s")
      case (Some m)
      obtain res cur where init: "recorder_init (ww_recorder w) (ww_base w) (wk_device (ww_args w))
          (wk_device (ww_args w)) 4096 (Some m) = (res, cur)" by force
      with recorder_init_again [OF init] todo ok Some Open_Recorder show ?thesis
        by (intro extends_same) (auto simp: worker_move_def)
    qed (simp add: extends_def)
  next
    case (Record c)
    obtain res cur where r: "recorder_record True (mo_now mo) (mo_tid mo) c (ws_ring s) = (res, cur)" by force
    from record_cases [OF r] show ?thesis
    proof (elim disjE exE conjE)
      assume "res = Inl KeyError" "cur = ws_ring s"
      with r todo ok Record show ?thesis by (intro extends_same) (auto simp: worker_move_def)
    next
      fix call seq assume "res = Inr seq" "cur = map_option (store_event call) (ws_ring s)"
      with r todo ok Record show ?thesis
        by (auto simp: worker_move_def extends_def intro: exI [of _ "[call]"])
    qed
  next
    case Await_Checkpoints
    with todo ok show ?thesis
      by (intro extends_same) (auto simp: worker_move_def await_checkpoints_def split: option.split sum.split)
  qed (use extends_finish [OF extends_refl] extends_finish [OF extends_library] extends_same todo ok
    in \<open>auto simp: worker_move_def\<close>)
qed (use extends_refl in \<open>auto simp: worker_move_def\<close>)

lemma run_extends: "worker_run w s s' \<Longrightarrow> extends s s'"
proof (induction rule: rtranclp_induct)
  case (step s1 s2)
  from step.hyps(2) have "extends s1 s2"
  proof cases
    case (move mo)
    then show ?thesis using move_extends by simp
  next
    case (poller m c)
    then show ?thesis using extends_library by simp
  qed
  with step.IH show ?case by (rule extends_trans)
qed (rule extends_refl)

lemma hung_stays: "worker_run w s s' \<Longrightarrow> hung w s \<Longrightarrow> hung w s'"
proof (induction rule: rtranclp_induct)
  case (step s1 s2)
  from step.hyps(2) show ?case
  proof cases
    case (move mo)
    with step show ?thesis
      by (auto simp: hung_def worker_move_def finish_call_def split: list.splits worker_step.splits)
  next
    case (poller m c)
    with step show ?thesis by (simp add: hung_def library_stores_def)
  qed
qed

end
