(* ===== verification/Hccl_Scenario.thy ===== *)
theory Hccl_Scenario
  imports Hccl_Worker Report_Output Mspti_Ring Aicpu_Sampler Device_Ops
begin

text \<open>
  \<open>run\<close> in \<open>examples/four_card_hccl_hang.py\<close>: the supervisor of the four workers. First the \<open>try\<close>
  block that starts the processes and waits, then the \<open>finally\<close> block that stops them, then the
  analysis of the snapshots with the assertions of the scenario. Processes, files and clocks are
  parameters. A wait is given by the clock and the value of the predicate at each round; when the
  list ends the user has interrupted the program.
\<close>

subsection \<open>Command lines and environment of the children\<close>

record run_args =
  ra_output :: path
  ra_missing_rank :: int
  ra_library :: string
  ra_checkpoint_library :: string
  ra_mspti_library :: string
  ra_mspti_preload :: string
  ra_device_profile :: bool
  ra_sample_aicpu :: bool
  ra_hang_timeout :: rat
  ra_startup_timeout :: rat
  ra_run_timeout :: rat

text \<open>An option that was not given is the empty string; \<open>str\<close> of a float is a parameter.\<close>

definition sampler_command :: "string \<Rightarrow> path \<Rightarrow> string list" where
  "sampler_command executable output =
     [executable, ''-m'', ''flightrecorder.aicpu_sampler'', ''capture'', ''--devices'',
      str_join '','' (map str_int DEVICES), ''--interval'', ''0.5'', ''--output'',
      path_str (path_child output ''aicpu_usage.jsonl'')]"

definition worker_command :: "string \<Rightarrow> string \<Rightarrow> run_args \<Rightarrow> path \<Rightarrow> int \<Rightarrow> int \<Rightarrow> string list" where
  "worker_command executable script a output port rank =
     [executable, script, ''--worker'', ''--device'', str_int rank, ''--missing-rank'', str_int (ra_missing_rank a),
      ''--library'', ra_library a, ''--output'', path_str output, ''--port'', str_int port] @
     (if ra_device_profile a then [''--device-profile''] else []) @
     (if ra_checkpoint_library a \<noteq> [] then [''--checkpoint-library'', ra_checkpoint_library a] else [])"

definition env_get :: "(string, string) dict \<Rightarrow> string \<Rightarrow> string" where
  "env_get env k = (case dict_get env k of None \<Rightarrow> [] | Some v \<Rightarrow> v)"

definition worker_environ :: "run_args \<Rightarrow> path \<Rightarrow> path \<Rightarrow> (string, string) dict \<Rightarrow> (string, string) dict" where
  "worker_environ a base output env =
     (if ra_mspti_library a \<noteq> [] then
        (let env = dict_set ''LD_PRELOAD'' (ra_mspti_preload a @
               (if env_get env ''LD_PRELOAD'' \<noteq> [] then '' '' @ env_get env ''LD_PRELOAD'' else [])) env;
             env = dict_set ''PYTHONPATH'' (str_join '':'' [path_str (path_child (path_child base ''python'') ''bootstrap''),
               path_str base, env_get env ''PYTHONPATH'']) env;
             env = dict_set ''HANG_MSPTI_LIBRARY'' (ra_mspti_library a) env;
             env = dict_set ''HANG_MSPTI_DIR'' (path_str (path_child output ''mspti'')) env
         in dict_set ''HANG_MSPTI_ENABLE_FILE'' (path_str (path_child output ''enable_prof'')) env)
      else env)"

definition watchdog_command :: "string \<Rightarrow> (rat \<Rightarrow> string) \<Rightarrow> run_args \<Rightarrow> path \<Rightarrow> int list \<Rightarrow> string list" where
  "watchdog_command executable show a output pids =
     [executable, ''-m'', ''flightrecorder.watchdog'', ''--directory'', path_str (path_child output ''flight''),
      ''--output'', path_str (path_child output ''dumps''), ''--timeout'', show (ra_hang_timeout a),
      ''--interval'', ''0.2'', ''--npu-smi''] @ concat (map (\<lambda>pid. [''--pid'', str_int pid]) pids)"

subsection \<open>Waiting\<close>

datatype stop_reason = Error py_error | Interrupted

text \<open>\<open>TimeoutError\<close> is an \<open>OSError\<close>. Each round has the clock and, when it is reached, the predicate.\<close>

fun wait_until :: "(rat \<times> (py_error + bool)) list \<Rightarrow> rat \<Rightarrow> string \<Rightarrow> stop_reason option" where
  "wait_until [] deadline label = Some Interrupted"
| "wait_until ((now, holds) # rest) deadline label =
     (if \<not> now < deadline then Some (Error (OSError label))
      else case holds of
        Inl e \<Rightarrow> Some (Error e)
      | Inr True \<Rightarrow> None
      | Inr False \<Rightarrow> wait_until rest deadline label)"

text \<open>The second predicate: \<open>files\<close> lists what \<open>glob\<close> yields for a rank.\<close>

fun reached_hang :: "(int \<Rightarrow> path list) \<Rightarrow> file_reads \<Rightarrow> int \<Rightarrow> int list \<Rightarrow> py_error + bool" where
  "reached_hang files fs missing [] = Inr True"
| "reached_hang files fs missing (rank # ranks) =
     (case files rank of
        [] \<Rightarrow> Inr False
      | p # _ \<Rightarrow>
          (case read_events fs p of
             Inl e \<Rightarrow> Inl e
           | Inr (h, events) \<Rightarrow>
               (let names = map ev_type (filter (\<lambda>e. ev_correlation_id e = 2) events)
                in if rank = missing
                   then if ''SCHEDULER_BEGIN'' \<notin> set names then Inr False else reached_hang files fs missing ranks
                   else if ''HCCL_BEGIN'' \<notin> set names then Inr False else reached_hang files fs missing ranks)))"

text \<open>A wait that is over has seen the predicate hold before the deadline; past the deadline it fails.\<close>

lemma wait_until_None:
  "wait_until polls deadline label = None \<Longrightarrow> \<exists>now. (now, Inr True) \<in> set polls \<and> now < deadline"
  by (induction polls deadline label rule: wait_until.induct)
    (auto split: if_splits sum.splits bool.splits)

lemma wait_until_timeout:
  assumes "\<exists>x \<in> set polls. \<not> fst x < deadline"
  shows "wait_until polls deadline label \<noteq> Some Interrupted"
  using assms by (induction polls deadline label rule: wait_until.induct) (auto split: sum.split bool.split)

text \<open>What the supervisor has seen when its second wait is over.\<close>

lemma reached_hang_seen:
  assumes "reached_hang files fs missing ranks = Inr True" and "r \<in> set ranks"
  shows "\<exists>p ps h ev. files r = p # ps \<and> read_events fs p = Inr (h, ev) \<and> (\<exists>e \<in> set ev. ev_correlation_id e = 2 \<and>
    ev_type e = (if r = missing then ''SCHEDULER_BEGIN'' else ''HCCL_BEGIN''))"
  using assms
proof (induction files fs missing ranks rule: reached_hang.induct)
  case (2 files fs missing rank ranks)
  then obtain p ps h ev where read: "files rank = p # ps" "read_events fs p = Inr (h, ev)"
    by (auto split: list.splits sum.splits)
  with "2.prems"(1) have here: "(if rank = missing then ''SCHEDULER_BEGIN'' else ''HCCL_BEGIN'') \<in>
      ev_type ` {e \<in> set ev. ev_correlation_id e = 2}" and rest: "reached_hang files fs missing ranks = Inr True"
    by (auto simp: Let_def split: if_splits)
  show ?case
  proof (cases "r = rank")
    case True
    with read here show ?thesis by (auto split: if_splits)
  next
    case False
    with "2.prems"(2) have "r \<in> set ranks" by simp
    with "2.IH" read rest show ?thesis by (cases "rank = missing") (use here in auto)
  qed
qed simp

subsection \<open>Starting the processes\<close>

text \<open>\<open>made\<close> is the error of making a directory, of writing \<open>enable_prof\<close>, or of reserving a port.\<close>

definition prepare :: "run_args \<Rightarrow> bool \<Rightarrow> (string \<Rightarrow> os_error option) \<Rightarrow> py_error option" where
  "prepare a exists made =
     (if exists
      then Some (raised (FileExistsError (''choose a fresh output directory: '' @ path_str (ra_output a))))
      else case List.map_filter made
             ([''flight'', ''dumps'', ''logs''] @
              (if ra_mspti_library a \<noteq> [] then [''mspti'', ''enable_prof''] else []) @ [''port'']) of
        [] \<Rightarrow> None
      | e # _ \<Rightarrow> Some (raised e))"

text \<open>
  What the supervisor owns: \<open>children\<close> by rank, the watchdog, the sampler and the open logs, and the
  marker files it has written. \<open>Popen\<close> and the opening of a log yield an identifier or fail.
\<close>

record supervisor =
  sp_children :: "(int, int) dict"
  sp_watchdog :: "int option"
  sp_sampler :: "int option"
  sp_logs :: "int list"
  sp_started :: bool

definition supervisor_init :: supervisor where
  "supervisor_init = \<lparr>sp_children = [], sp_watchdog = None, sp_sampler = None, sp_logs = [], sp_started = False\<rparr>"

record launch_env =
  le_sampler :: "os_error + int"
  le_log :: "int \<Rightarrow> os_error + int"
  le_worker :: "int \<Rightarrow> os_error + int"
  le_watch_log :: "os_error + int"
  le_watchdog :: "os_error + int"
  le_start :: "os_error option"
  le_ready :: "rat \<times> (rat \<times> (py_error + bool)) list"
  le_hang :: "rat \<times> (rat \<times> (py_error + bool)) list"
  le_stalled :: "rat \<times> (rat \<times> (py_error + bool)) list"

type_synonym launch_op = "supervisor \<Rightarrow> stop_reason option \<times> supervisor"

definition acquire :: "os_error + int \<Rightarrow> (int \<Rightarrow> supervisor \<Rightarrow> supervisor) \<Rightarrow> launch_op" where
  "acquire result keep s = (case result of Inl e \<Rightarrow> (Some (Error (raised e)), s) | Inr k \<Rightarrow> (None, keep k s))"

definition start_worker :: "launch_env \<Rightarrow> int \<Rightarrow> launch_op list" where
  "start_worker env rank =
     [acquire (le_log env rank) (\<lambda>k s. s\<lparr>sp_logs := sp_logs s @ [k]\<rparr>),
      acquire (le_worker env rank) (\<lambda>pid s. s\<lparr>sp_children := dict_set rank pid (sp_children s)\<rparr>)]"

text \<open>\<open>deadline\<close> is the clock at the call plus the time limit, rounded.\<close>

definition wait_op :: "rat \<times> (rat \<times> (py_error + bool)) list \<Rightarrow> rat \<Rightarrow> string \<Rightarrow> launch_op" where
  "wait_op polls limit label s = (wait_until (snd polls) (to_double (fst polls + limit)) label, s)"

definition launch_ops :: "run_args \<Rightarrow> launch_env \<Rightarrow> launch_op list" where
  "launch_ops a env =
     (if ra_sample_aicpu a then [acquire (le_sampler env) (\<lambda>pid s. s\<lparr>sp_sampler := Some pid\<rparr>)] else []) @
     concat (map (start_worker env) DEVICES) @
     [wait_op (le_ready env) (ra_startup_timeout a) ''workers did not initialize'',
      acquire (le_watch_log env) (\<lambda>k s. s\<lparr>sp_logs := sp_logs s @ [k]\<rparr>),
      acquire (le_watchdog env) (\<lambda>pid s. s\<lparr>sp_watchdog := Some pid\<rparr>),
      (\<lambda>s. case le_start env of Some e \<Rightarrow> (Some (Error (raised e)), s) | None \<Rightarrow> (None, s\<lparr>sp_started := True\<rparr>)),
      wait_op (le_hang env) (ra_run_timeout a) ''collective #2 was not reached'',
      wait_op (le_stalled env) (ra_hang_timeout a + 30) ''watchdog did not create a stalled snapshot'']"

definition launch :: "run_args \<Rightarrow> launch_env \<Rightarrow> stop_reason option \<times> supervisor" where
  "launch a env = run_ops (launch_ops a env) supervisor_init"

subsection \<open>The \<open>finally\<close> block\<close>

datatype process_op = Kill int | Terminate int | Wait int | Close int

text \<open>\<open>running\<close>: \<open>poll()\<close> yields \<open>None\<close>; \<open>stays\<close>: the timed \<open>wait\<close> raises \<open>TimeoutExpired\<close>.\<close>

definition reap_or_kill :: "(int \<Rightarrow> bool) \<Rightarrow> int \<Rightarrow> process_op list" where
  "reap_or_kill stays pid = Wait pid # (if stays pid then [Kill pid, Wait pid] else [])"

definition cleanup :: "(int \<Rightarrow> bool) \<Rightarrow> (int \<Rightarrow> bool) \<Rightarrow> supervisor \<Rightarrow> process_op list" where
  "cleanup running stays s =
     concat (map (\<lambda>pid. if running pid then [Kill pid] else []) (dict_values (sp_children s))) @
     map Wait (dict_values (sp_children s)) @
     (case sp_watchdog s of None \<Rightarrow> [] | Some pid \<Rightarrow> reap_or_kill stays pid) @
     (case sp_sampler s of None \<Rightarrow> [] | Some pid \<Rightarrow> Terminate pid # reap_or_kill stays pid) @
     map Close (sp_logs s)"

definition supervise ::
  "run_args \<Rightarrow> launch_env \<Rightarrow> (int \<Rightarrow> bool) \<Rightarrow> (int \<Rightarrow> bool) \<Rightarrow> stop_reason option \<times> supervisor \<times> process_op list" where
  "supervise a env running stays =
     (case launch a env of (res, s) \<Rightarrow> (res, s, cleanup running stays s))"

subsection \<open>The assertions on the report\<close>

text \<open>\<open>assert\<close>, and the two subscripts that can fail.\<close>

definition py_assert :: "bool \<Rightarrow> py_error option" where
  "py_assert b = (if b then None else Some AssertionError)"

definition check_last :: "report \<Rightarrow> int \<Rightarrow> string \<Rightarrow> py_error option" where
  "check_last rep rank name =
     (case dict_get (rp_ranks rep) rank of
        None \<Rightarrow> Some KeyError
      | Some d \<Rightarrow>
          (case rr_last_host_event d of None \<Rightarrow> Some TypeError | Some e \<Rightarrow> py_assert (ev_type e = name)))"

fun first_error :: "py_error option list \<Rightarrow> py_error option" where
  "first_error [] = None"
| "first_error (None # es) = first_error es"
| "first_error (Some e # es) = Some e"

definition others :: "int \<Rightarrow> int list" where
  "others missing = filter (\<lambda>r. r \<noteq> missing) DEVICES"

definition check_collective :: "int \<Rightarrow> report \<Rightarrow> py_error option" where
  "check_collective missing rep =
     (case filter (\<lambda>c. co_operation_id c = 2 \<and> co_communicator_id c = COMM) (rp_collectives rep) of
        [] \<Rightarrow> Some AssertionError
      | c # _ \<Rightarrow> first_error
          ([py_assert (co_missing_expected c = [missing]), py_assert (co_entered c = others missing),
            py_assert (co_end_observed c = others missing)] @
           map (\<lambda>rank. check_last rep rank ''DEVICE_SYNC_BEGIN'') (others missing) @
           [check_last rep missing ''KV_BEGIN'']))"

text \<open>With the checkpoint library: a stream whose first unconfirmed or last confirmed checkpoint is the last one.\<close>

definition is_last_checkpoint :: "stream_progress \<Rightarrow> bool" where
  "is_last_checkpoint p \<longleftrightarrow>
     (\<exists>e. pr_first_unconfirmed p = Some e \<and> ev_correlation_id e = 7102) \<or>
     (\<exists>e. pr_confirmed_through p = Some e \<and> ev_correlation_id e = 7102)"

definition check_progress :: "report \<Rightarrow> int \<Rightarrow> py_error option" where
  "check_progress rep rank =
     (case dict_get (rp_ranks rep) rank of
        None \<Rightarrow> Some KeyError
      | Some d \<Rightarrow>
          (case filter is_last_checkpoint (dict_values (rr_device_checkpoint_progress d)) of
             [] \<Rightarrow> Some AssertionError
           | p # _ \<Rightarrow> py_assert (pr_first_unconfirmed p \<noteq> None \<or> rr_checkpoint_coverage_warning d)))"

subsection \<open>The rest of the run\<close>

text \<open>
  What the rest meets: the snapshot files, the reads, the sampled rows if the file exists, per process
  the msPTI ring if it exists, the profiles, errors of writing by name, and of importing and running
  the profiler's analysis (whose exceptions are only noted).
\<close>

record after_env =
  ae_dumps :: "path list"
  ae_out :: out_env
  ae_ord :: "string list \<Rightarrow> string list"
  ae_depth :: nat
  ae_show :: "json \<Rightarrow> string"
  ae_samples :: "(py_error + sample_row list) option"
  ae_utf8 :: "byte list \<Rightarrow> string"
  ae_ring :: "int \<Rightarrow> (string + ring_mem) option"
  ae_write :: "string \<Rightarrow> os_error option"
  ae_import :: "py_error option"
  ae_profile_roots :: "string list"
  ae_analyse :: "string \<Rightarrow> py_error option"
  ae_profiles :: profiles
  ae_copy :: "int \<Rightarrow> os_error + bool"

text \<open>
  The two functions the name \<open>summarize\<close> can stand for. The \<open>import\<close> inside \<open>run\<close> makes it a local
  variable of the whole function, unbound until that statement is executed.
\<close>

datatype summarizer = Ops_Summarize | Sampler_Summarize

record after_state =
  as_disk :: disk
  as_summarize :: "summarizer option"
  as_report :: "report option"
  as_counts :: "(int, int) dict"

type_synonym after_op = "after_state \<Rightarrow> py_error option \<times> after_state"

definition after_init :: after_state where
  "after_init = \<lparr>as_disk = [], as_summarize = None, as_report = None, as_counts = []\<rparr>"

definition put :: "after_env \<Rightarrow> string list \<Rightarrow> content \<Rightarrow> after_op" where
  "put env name c s =
     (case ae_write env (last name) of
        Some e \<Rightarrow> (Some (raised e), s)
      | None \<Rightarrow> (None, s\<lparr>as_disk := dict_set name c (as_disk s)\<rparr>))"

definition analyze_op :: "after_env \<Rightarrow> after_op" where
  "analyze_op env s =
     (if ae_dumps env = [] then (Some (RuntimeError ''no watchdog snapshot''), s)
      else case analyze (oe_fs (ae_out env)) (ae_ord env) (ae_depth env) (sort (ae_dumps env)) (Some DEVICES) None of
        Inl e \<Rightarrow> (Some e, s)
      | Inr rep \<Rightarrow>
          (case write_outputs (ae_show env) (ae_out env) rep (sort (ae_dumps env)) of
             (res, d) \<Rightarrow> (res, s\<lparr>as_disk := map (\<lambda>(name, c). (''report'' # name, c)) d, as_report := Some rep\<rparr>)))"

definition samples_op :: "run_args \<Rightarrow> after_env \<Rightarrow> after_op" where
  "samples_op a env s =
     (let s = s\<lparr>as_summarize := Some Sampler_Summarize\<rparr>
      in case ae_samples env of
           None \<Rightarrow> (None, s)
         | Some (Inl e) \<Rightarrow> (Some e, s)
         | Some (Inr rows) \<Rightarrow> put env [''report'', ''aicpu_usage.txt'']
             (text_of (sample_summary (path_child (ra_output a) ''aicpu_usage.jsonl'') rows)) s)"

definition ring_path :: "run_args \<Rightarrow> int \<Rightarrow> path" where
  "ring_path a pid = path_child (path_child (ra_output a) ''mspti'') (''mspti-'' @ str_int pid @ ''.msflight'')"

definition ring_op :: "run_args \<Rightarrow> after_env \<Rightarrow> int \<times> int \<Rightarrow> after_op" where
  "ring_op a env = (\<lambda>(rank, pid) s.
     (case ae_ring env pid of
        None \<Rightarrow> (Some (RuntimeError (''missing msPTI ring for rank '' @ str_int rank @ '': '' @
                   path_str (ring_path a pid))), s)
      | Some mapped \<Rightarrow>
          (case read_ring (ae_utf8 env) mapped of
             Inl e \<Rightarrow> (Some e, s)
           | Inr (h, events) \<Rightarrow>
               if \<not> (\<exists>e \<in> set events. re_kind e = ''runtime_enter'')
               then (Some (RuntimeError (''no Runtime callback on rank '' @ str_int rank)), s)
               else case ring_report (ae_utf8 env) mapped (path_str (ring_path a pid)) 100 of
                 Inl e \<Rightarrow> (Some e, s)
               | Inr t \<Rightarrow> put env [''report'', ''mspti'', ''rank'' @ str_int rank @ ''.txt''] (Text t) s)))"

definition mspti_ops :: "run_args \<Rightarrow> after_env \<Rightarrow> (int, int) dict \<Rightarrow> after_op list" where
  "mspti_ops a env children =
     (\<lambda>s. (map_option raised (ae_write env ''mspti''), s)) # map (ring_op a env) children"

definition on_report :: "(report \<Rightarrow> py_error option) \<Rightarrow> after_op" where
  "on_report check s = (case as_report s of None \<Rightarrow> (Some UnboundLocalError, s) | Some rep \<Rightarrow> (check rep, s))"

definition scenario_json :: "run_args \<Rightarrow> content" where
  "scenario_json a = Json (JObj
     [(''devices'', JList (map JInt DEVICES)), (''missing_rank'', JInt (ra_missing_rank a)),
      (''communicator_id'', JInt COMM), (''successful_operation'', JInt 1), (''hanging_operation'', JInt 2),
      (''note'', JStr ''rank 6 is held at a synthetic host KV gate; other ranks enter a real HCCL all_reduce'')])"

text \<open>The call with two arguments; the sampler's function takes one.\<close>

definition call_summarize :: "after_env \<Rightarrow> after_op" where
  "call_summarize env s =
     (case as_summarize s of
        None \<Rightarrow> (Some UnboundLocalError, s)
      | Some Sampler_Summarize \<Rightarrow> (Some TypeError, s)
      | Some Ops_Summarize \<Rightarrow>
          (case summarize (ae_profiles env) of
             Inl e \<Rightarrow> (Some e, s)
           | Inr (counts, lines) \<Rightarrow> (None, s\<lparr>as_counts := counts,
               as_disk := dict_set [''report'', ''device_operators.txt''] (text_of lines) (as_disk s)\<rparr>)))"

definition count_of :: "after_state \<Rightarrow> int \<Rightarrow> int" where
  "count_of s rank = (case dict_get (as_counts s) rank of None \<Rightarrow> 0 | Some n \<Rightarrow> n)"

definition copy_op :: "after_env \<Rightarrow> int \<Rightarrow> after_op" where
  "copy_op env rank s = (case ae_copy env rank of Inl e \<Rightarrow> (Some (raised e), s) | Inr copied \<Rightarrow> (None, s))"

definition status_op :: "after_env \<Rightarrow> after_op" where
  "status_op env s = put env [''report'', ''device_profile_status.json'']
     (Json (JObj [(''profile_roots'', JList (map JStr (ae_profile_roots env))),
        (''kernel_counts'', JObj (map (\<lambda>(r, n). (str_int r, JInt n)) (as_counts s))),
        (''analysis_errors'', JList (List.map_filter (\<lambda>root. map_option
            (\<lambda>e. JStr (root @ '': '' @ py_str_error e)) (ae_analyse env root)) (ae_profile_roots env)))])) s"

definition kernels_op :: "after_op" where
  "kernels_op s =
     (if as_counts s = [] \<or> (\<exists>rank \<in> set DEVICES. count_of s rank = 0)
      then (Some (RuntimeError ''device profiler produced no kernels on at least one rank''), s) else (None, s))"

definition append_text :: "after_env \<Rightarrow> after_op" where
  "append_text env s =
     (let lines = [[], ''DEVICE KERNELS (completed pre-hang window)''] @
            map (\<lambda>rank. ''rank '' @ str_int rank @ '': '' @ str_int (count_of s rank) @ '' kernels'') DEVICES @
            [''See device_operators.txt and device_kernel_csv/. '' @
             ''The hanging collective is outside this completed profile window.'']
      in case (dict_get (as_disk s) [''report'', ''report.txt''], text_of lines) of
           (Some (Text old), Text t) \<Rightarrow> put env [''report'', ''report.txt''] (Text (old @ t)) s
         | _ \<Rightarrow> put env [''report'', ''report.txt''] (text_of lines) s)"

definition profile_ops :: "after_env \<Rightarrow> after_op list" where
  "profile_ops env =
     [(\<lambda>s. (ae_import env, s)), call_summarize env,
      (\<lambda>s. (map_option raised (ae_write env ''device_kernel_csv''), s))] @
     map (copy_op env) DEVICES @ [status_op env, kernels_op, append_text env]"

definition after_ops :: "run_args \<Rightarrow> after_env \<Rightarrow> (int, int) dict \<Rightarrow> after_op list" where
  "after_ops a env children =
     [analyze_op env] @
     (if ra_sample_aicpu a then [samples_op a env] else []) @
     (if ra_mspti_library a \<noteq> [] then mspti_ops a env children else []) @
     [on_report (check_collective (ra_missing_rank a))] @
     (if ra_checkpoint_library a \<noteq> []
      then map (\<lambda>rank. on_report (\<lambda>rep. check_progress rep rank)) (others (ra_missing_rank a)) else []) @
     [put env [''scenario.json''] (scenario_json a)] @
     (if ra_device_profile a then profile_ops env else [])"

text \<open>No exception: the run prints \<open>PASS\<close>.\<close>

definition run_after :: "run_args \<Rightarrow> after_env \<Rightarrow> (int, int) dict \<Rightarrow> py_error option \<times> after_state" where
  "run_after a env children = run_ops (after_ops a env children) after_init"

subsection \<open>The whole program\<close>

datatype scenario_end = Usage_Error string | Stopped stop_reason | Passed

definition run_scenario ::
  "run_args \<Rightarrow> bool \<Rightarrow> (string \<Rightarrow> os_error option) \<Rightarrow> launch_env \<Rightarrow> (int \<Rightarrow> bool) \<Rightarrow> (int \<Rightarrow> bool) \<Rightarrow> after_env \<Rightarrow>
    scenario_end \<times> process_op list" where
  "run_scenario a exists made env running stays after =
     (case prepare a exists made of
        Some e \<Rightarrow> (Stopped (Error e), [])
      | None \<Rightarrow>
          (case supervise a env running stays of
             (Some r, s, ops) \<Rightarrow> (Stopped r, ops)
           | (None, s, ops) \<Rightarrow>
               (case fst (run_after a after (sp_children s)) of
                  Some e \<Rightarrow> (Stopped (Error e), ops)
                | None \<Rightarrow> (Passed, ops))))"

text \<open>\<open>main\<close> for the supervisor.\<close>

definition scenario_main ::
  "run_args \<Rightarrow> bool \<Rightarrow> (string \<Rightarrow> os_error option) \<Rightarrow> launch_env \<Rightarrow> (int \<Rightarrow> bool) \<Rightarrow> (int \<Rightarrow> bool) \<Rightarrow> after_env \<Rightarrow>
    scenario_end \<times> process_op list" where
  "scenario_main a exists made env running stays after =
     (if (ra_mspti_library a \<noteq> []) \<noteq> (ra_mspti_preload a \<noteq> [])
      then (Usage_Error ''--mspti-library and --mspti-preload must be used together'', [])
      else run_scenario a exists made env running stays after)"

end
