(* ===== verification/Hccl_Reach.thy ===== *)
theory Hccl_Reach
  imports Hccl_Worker
begin

text \<open>
  A worker whose calls all return, the last synchronisation apart, gets to its hang: no step of the
  program itself stops it. Without the checkpoint library, whose confirmations it would wait for.
\<close>

text \<open>Steps that are over when their call returns.\<close>

fun passes :: "worker_world \<Rightarrow> worker_step \<Rightarrow> bool" where
  "passes w (Call line what) = (ww_outcome w line = Returns)"
| "passes w (Submit line stream checkpoint_id) = (ww_outcome w line = Returns)"
| "passes w (Record c) = (cc_name c \<in> set NAMES)"
| "passes w Await_Start = True"
| "passes w _ = False"

definition idle_moment :: moment where
  "idle_moment = \<lparr>mo_now = 0, mo_tid = 0, mo_library = [], mo_started = True, mo_expired = False\<rparr>"

lemma record_known:
  assumes "cc_name c \<in> set NAMES"
  shows "\<exists>seq call. recorder_record True now tid c cur = (Inr seq, map_option (store_event call) cur)"
proof -
  from assms obtain i where "i < 25" "cc_name c = NAMES ! i" by (metis in_set_conv_nth length_NAMES)
  then have "dict_get TYPES (cc_name c) = Some (int i)" by (auto simp: TYPES_get)
  then show ?thesis by (cases cur) (auto simp: recorder_record_def flight_record_def c_call_def)
qed

lemma pass_step:
  assumes "ws_todo s = x # rest" and "ws_failed s = None" and "passes w x"
  shows "\<exists>s'. worker_trans w s s' \<and> ws_todo s' = rest \<and> ws_failed s' = None \<and>
    (ws_ring s' = None \<longleftrightarrow> ws_ring s = None) \<and> ws_records s' \<le> Suc (ws_records s)"
proof -
  let ?s = "worker_move w idle_moment s"
  have "worker_trans w s ?s" by (rule worker_trans.move) (simp add: idle_moment_def)
  moreover have "ws_todo ?s = rest \<and> ws_failed ?s = None \<and> (ws_ring ?s = None \<longleftrightarrow> ws_ring s = None) \<and>
      ws_records ?s \<le> Suc (ws_records s)"
  proof (cases x)
    case (Record c)
    with assms(3) have known: "cc_name c \<in> set NAMES" by simp
    from record_known [OF known, of "mo_now idle_moment" "mo_tid idle_moment" "ws_ring s"] obtain seq call where
      "recorder_record True (mo_now idle_moment) (mo_tid idle_moment) c (ws_ring s) = (Inr seq, map_option (store_event call) (ws_ring s))"
      by blast
    with assms Record show ?thesis by (simp add: worker_move_def)
  qed (use assms in \<open>auto simp: worker_move_def finish_call_def library_stores_def idle_moment_def\<close>)
  ultimately show ?thesis by (rule exI [of _ ?s, OF conjI])
qed

lemma pass_steps:
  assumes "ws_todo s = xs @ rest" and "ws_failed s = None" and "\<forall>x \<in> set xs. passes w x"
  shows "\<exists>s'. worker_run w s s' \<and> ws_todo s' = rest \<and> ws_failed s' = None \<and>
    (ws_ring s' = None \<longleftrightarrow> ws_ring s = None) \<and> ws_records s' \<le> ws_records s + length xs"
  using assms
proof (induction xs arbitrary: s)
  case Nil
  then show ?case by auto
next
  case (Cons x xs)
  from Cons.prems pass_step [of s x "xs @ rest" w] obtain s1 where s1: "worker_trans w s s1" "ws_todo s1 = xs @ rest"
    "ws_failed s1 = None" "ws_ring s1 = None \<longleftrightarrow> ws_ring s = None" "ws_records s1 \<le> Suc (ws_records s)" by auto
  from Cons.IH [OF s1(2,3)] Cons.prems(3) obtain s' where "worker_run w s1 s'" "ws_todo s' = rest" "ws_failed s' = None"
    "ws_ring s' = None \<longleftrightarrow> ws_ring s1 = None" "ws_records s' \<le> ws_records s1 + length xs" by auto
  with s1 show ?case by (intro exI [of _ s']) (auto intro: converse_rtranclp_into_rtranclp)
qed

text \<open>Calls return but for the last synchronisation, and the recorder can be opened.\<close>

definition smooth :: "worker_world \<Rightarrow> bool" where
  "smooth w \<longleftrightarrow> \<not> wk_checkpoint_library (ww_args w) \<and>
     ww_outcome w = (\<lambda>line. if line = 150 then Blocks else Returns) \<and>
     ie_mkdir (ww_recorder w) = None \<and> ie_load (ww_recorder w) = None \<and> ie_os (ww_recorder w) = None"

lemma open_succeeds:
  assumes "smooth w"
  shows "\<exists>p m. recorder_init (ww_recorder w) (ww_base w) r r 4096 None = (Inr p, Some m)"
proof -
  have "\<not> (4096 :: u64) < 2" "\<not> (2 ^ 26 :: u64) < 4096" "\<not> ((0xFFFFFFFFFFFFFFFF - 128) div 64 :: u64) < 4096"
    by simp_all
  then show ?thesis using assms
    by (simp add: recorder_init_def flight_init_def smooth_def Let_def)
qed

lemma hang_split:
  assumes "smooth w"
  obtains pre where "before_hang (ww_args w) t = before_open @ Open_Recorder # pre"
    and "\<forall>x \<in> set pre. passes w x" and "length pre \<le> 60"
proof -
  have start: "before_hang (ww_args w) t = before_open @ Open_Recorder # drop 5 (before_hang (ww_args w) t)"
    by (simp add: before_hang_def worker_setup_def before_open_def)
  moreover have short: "length (drop 5 (before_hang (ww_args w) t)) \<le> 60"
    by (simp add: before_hang_def worker_parts)
  moreover have "\<forall>x \<in> set (drop 5 (before_hang (ww_args w) t)). passes w x"
    using assms by (auto simp: before_hang_def worker_parts NAMES_def smooth_def split: if_splits)
  ultimately show thesis by (intro that)
qed

lemma reaches_hang:
  assumes "smooth w"
  shows "\<exists>s. worker_run w (worker_start w) s \<and> hung w s \<and> ws_ring s \<noteq> None \<and> ws_records s \<le> 60"
proof -
  let ?a = "ww_args w" and ?t = "ww_torch w" and ?dev = "wk_device (ww_args w)"
  obtain rest where prog: "before_hang ?a ?t @ hang_step ?a # rest = worker_program ?a ?t" by (rule program_hang)
  obtain pre where split: "before_hang ?a ?t = before_open @ Open_Recorder # pre"
    and pass: "\<forall>x \<in> set pre. passes w x" and short: "length pre \<le> 60"
    by (rule hang_split [OF assms])
  have "ws_todo (worker_start w) = before_open @ Open_Recorder # pre @ hang_step ?a # rest"
    using prog split by (simp add: worker_start_def)
  moreover have "\<forall>x \<in> set before_open. passes w x" using assms by (simp add: before_open_def smooth_def)
  ultimately obtain s1 where s1: "worker_run w (worker_start w) s1" "ws_todo s1 = Open_Recorder # pre @ hang_step ?a # rest"
    "ws_failed s1 = None" "ws_ring s1 = None"
    using pass_steps [of "worker_start w" before_open _ w] by (auto simp: worker_start_def)
  obtain p m where init: "recorder_init (ww_recorder w) (ww_base w) ?dev ?dev 4096 None = (Inr p, Some m)"
    using open_succeeds [OF assms] by blast
  let ?s2 = "worker_move w idle_moment s1"
  have s2: "ws_todo ?s2 = pre @ hang_step ?a # rest" "ws_failed ?s2 = None" "ws_ring ?s2 = Some m" "ws_records ?s2 = 0"
    using s1 init by (simp_all add: worker_move_def)
  have "worker_trans w s1 ?s2" by (rule worker_trans.move) (simp add: idle_moment_def)
  with s1(1) have run: "worker_run w (worker_start w) ?s2" by (rule rtranclp.rtrancl_into_rtrancl)
  from pass_steps [OF s2(1,2) pass] obtain s where s: "worker_run w ?s2 s" "ws_todo s = hang_step ?a # rest"
    "ws_failed s = None" "ws_ring s \<noteq> None" "ws_records s \<le> length pre" using s2(3,4) by auto
  have "hung w s" using s assms by (simp add: hung_def hang_step_def smooth_def)
  with run s short show ?thesis by (intro exI [of _ s]) (auto intro: rtranclp_trans)
qed

end
