(* ===== verification/Scenario_Properties.thy ===== *)
theory Scenario_Properties
  imports Hccl_Scenario Hccl_Reach Report_Properties
begin

text \<open>
  What the four-card scenario shows: the analysis finds the rank that stayed away and the waiting ranks,
  whatever else the checkpoint library recorded; the supervisor signals only processes it started and
  leaves none behind; and a run with the device profile never passes.
\<close>

subsection \<open>Reading the file of a worker\<close>

lemma opened_facts:
  assumes "opened w m" and "wk_device (ww_args w) \<in> set DEVICES"
  shows "fresh_ring m" "length (sh_slots m) = 4096" "uint (sh_rank m) = wk_device (ww_args w)"
proof -
  from assms(1) obtain p where i: "recorder_init (ww_recorder w) (ww_base w) (wk_device (ww_args w))
      (wk_device (ww_args w)) 4096 None = (Inr p, Some m)" by (auto simp: opened_def)
  note facts = recorder_init_Inr [OF i]
  from facts show "fresh_ring m" by blast
  from facts have "length (sh_slots m) = nat (4096 mod 2 ^ 64)" by blast
  then show "length (sh_slots m) = 4096" by simp
  from facts have "uint (sh_rank m) = wk_device (ww_args w) mod 2 ^ 16" by simp
  with assms(2) show "uint (sh_rank m) = wk_device (ww_args w)" by (auto simp: DEVICES_def)
qed

lemma history_mem: "e \<in> set (history m cs) \<longleftrightarrow>
    (\<exists>i < length cs. e = event_view (filled_event m (cs ! i) (of_nat (Suc i))))"
  by (auto simp: history_def)

lemma event_of_call:
  "ev_type (event_view (filled_event m c s)) = call_name c"
  "ev_arg0 (event_view (filled_event m c s)) = uint (rc_arg0 c)"
  "ev_correlation_id (event_view (filled_event m c s)) = uint (rc_correlation c)"
  "ev_rank (event_view (filled_event m c s)) = uint (sh_rank m)"
  by (simp_all add: event_view_def filled_event_def)

lemma history_has:
  "(\<exists>e \<in> set (history m cs). ev_type e = n \<and> ev_arg0 e = a \<and> ev_correlation_id e = k) \<longleftrightarrow>
   (\<exists>c \<in> set cs. call_name c = n \<and> uint (rc_arg0 c) = a \<and> uint (rc_correlation c) = k)"
  unfolding history_mem Bex_def by (simp add: in_set_conv_nth) (metis event_of_call(1-3))

lemma recorded_has:
  assumes "recorded past todo cs" and n: "n \<notin> set library_names"
  shows "(\<exists>c \<in> set cs. call_name c = n \<and> uint (rc_arg0 c) = a \<and> uint (rc_correlation c) = k) \<longleftrightarrow>
    (\<exists>c \<in> set (host_records past). cc_name c = n \<and> cc_arg0 c mod 2 ^ 64 = a \<and> cc_correlation c mod 2 ^ 64 = k)"
    (is "?L \<longleftrightarrow> ?R")
proof -
  let ?own = "filter (\<lambda>c. call_name c \<notin> set library_names) cs"
  have all: "list_all2 matches (host_records past) ?own" using assms(1) by (simp add: recorded_def)
  have "?L \<longleftrightarrow> (\<exists>c \<in> set ?own. call_name c = n \<and> uint (rc_arg0 c) = a \<and> uint (rc_correlation c) = k)"
    using n by auto
  also have "\<dots> \<longleftrightarrow> ?R"
  proof
    assume "\<exists>c \<in> set ?own. call_name c = n \<and> uint (rc_arg0 c) = a \<and> uint (rc_correlation c) = k"
    then obtain i where i: "i < length ?own" "call_name (?own ! i) = n" "uint (rc_arg0 (?own ! i)) = a"
      "uint (rc_correlation (?own ! i)) = k" by (metis in_set_conv_nth)
    from i(1) all have m: "matches (host_records past ! i) (?own ! i)" and l: "i < length (host_records past)"
      by (auto simp: list_all2_conv_all_nth)
    from matches_fields [OF m] i nth_mem [OF l] show ?R by (intro bexI [of _ "host_records past ! i"]) simp_all
  next
    assume ?R
    then obtain i where i: "i < length (host_records past)" "cc_name (host_records past ! i) = n"
      "cc_arg0 (host_records past ! i) mod 2 ^ 64 = a" "cc_correlation (host_records past ! i) mod 2 ^ 64 = k"
      by (metis in_set_conv_nth)
    from i(1) all have m: "matches (host_records past ! i) (?own ! i)" and l: "i < length ?own"
      by (auto simp: list_all2_conv_all_nth)
    from matches_fields [OF m] i nth_mem [OF l]
    show "\<exists>c \<in> set ?own. call_name c = n \<and> uint (rc_arg0 c) = a \<and> uint (rc_correlation c) = k"
      by (intro bexI [of _ "?own ! i"]) simp_all
  qed
  finally show ?thesis .
qed

lemma history_last:
  assumes "last_opt (filter host_call cs) = Some call"
  shows "\<exists>e. last_opt (filter is_host_event (history m cs)) = Some e \<and> ev_type e = call_name call"
proof -
  let ?f = "\<lambda>(i, c). event_view (filled_event m c (of_nat (Suc i)))" and ?xs = "filter (\<lambda>x. host_call (snd x)) (enumerate 0 cs)"
  have "history m cs = map ?f (enumerate 0 cs)"
    by (rule nth_equalityI) (simp_all add: history_def nth_enumerate_eq)
  then have hist: "filter is_host_event (history m cs) = map ?f ?xs"
    by (simp add: filter_map comp_def case_prod_beta host_call_event)
  have snds: "map snd ?xs = filter host_call cs"
    using filter_map [of host_call snd "enumerate 0 cs"] by (simp add: comp_def)
  with assms have ne: "?xs \<noteq> []" by (auto simp: last_opt_def split: if_splits)
  with assms snds have "snd (last ?xs) = call"
    by (metis last_map last_opt_def option.inject option.distinct(1))
  with ne hist show ?thesis
    by (auto simp: last_opt_def last_map case_prod_beta event_of_call)
qed

text \<open>A snapshot of a worker: both reads of the file see the ring of that moment, which has not wrapped.\<close>

definition snapshot_in :: "file_reads \<Rightarrow> path \<Rightarrow> worker_state \<Rightarrow> bool" where
  "snapshot_in fs p s \<longleftrightarrow> ws_records s \<le> 4096 \<and>
     (\<exists>m. ws_ring s = Some m \<and> fs p 0 = Inr (file_image m) \<and> fs p 1 = Inr (file_image m))"

lemma snapshot_read:
  assumes "worker_at w past s" and "snapshot_in fs p s" and "wk_device (ww_args w) \<in> set DEVICES"
  obtains m0 cs h where "recorded past (ws_todo s) cs" and "length cs = ws_records s"
    and "read_events fs p = Inr (h, history m0 cs)" and "hd_rank h = wk_device (ww_args w)"
    and "hd_write_seq h = int (ws_records s)" and "\<forall>e \<in> set (history m0 cs). ev_rank e = hd_rank h"
proof -
  from assms(2) obtain m where m: "ws_ring s = Some m" "fs p 0 = Inr (file_image m)" "fs p 1 = Inr (file_image m)"
    and few: "ws_records s \<le> 4096" by (auto simp: snapshot_in_def)
  from assms(1) m(1) obtain m0 cs where op: "opened w m0" and run: "m = fold store_event cs m0"
    and rec: "recorded past (ws_todo s) cs" and len: "length cs = ws_records s" by (auto simp: worker_at_def)
  note facts = opened_facts [OF op assms(3)]
  have short: "length cs < 2 ^ 64" using few len by simp
  have "take_last 4096 (history m0 cs) = history m0 cs"
    using few len by (simp add: take_last_def history_def)
  with read_run [where fs = fs and p = p, OF facts(1) short m(2,3) [unfolded run]] facts(2)
  have "read_events fs p = Inr (header_view p m, history m0 cs)" by (simp add: run)
  moreover have "sh_rank m = sh_rank m0" unfolding run by (induction cs arbitrary: m0) (simp_all add: store_event_def Let_def)
  moreover have "uint (sh_write_seq m) = int (length cs)"
    using fresh_frame(2) [OF facts(1) short] by (simp add: run uint_nat)
  moreover have "\<forall>e \<in> set (history m0 cs). ev_rank e = uint (sh_rank m0)"
    by (auto simp: history_mem event_of_call)
  ultimately show thesis using rec len facts(3) by (intro that [of cs "header_view p m" m0]) (simp_all add: header_view_def)
qed

text \<open>What the events of a hung worker are to the analysis.\<close>

definition hang_evidence :: "bool \<Rightarrow> event list \<Rightarrow> bool" where
  "hang_evidence away ev \<longleftrightarrow> ((\<exists>e \<in> set ev. begins COMM 2 e) \<longleftrightarrow> \<not> away) \<and>
     ((\<exists>e \<in> set ev. ev_type e = ''HCCL_END'' \<and> ev_arg0 e = COMM \<and> ev_correlation_id e = 2) \<longleftrightarrow> \<not> away) \<and>
     (\<exists>e. last_opt (filter is_host_event ev) = Some e \<and>
        ev_type e = (if away then ''KV_BEGIN'' else ''DEVICE_SYNC_BEGIN''))"

lemma hung_evidence:
  assumes "worker_at w past s" and "hung w s" and "recorded past (ws_todo s) cs"
  shows "hang_evidence (wk_device (ww_args w) = wk_missing_rank (ww_args w)) (history m cs)"
proof -
  note past = hung_at [OF assms(1,2)]
  have lib: "''HCCL_BEGIN'' \<notin> set library_names" "''HCCL_END'' \<notin> set library_names"
    "''KV_BEGIN'' \<notin> set library_names" "''DEVICE_SYNC_BEGIN'' \<notin> set library_names"
    by (simp_all add: library_names_def)
  obtain before c where last: "past = before @ [Record c]"
    and name: "cc_name c = (if wk_device (ww_args w) = wk_missing_rank (ww_args w) then ''KV_BEGIN'' else ''DEVICE_SYNC_BEGIN'')"
    using hang_records(3) unfolding past by blast
  have "\<not> submits (ws_todo s)" using assms(2) by (auto simp: hung_def split: list.splits worker_step.splits)
  with assms(3) last name lib(3,4) obtain call where call: "matches c call" "last_opt (filter host_call cs) = Some call"
    by (auto simp: recorded_def split: if_splits)
  from history_last [OF call(2)] matches_fields(1) [OF call(1)] name
  have "\<exists>e. last_opt (filter is_host_event (history m cs)) = Some e \<and>
      ev_type e = (if wk_device (ww_args w) = wk_missing_rank (ww_args w) then ''KV_BEGIN'' else ''DEVICE_SYNC_BEGIN'')"
    by fastforce
  then show ?thesis
    unfolding hang_evidence_def begins_def history_has recorded_has [OF assms(3) lib(1)]
      recorded_has [OF assms(3) lib(2)] past hang_records(1,2) by blast
qed

subsection \<open>The analysis of the snapshots\<close>

text \<open>
  The scenario: one worker per device, each of which reached its hang in the state \<open>stuck\<close>; every
  snapshot file shows some worker before or after that moment, and each worker is seen at it.
\<close>

definition scenario :: "int \<Rightarrow> (int \<Rightarrow> worker_world) \<Rightarrow> (int \<Rightarrow> worker_state) \<Rightarrow> bool" where
  "scenario missing w stuck \<longleftrightarrow> missing \<in> set DEVICES \<and>
     (\<forall>r \<in> set DEVICES. wk_device (ww_args (w r)) = r \<and> wk_missing_rank (ww_args (w r)) = missing \<and>
        worker_run (w r) (worker_start (w r)) (stuck r) \<and> hung (w r) (stuck r))"

definition snapshots :: "(int \<Rightarrow> worker_world) \<Rightarrow> (int \<Rightarrow> worker_state) \<Rightarrow> file_reads \<Rightarrow> path list \<Rightarrow> bool" where
  "snapshots w stuck fs paths \<longleftrightarrow>
     (\<forall>p \<in> set paths. \<exists>r \<in> set DEVICES. \<exists>s. snapshot_in fs p s \<and>
        (worker_run (w r) (worker_start (w r)) s \<and> worker_run (w r) s (stuck r) \<or> worker_run (w r) (stuck r) s)) \<and>
     (\<forall>r \<in> set DEVICES. \<exists>p \<in> set paths. snapshot_in fs p (stuck r))"

text \<open>A snapshot at least as new as the hang shows the hang.\<close>

lemma late_snapshot:
  assumes "worker_run w s stuck" and "hung w stuck" and at: "worker_at w past s" and at': "worker_at w past' stuck"
    and "snapshot_in fs p s" and "ws_records stuck \<le> ws_records s"
  shows "snapshot_in fs p stuck"
proof -
  from assms(5) obtain m where m: "ws_ring s = Some m" "fs p 0 = Inr (file_image m)" "fs p 1 = Inr (file_image m)"
    "ws_records s \<le> 4096" by (auto simp: snapshot_in_def)
  from run_extends [OF assms(1)] m(1) obtain es where
    "ws_ring stuck = Some (fold store_event es m)" "ws_records stuck = ws_records s + length es"
    by (auto simp: extends_def)
  with assms(6) have "ws_ring stuck = Some m" "ws_records stuck = ws_records s" by auto
  with m show ?thesis by (auto simp: snapshot_in_def)
qed

lemma hung_snapshot:
  assumes sc: "scenario missing w stuck" and r: "r \<in> set DEVICES"
    and s: "worker_run (w r) (worker_start (w r)) s \<and> worker_run (w r) s (stuck r) \<or> worker_run (w r) (stuck r) s"
    and snap: "snapshot_in fs p s" and new: "ws_records (stuck r) \<le> ws_records s"
    and read: "read_events fs p = Inr (h, ev)"
  shows "hang_evidence (r = missing) ev"
proof -
  from sc r have run: "worker_run (w r) (worker_start (w r)) (stuck r)" and hung: "hung (w r) (stuck r)"
    and args: "wk_device (ww_args (w r)) = r" "wk_missing_rank (ww_args (w r)) = missing" by (auto simp: scenario_def)
  have "\<exists>s'. worker_run (w r) (worker_start (w r)) s' \<and> hung (w r) s' \<and> snapshot_in fs p s'"
  proof (cases "worker_run (w r) (stuck r) s")
    case True
    with run hung hung_stays snap show ?thesis by (meson rtranclp_trans)
  next
    case False
    with s have before: "worker_run (w r) (worker_start (w r)) s" "worker_run (w r) s (stuck r)" by blast+
    from run_at [OF before(1)] run_at [OF run] obtain past past' where
      "worker_at (w r) past s" "worker_at (w r) past' (stuck r)" by blast
    from late_snapshot [OF before(2) hung this snap new] run hung show ?thesis by blast
  qed
  then obtain s' past where s': "hung (w r) s'" "snapshot_in fs p s'" "worker_at (w r) past s'"
    using run_at by blast
  have dev: "wk_device (ww_args (w r)) \<in> set DEVICES" using args r by simp
  obtain m0 cs h' where "recorded past (ws_todo s') cs" "read_events fs p = Inr (h', history m0 cs)"
    by (rule snapshot_read [OF s'(3,2) dev])
  with hung_evidence [OF s'(3,1)] read args show ?thesis by auto
qed

lemma reading_of_snapshot:
  assumes sc: "scenario missing w stuck" and snaps: "snapshots w stuck fs paths" and d: "d \<in> set (readings fs paths)"
  obtains r s p where "r \<in> set DEVICES" and "p \<in> set paths" and "snapshot_in fs p s"
    and "worker_run (w r) (worker_start (w r)) s \<and> worker_run (w r) s (stuck r) \<or> worker_run (w r) (stuck r) s"
    and "read_events fs p = Inr (rd_header d, rd_events d)" and "rd_rank d = r" and "rd_seq d = int (ws_records s)"
    and "\<forall>e \<in> set (rd_events d). ev_rank e = rd_rank d" and "length (rd_events d) \<le> 4096"
proof -
  from d obtain p where p: "p \<in> set paths" "read_events fs p = Inr (rd_header d, rd_events d)" by (auto simp: readings_iff)
  with snaps obtain r s where r: "r \<in> set DEVICES" and snap: "snapshot_in fs p s"
    and run: "worker_run (w r) (worker_start (w r)) s \<and> worker_run (w r) s (stuck r) \<or> worker_run (w r) (stuck r) s"
    unfolding snapshots_def by blast
  from sc r have "worker_run (w r) (worker_start (w r)) (stuck r)" "wk_device (ww_args (w r)) = r" by (auto simp: scenario_def)
  with run have all: "worker_run (w r) (worker_start (w r)) s" by (meson rtranclp_trans)
  then obtain past where at: "worker_at (w r) past s" using run_at by blast
  have dev: "wk_device (ww_args (w r)) \<in> set DEVICES" using \<open>wk_device (ww_args (w r)) = r\<close> r by simp
  obtain m0 cs h where "length cs = ws_records s" "read_events fs p = Inr (h, history m0 cs)"
    "hd_rank h = wk_device (ww_args (w r))" "hd_write_seq h = int (ws_records s)"
    "\<forall>e \<in> set (history m0 cs). ev_rank e = hd_rank h"
    by (rule snapshot_read [OF at snap dev])
  moreover from this snap have "length (history m0 cs) \<le> 4096" by (simp add: history_def snapshot_in_def)
  ultimately show thesis
    using p r snap run \<open>wk_device (ww_args (w r)) = r\<close> by (intro that [of r p s]) auto
qed

lemma scenario_kept:
  assumes sc: "scenario missing w stuck" and snaps: "snapshots w stuck fs paths"
  shows "r \<in> set DEVICES \<Longrightarrow> \<exists>d. kept fs paths r d" "kept fs paths r d \<Longrightarrow> r \<in> set DEVICES"
    "kept fs paths r d \<Longrightarrow> hang_evidence (r = missing) (rd_events d)"
proof -
  have stuck: "\<exists>d \<in> set (readings fs paths). rd_rank d = r \<and> rd_seq d = int (ws_records (stuck r))"
    if r: "r \<in> set DEVICES" for r
  proof -
    from snaps r obtain p where p: "p \<in> set paths" "snapshot_in fs p (stuck r)" unfolding snapshots_def by blast
    from sc r have run: "worker_run (w r) (worker_start (w r)) (stuck r)" and dev: "wk_device (ww_args (w r)) = r"
      by (auto simp: scenario_def)
    from run_at [OF run] obtain past where at: "worker_at (w r) past (stuck r)" by blast
    obtain m0 cs h where "read_events fs p = Inr (h, history m0 cs)" "hd_rank h = r"
      "hd_write_seq h = int (ws_records (stuck r))"
      using dev r by (auto intro: snapshot_read [OF at p(2)])
    with p show ?thesis by (intro bexI [of _ "\<lparr>rd_header = h, rd_events = history m0 cs\<rparr>"]) (auto simp: readings_iff)
  qed
  show "\<exists>d. kept fs paths r d" if "r \<in> set DEVICES"
  proof -
    from stuck [OF that] have "r \<in> rd_rank ` set (readings fs paths)" by force
    then have "r \<in> set (dict_keys (kept_table fs paths))" using table_ok_ranks [OF kept_table_ok] by simp
    then obtain d where "dict_get (kept_table fs paths) r = Some d"
      by (metis map_of_eq_None_iff not_None_eq set_map)
    then show ?thesis using table_kept [OF kept_table_ok] by blast
  qed
  show "r \<in> set DEVICES" if k: "kept fs paths r d"
  proof -
    from k have "d \<in> set (readings fs paths)" "rd_rank d = r" by (auto simp: kept_def dest: newest_of_mem)
    then show ?thesis using reading_of_snapshot [OF sc snaps] by metis
  qed
  show "hang_evidence (r = missing) (rd_events d)" if k: "kept fs paths r d"
  proof -
    from k have d: "d \<in> set (readings fs paths)" "rd_rank d = r" and newest: "newest_of (readings fs paths) d"
      by (auto simp: kept_def dest: newest_of_mem)
    obtain r' s p where r': "r' \<in> set DEVICES" and snap: "snapshot_in fs p s" and run: "worker_run (w r') (worker_start (w r')) s \<and>
        worker_run (w r') s (stuck r') \<or> worker_run (w r') (stuck r') s"
      and read: "read_events fs p = Inr (rd_header d, rd_events d)" and rank: "rd_rank d = r'" "rd_seq d = int (ws_records s)"
      by (rule reading_of_snapshot [OF sc snaps d(1)])
    from stuck [OF r'] obtain d' where "d' \<in> set (readings fs paths)" "rd_rank d' = r'"
      "rd_seq d' = int (ws_records (stuck r'))" by blast
    with newest_of_max [OF newest] rank have "ws_records (stuck r') \<le> ws_records s" by fastforce
    from hung_snapshot [OF sc r' run snap this read] rank d(2) show ?thesis by simp
  qed
qed

lemma scenario_begun:
  assumes "scenario missing w stuck" and "snapshots w stuck fs paths"
  shows "has_begun fs paths COMM 2 r \<longleftrightarrow> r \<in> set (others missing)"
proof
  assume "has_begun fs paths COMM 2 r"
  then obtain d where "kept fs paths r d" "\<exists>e \<in> set (rd_events d). begins COMM 2 e" by (auto simp: has_begun_def)
  with scenario_kept(2,3) [OF assms] show "r \<in> set (others missing)" by (fastforce simp: hang_evidence_def others_def)
next
  assume "r \<in> set (others missing)"
  then have r: "r \<in> set DEVICES" "r \<noteq> missing" by (auto simp: others_def)
  from scenario_kept(1) [OF assms r(1)] obtain d where "kept fs paths r d" by blast
  with scenario_kept(3) [OF assms this] r(2) show "has_begun fs paths COMM 2 r"
    by (auto simp: hang_evidence_def has_begun_def)
qed

lemma scenario_end_observed:
  assumes sc: "scenario missing w stuck" and snaps: "snapshots w stuck fs paths"
  shows "end_observed (kept_table fs paths) COMM 2 = others missing"
proof -
  let ?ended = "\<lambda>(r, d). \<exists>e \<in> set (rd_events d). ev_type e = ''HCCL_END'' \<and> ev_arg0 e = COMM \<and> ev_correlation_id e = 2"
  have dist: "distinct (dict_keys (kept_table fs paths))" by (rule table_distinct [OF kept_table_ok])
  have get: "(r, d) \<in> set (kept_table fs paths) \<longleftrightarrow> kept fs paths r d" for r d
    using table_kept [OF kept_table_ok, of fs paths r d] dist by (simp add: map_of_eq_Some_iff)
  have ended: "kept fs paths r d \<Longrightarrow> ?ended (r, d) \<longleftrightarrow> r \<noteq> missing" for r d
    using scenario_kept(3) [OF sc snaps] by (simp add: hang_evidence_def)
  have "set (map fst (filter ?ended (kept_table fs paths))) = set (others missing)"
  proof (intro set_eqI iffI)
    fix r assume "r \<in> set (map fst (filter ?ended (kept_table fs paths)))"
    then obtain d where "(r, d) \<in> set (kept_table fs paths)" "?ended (r, d)" by fastforce
    then have "kept fs paths r d" "?ended (r, d)" using get by blast+
    with ended scenario_kept(2) [OF sc snaps] show "r \<in> set (others missing)" by (auto simp: others_def)
  next
    fix r assume "r \<in> set (others missing)"
    then have r: "r \<in> set DEVICES" "r \<noteq> missing" by (auto simp: others_def)
    from scenario_kept(1) [OF sc snaps r(1)] obtain d where d: "kept fs paths r d" by blast
    with ended [OF d] r(2) have "(r, d) \<in> set (filter ?ended (kept_table fs paths))" by (simp add: get)
    then show "r \<in> set (map fst (filter ?ended (kept_table fs paths)))" by force
  qed
  moreover have "distinct (map fst (filter ?ended (kept_table fs paths)))"
    using dist by (rule distinct_map_filter)
  moreover have "sorted (others missing)" "distinct (others missing)" by (auto simp: others_def DEVICES_def)
  ultimately show ?thesis
    unfolding end_observed_def by (intro sorted_distinct_set_unique) simp_all
qed

lemma scenario_collective:
  assumes sc: "scenario missing w stuck" and snaps: "snapshots w stuck fs paths"
    and an: "analyze fs ord depth paths (Some DEVICES) None = Inr rep" and c: "c \<in> set (rp_collectives rep)"
    and target: "co_operation_id c = 2" "co_communicator_id c = COMM"
  shows "co_missing_expected c = [missing]" "co_entered c = others missing" "co_end_observed c = others missing"
proof -
  obtain comm op_id entered where entry: "c = collective_entry (kept_table fs paths) (Some DEVICES) ((comm, op_id), entered)"
    and dist: "distinct (dict_keys entered)" and keys: "set (dict_keys entered) = {r. has_begun fs paths comm op_id r}"
    by (rule collective_inE [OF an c])
  from entry target have ids: "comm = COMM" "op_id = 2" by (simp_all add: collective_entry_def Let_def)
  have sorted: "sorted (others missing)" "distinct (others missing)" by (auto simp: others_def DEVICES_def)
  have keys: "set (dict_keys entered) = set (others missing)"
    using keys scenario_begun [OF sc snaps] by (auto simp: ids)
  have "sort (dict_keys entered) = others missing"
    using keys dist sorted by (intro sorted_distinct_set_unique) simp_all
  then show "co_entered c = others missing" by (simp add: entry collective_entry_def Let_def)
  have "missing \<in> set DEVICES" using sc by (simp add: scenario_def)
  then have "filter (\<lambda>r. r \<notin> set (others missing)) DEVICES = [missing]" by (auto simp: others_def DEVICES_def)
  then show "co_missing_expected c = [missing]"
    unfolding entry collective_entry_def Let_def prod.case option.case keys by (simp add: sorted_set_def)
  show "co_end_observed c = others missing"
    using scenario_end_observed [OF sc snaps] by (simp add: entry ids collective_entry_def Let_def)
qed

lemma scenario_listed:
  assumes sc: "scenario missing w stuck" and snaps: "snapshots w stuck fs paths"
    and an: "analyze fs ord depth paths (Some DEVICES) None = Inr rep"
  shows "\<exists>c \<in> set (rp_collectives rep). co_operation_id c = 2 \<and> co_communicator_id c = COMM"
proof -
  obtain r where "r \<in> set (others missing)"
    by (cases "missing = 4") (auto simp: others_def DEVICES_def)
  with scenario_begun [OF sc snaps] have "has_begun fs paths COMM 2 r" by blast
  then obtain d e where "kept fs paths r d" "last_begin (rd_events d) COMM 2 e"
    using last_begin_ex by (auto simp: has_begun_def) metis
  then have "group_get (sc_groups (scan_ranks (kept_table fs paths))) (COMM, 2, r) = Some e"
    using group_entry_iff [OF kept_table_ok] by blast
  then obtain entered where "((COMM, 2), entered) \<in> set (sc_groups (scan_ranks (kept_table fs paths)))"
    by (auto simp: group_get_def dest: map_of_SomeD split: option.splits)
  then have "collective_entry (kept_table fs paths) (Some DEVICES) ((COMM, 2), entered) \<in> set (rp_collectives rep)"
    unfolding analyze_Inr(3) [OF an] collectives_def by (intro imageI [THEN set_map [THEN equalityD2, THEN subsetD]]) auto
  then show ?thesis by (intro bexI) (simp_all add: collective_entry_def Let_def)
qed

lemma scenario_last:
  assumes sc: "scenario missing w stuck" and snaps: "snapshots w stuck fs paths"
    and an: "analyze fs ord depth paths (Some DEVICES) None = Inr rep" and r: "r \<in> set DEVICES"
  shows "check_last rep r (if r = missing then ''KV_BEGIN'' else ''DEVICE_SYNC_BEGIN'') = None"
proof -
  from scenario_kept(1) [OF sc snaps r] obtain d where d: "kept fs paths r d" by blast
  with analyze_rank_iff [OF an] have "dict_get (rp_ranks rep) r = Some (report_for d)" by blast
  moreover have "rr_last_host_event (report_for d) = last_opt (filter is_host_event (rd_events d))"
    by (simp add: report_for_def rank_report_of_def Let_def)
  ultimately show ?thesis
    using scenario_kept(3) [OF sc snaps d] by (auto simp: check_last_def hang_evidence_def py_assert_def)
qed

lemma first_error_None: "first_error es = None \<longleftrightarrow> (\<forall>e \<in> set es. e = None)"
  by (induction es rule: first_error.induct) auto

lemma scenario_checks:
  assumes sc: "scenario missing w stuck" and snaps: "snapshots w stuck fs paths"
    and an: "analyze fs ord depth paths (Some DEVICES) None = Inr rep"
  shows "check_collective missing rep = None"
proof -
  let ?t = "filter (\<lambda>c. co_operation_id c = 2 \<and> co_communicator_id c = COMM) (rp_collectives rep)"
  have "?t \<noteq> []" using scenario_listed [OF sc snaps an] by (simp add: filter_empty_conv)
  then obtain c cs where t: "?t = c # cs" by (cases ?t) simp_all
  then have "c \<in> set ?t" by simp
  then have c: "c \<in> set (rp_collectives rep)" "co_operation_id c = 2" "co_communicator_id c = COMM" by simp_all
  have "missing \<in> set DEVICES" using sc by (simp add: scenario_def)
  with scenario_last [OF sc snaps an]
  have "check_last rep missing ''KV_BEGIN'' = None" "\<forall>r \<in> set (others missing). check_last rep r ''DEVICE_SYNC_BEGIN'' = None"
    by (fastforce simp: others_def)+
  with scenario_collective [OF sc snaps an c] show ?thesis
    by (auto simp: check_collective_def t first_error_None py_assert_def)
qed

lemma scenario_analysis:
  assumes sc: "scenario missing w stuck" and snaps: "snapshots w stuck fs paths"
    and ord: "\<forall>xs. set (ord xs) = set xs" and depth: "4096 * length paths \<le> depth"
  shows "\<exists>rep. analyze fs ord depth paths (Some DEVICES) None = Inr rep"
proof (rule analyze_enough [OF ord])
  show "\<forall>d \<in> set (readings fs paths). \<forall>e \<in> set (rd_events d). ev_rank e = rd_rank d"
  proof
    fix d assume "d \<in> set (readings fs paths)"
    then show "\<forall>e \<in> set (rd_events d). ev_rank e = rd_rank d" by (rule reading_of_snapshot [OF sc snaps])
  qed
  have "length (rd_events d) \<le> 4096" if "d \<in> set (readings fs paths)" for d
    using that by (rule reading_of_snapshot [OF sc snaps])
  then have "sum_list (map (\<lambda>d. length (rd_events d)) (readings fs paths)) \<le>
      sum_list (map (\<lambda>_. 4096) (readings fs paths))" by (rule sum_list_mono)
  also have "\<dots> = 4096 * length (readings fs paths)" by (simp add: sum_list_triv)
  also have "length (readings fs paths) \<le> length paths" by (simp add: readings_def List.map_filter_def)
  finally show "sum_list (map (\<lambda>d. length (rd_events d)) (readings fs paths)) \<le> depth" using depth by linarith
qed

text \<open>C8: The scenario is found. Let four workers, one of them told to stay away from the second collective,
  reach their hang, in any interleaving with the records of the checkpoint library and with at most
  4096 records each, and let the snapshots show these workers at any moments, every one of them at
  least once at its hang. Then the analysis returns a report on which every assertion of \<open>run\<close> about
  the collective holds: rank \<open>missing\<close> alone is missing, the other three entered and saw their host call
  end, their last host event is the open device synchronisation, and that of the missing rank its gate.\<close>

theorem scenario_detected:
  assumes "scenario missing w stuck" and "snapshots w stuck fs paths"
    and "\<forall>xs. set (ord xs) = set xs" and "4096 * length paths \<le> depth"
  shows "\<exists>rep. analyze fs ord depth paths (Some DEVICES) None = Inr rep \<and> check_collective missing rep = None"
  using scenario_analysis [OF assms] scenario_checks [OF assms(1,2)] by blast

text \<open>Four workers whose calls return, rank 6 held back, and one snapshot of each at its hang.\<close>

definition demo_world :: "int \<Rightarrow> worker_world" where
  "demo_world r = \<lparr>ww_args = \<lparr>wk_device = r, wk_missing_rank = 6, wk_checkpoint_library = False, wk_device_profile = False\<rparr>,
     ww_torch = \<lparr>tf_compute = 1, tf_transfer = 2, tf_default = 0, tf_z_numel = 16384, tf_kv_numel = 16384,
       tf_result_numel = 16384\<rparr>,
     ww_outcome = (\<lambda>line. if line = 150 then Blocks else Returns),
     ww_recorder = \<lparr>ie_pid = 100 + r, ie_mkdir = None, ie_load = None, ie_os = None, ie_wall_ns = 0, ie_mono_ns = 0,
       ie_strerror = (\<lambda>_. [])\<rparr>,
     ww_base = Path [''out'', ''flight'']\<rparr>"

definition demo_path :: "int \<Rightarrow> path" where
  "demo_path r = Path (replicate (nat r) ''dumps'')"

definition demo_rank :: "path \<Rightarrow> int" where
  "demo_rank p = int (length (path_parts p))"

lemma demo_scenario:
  "\<exists>stuck fs. scenario 6 demo_world stuck \<and> snapshots demo_world stuck fs (map demo_path DEVICES)"
proof -
  have "\<forall>r. \<exists>s. worker_run (demo_world r) (worker_start (demo_world r)) s \<and> hung (demo_world r) s \<and>
      ws_ring s \<noteq> None \<and> ws_records s \<le> 60"
    by (intro allI reaches_hang) (simp add: smooth_def demo_world_def)
  then obtain stuck where stuck: "\<And>r. worker_run (demo_world r) (worker_start (demo_world r)) (stuck r)"
    "\<And>r. hung (demo_world r) (stuck r)" "\<And>r. ws_ring (stuck r) \<noteq> None" "\<And>r. ws_records (stuck r) \<le> 60" by metis
  let ?fs = "\<lambda>p k :: nat. Inr (file_image (the (ws_ring (stuck (demo_rank p)))))"
  have "demo_rank (demo_path r) = r" if "r \<in> set DEVICES" for r
    using that by (auto simp: demo_rank_def demo_path_def DEVICES_def)
  then have snap: "r \<in> set DEVICES \<Longrightarrow> snapshot_in ?fs (demo_path r) (stuck r)" for r
    using stuck(3,4) [of r] by (auto simp: snapshot_in_def)
  have "scenario 6 demo_world stuck"
    using stuck by (simp add: scenario_def demo_world_def DEVICES_def)
  moreover have "snapshots demo_world stuck ?fs (map demo_path DEVICES)"
    unfolding snapshots_def using snap by auto
  ultimately show ?thesis by blast
qed

lemma demo_depth: "4096 * length (map demo_path DEVICES) \<le> 16384"
  by (simp add: DEVICES_def)

theorem scenario_detected_witness:
  "\<exists>stuck fs rep. scenario 6 demo_world stuck \<and> snapshots demo_world stuck fs (map demo_path DEVICES) \<and>
     analyze fs (\<lambda>xs. xs) 16384 (map demo_path DEVICES) (Some DEVICES) None = Inr rep \<and> check_collective 6 rep = None"
proof -
  obtain stuck fs where demo: "scenario 6 demo_world stuck" "snapshots demo_world stuck fs (map demo_path DEVICES)"
    using demo_scenario by blast
  from scenario_detected [OF demo _ demo_depth, of "\<lambda>xs. xs"] demo show ?thesis by auto
qed

subsection \<open>A run that passes\<close>

text \<open>No file operation of the analysis fails, and no option of the scenario is on.\<close>

definition quiet :: "after_env \<Rightarrow> bool" where
  "quiet env \<longleftrightarrow> oe_mkdir (ae_out env) = None \<and> oe_write (ae_out env) = (\<lambda>_. None) \<and>
     oe_meta (ae_out env) = (\<lambda>_. No_Meta) \<and> ae_write env = (\<lambda>_. None)"

definition plain_run :: "run_args \<Rightarrow> bool" where
  "plain_run a \<longleftrightarrow> ra_checkpoint_library a = [] \<and> ra_mspti_library a = [] \<and> \<not> ra_device_profile a \<and> \<not> ra_sample_aicpu a"

lemma quiet_outputs:
  assumes "quiet env"
  shows "\<exists>d. write_outputs show (ae_out env) rep paths = (None, d)"
proof -
  have "\<exists>ls. snapshot_lines show (ae_out env) paths = Inr ls"
    using assms by (simp add: snapshot_lines_def collect_Inr_iff snapshot_line_def quiet_def)
  moreover obtain full where "full_events (oe_fs (ae_out env)) rep paths = (None, full)" by (simp add: full_events_fold)
  ultimately show ?thesis using assms by (auto simp: write_outputs_def out_write_def quiet_def)
qed

lemma snapshots_sorted: "snapshots w stuck fs (sort paths) = snapshots w stuck fs paths"
  by (simp add: snapshots_def)

text \<open>The plain scenario ends with \<open>PASS\<close>.\<close>

lemma scenario_passes:
  assumes sc: "scenario (ra_missing_rank a) w stuck" and snaps: "snapshots w stuck (oe_fs (ae_out env)) (ae_dumps env)"
    and ord: "\<forall>xs. set (ae_ord env xs) = set xs" and depth: "4096 * length (ae_dumps env) \<le> ae_depth env"
    and quiet: "quiet env" and plain: "plain_run a"
  shows "fst (run_after a env children) = None"
proof -
  have snaps': "snapshots w stuck (oe_fs (ae_out env)) (sort (ae_dumps env))"
    using snaps by (simp add: snapshots_sorted)
  from scenario_analysis [OF sc snaps' ord] depth obtain rep where
    rep: "analyze (oe_fs (ae_out env)) (ae_ord env) (ae_depth env) (sort (ae_dumps env)) (Some DEVICES) None = Inr rep"
    by auto
  from scenario_checks [OF sc snaps' rep] have ok: "check_collective (ra_missing_rank a) rep = None" .
  have "ae_dumps env \<noteq> []" using snaps by (auto simp: snapshots_def DEVICES_def)
  moreover obtain d where "write_outputs (ae_show env) (ae_out env) rep (sort (ae_dumps env)) = (None, d)"
    using quiet_outputs [OF quiet] by blast
  ultimately show ?thesis
    using plain rep ok quiet
    by (simp add: run_after_def after_ops_def plain_run_def analyze_op_def on_report_def put_def quiet_def)
qed

subsection \<open>What the supervisor stops\<close>

text \<open>The processes that \<open>Popen\<close> yields during a run.\<close>

definition spawned :: "run_args \<Rightarrow> launch_env \<Rightarrow> int set" where
  "spawned a env = {pid. (ra_sample_aicpu a \<and> le_sampler env = Inr pid) \<or>
     (\<exists>r \<in> set DEVICES. le_worker env r = Inr pid) \<or> le_watchdog env = Inr pid}"

definition owns :: "supervisor \<Rightarrow> int set" where
  "owns s = set (dict_values (sp_children s)) \<union> set_option (sp_watchdog s) \<union> set_option (sp_sampler s)"

lemma launch_started:
  assumes "launch a env = (res, s)"
  shows "\<exists>n. sp_children s = map (\<lambda>r. (r, projr (le_worker env r))) (take n DEVICES) \<and>
      list_all (\<lambda>r. \<not> isl (le_worker env r)) (take n DEVICES)"
    "res = None \<Longrightarrow> dict_keys (sp_children s) = DEVICES \<and> sp_watchdog s \<noteq> None \<and> sp_started s"
    "sp_watchdog s = Some pid \<Longrightarrow> le_watchdog env = Inr pid"
    "sp_sampler s = Some pid \<Longrightarrow> ra_sample_aicpu a \<and> le_sampler env = Inr pid"
proof -
  show "\<exists>n. sp_children s = map (\<lambda>r. (r, projr (le_worker env r))) (take n DEVICES) \<and>
      list_all (\<lambda>r. \<not> isl (le_worker env r)) (take n DEVICES)"
  proof -
    have "\<exists>n \<in> {0, 1, 2, 3, 4}. sp_children s = map (\<lambda>r. (r, projr (le_worker env r))) (take n DEVICES) \<and>
        list_all (\<lambda>r. \<not> isl (le_worker env r)) (take n DEVICES)"
      using assms
      by (auto simp: launch_def launch_ops_def start_worker_def acquire_def wait_op_def supervisor_init_def DEVICES_def
          split: sum.splits option.splits if_splits)
    then show ?thesis by blast
  qed
  show "res = None \<Longrightarrow> dict_keys (sp_children s) = DEVICES \<and> sp_watchdog s \<noteq> None \<and> sp_started s"
    "sp_watchdog s = Some pid \<Longrightarrow> le_watchdog env = Inr pid"
    "sp_sampler s = Some pid \<Longrightarrow> ra_sample_aicpu a \<and> le_sampler env = Inr pid"
    using assms
    by (auto simp: launch_def launch_ops_def start_worker_def acquire_def wait_op_def supervisor_init_def DEVICES_def
        split: sum.splits option.splits if_splits)
qed

lemma owns_spawned:
  assumes "launch a env = (res, s)"
  shows "owns s \<subseteq> spawned a env"
proof
  fix pid assume "pid \<in> owns s"
  then consider "pid \<in> set (dict_values (sp_children s))" | "sp_watchdog s = Some pid" | "sp_sampler s = Some pid"
    by (auto simp: owns_def)
  then show "pid \<in> spawned a env"
  proof cases
    case 1
    from launch_started(1) [OF assms] obtain n where
      n: "sp_children s = map (\<lambda>r. (r, projr (le_worker env r))) (take n DEVICES)"
      "list_all (\<lambda>r. \<not> isl (le_worker env r)) (take n DEVICES)" by blast
    with 1 obtain r where r: "r \<in> set (take n DEVICES)" "pid = projr (le_worker env r)" by auto
    with n(2) have "le_worker env r = Inr pid" by (auto simp: list_all_iff)
    with in_set_takeD [OF r(1)] show ?thesis by (auto simp: spawned_def)
  next
    case 2
    with launch_started(3) [OF assms] show ?thesis by (simp add: spawned_def)
  next
    case 3
    with launch_started(4) [OF assms] show ?thesis by (simp add: spawned_def)
  qed
qed

lemma cleanup_ops:
  "Kill pid \<in> set (cleanup running stays s) \<or> Terminate pid \<in> set (cleanup running stays s) \<Longrightarrow> pid \<in> owns s"
  "pid \<in> owns s \<Longrightarrow> Wait pid \<in> set (cleanup running stays s)"
  "pid \<in> set (dict_values (sp_children s)) \<Longrightarrow> running pid \<Longrightarrow> Kill pid \<in> set (cleanup running stays s)"
  "k \<in> set (sp_logs s) \<Longrightarrow> Close k \<in> set (cleanup running stays s)"
  by (auto simp: cleanup_def owns_def reap_or_kill_def split: option.splits if_splits)

text \<open>C39: The supervisor stops its own processes and all of them. However a run ends, by an error of any
  start, a timeout, an interrupt or with success, the \<open>finally\<close> block signals only processes that
  \<open>Popen\<close> returned in this run; it waits for every process started, kills every worker still running
  and closes every log. When nothing failed, all four workers and the watchdog were running.\<close>

theorem cleanup_owned:
  assumes "supervise a env running stays = (res, s, ops)"
  shows "(Kill pid \<in> set ops \<or> Terminate pid \<in> set ops \<longrightarrow> pid \<in> spawned a env) \<and>
    (pid \<in> owns s \<longrightarrow> Wait pid \<in> set ops) \<and>
    (pid \<in> set (dict_values (sp_children s)) \<and> running pid \<longrightarrow> Kill pid \<in> set ops) \<and>
    (k \<in> set (sp_logs s) \<longrightarrow> Close k \<in> set ops) \<and>
    (res = None \<longrightarrow> dict_keys (sp_children s) = DEVICES \<and> sp_watchdog s \<noteq> None)"
proof -
  from assms have l: "launch a env = (res, s)" and ops: "ops = cleanup running stays s"
    by (auto simp: supervise_def split: prod.splits)
  from owns_spawned [OF l] launch_started(2) [OF l] cleanup_ops [where running = running and stays = stays and s = s] show ?thesis
    unfolding ops by blast
qed

text \<open>The fourth worker cannot be started.\<close>

definition demo_args :: run_args where
  "demo_args = \<lparr>ra_output = Path [''out''], ra_missing_rank = 6, ra_library = ''lib'', ra_checkpoint_library = [],
     ra_mspti_library = [], ra_mspti_preload = [], ra_device_profile = True, ra_sample_aicpu = False,
     ra_hang_timeout = 5, ra_startup_timeout = 90, ra_run_timeout = 90\<rparr>"

definition demo_launch :: launch_env where
  "demo_launch = \<lparr>le_sampler = Inr 1, le_log = Inr,
     le_worker = (\<lambda>r. if r = 7 then Inl (OtherOSError ''fork'') else Inr (100 + r)), le_watch_log = Inr 9,
     le_watchdog = Inr 10, le_start = None, le_ready = (0, []), le_hang = (0, []), le_stalled = (0, [])\<rparr>"

theorem cleanup_owned_witness:
  "\<exists>res s ops. supervise demo_args demo_launch (\<lambda>pid. pid = 105) (\<lambda>_. False) = (res, s, ops) \<and>
     Kill 105 \<in> set ops \<and> 105 \<in> spawned demo_args demo_launch \<and> Kill 104 \<notin> set ops"
proof -
  obtain res s ops where run: "supervise demo_args demo_launch (\<lambda>pid. pid = 105) (\<lambda>_. False) = (res, s, ops)"
    by (metis prod_cases3)
  then have eval: "res = Some (Error (OSError ''fork''))" "dict_values (sp_children s) = [104, 105, 106]"
    "ops = [Kill 105, Wait 104, Wait 105, Wait 106, Close 4, Close 5, Close 6, Close 7]"
    by (auto simp: supervise_def launch_def launch_ops_def start_worker_def acquire_def supervisor_init_def
        DEVICES_def demo_args_def demo_launch_def raised_def cleanup_def)
  with cleanup_owned [OF run, of 105 0] run show ?thesis by auto
qed

subsection \<open>The device profile\<close>

text \<open>What the local name \<open>summarize\<close> stands for changes in one statement only.\<close>

definition keeps_name :: "after_op \<Rightarrow> bool" where
  "keeps_name f \<longleftrightarrow> (\<forall>s. as_summarize (snd (f s)) = as_summarize s)"

lemma keeps_run:
  assumes "\<forall>f \<in> set fs. keeps_name f"
  shows "as_summarize (snd (run_ops fs s)) = as_summarize s"
  using run_ops_invariant [of "\<lambda>s'. as_summarize s' = as_summarize s" s fs] assms by (simp add: keeps_name_def)

lemma keeps_put: "as_summarize (snd (put env name c s)) = as_summarize s"
  by (simp add: put_def split: option.split)

lemma keeps_ops:
  "keeps_name (analyze_op env)" "keeps_name (put env name c)" "keeps_name (on_report check)"
  "f \<in> set (mspti_ops a env children) \<Longrightarrow> keeps_name f"
  by (auto simp: keeps_name_def keeps_put analyze_op_def on_report_def mspti_ops_def ring_op_def
      split: sum.split option.split prod.split)

definition checked_ops :: "run_args \<Rightarrow> after_env \<Rightarrow> (int, int) dict \<Rightarrow> after_op list" where
  "checked_ops a env children =
     (if ra_mspti_library a \<noteq> [] then mspti_ops a env children else []) @
     [on_report (check_collective (ra_missing_rank a))] @
     (if ra_checkpoint_library a \<noteq> []
      then map (\<lambda>rank. on_report (\<lambda>rep. check_progress rep rank)) (others (ra_missing_rank a)) else []) @
     [put env [''scenario.json''] (scenario_json a)]"

lemma after_ops_split:
  "after_ops a env children = ([analyze_op env] @ (if ra_sample_aicpu a then [samples_op a env] else []) @
     checked_ops a env children) @ (if ra_device_profile a then profile_ops env else [])"
  by (simp add: after_ops_def checked_ops_def)

lemma name_before_profile:
  assumes "run_ops ([analyze_op env] @ (if ra_sample_aicpu a then [samples_op a env] else []) @
     checked_ops a env children) after_init = (None, s)"
  shows "as_summarize s = (if ra_sample_aicpu a then Some Sampler_Summarize else None)"
proof -
  have keep: "\<forall>f \<in> set (checked_ops a env children). keeps_name f"
    using keeps_ops by (auto simp: checked_ops_def)
  have first: "as_summarize (snd (analyze_op env after_init)) = None"
    using keeps_ops(1) by (simp add: keeps_name_def after_init_def)
  have sampler: "as_summarize (snd (samples_op a env s')) = Some Sampler_Summarize" for s'
    by (simp add: samples_op_def Let_def keeps_put split: option.split sum.split)
  obtain s1 where s1: "analyze_op env after_init = (None, s1)" "as_summarize s1 = None"
    using assms first by (auto simp: run_ops_append split: prod.splits option.splits)
  show ?thesis
  proof (cases "ra_sample_aicpu a")
    case True
    with assms s1 obtain s2 where s2: "samples_op a env s1 = (None, s2)" "run_ops (checked_ops a env children) s2 = (None, s)"
      by (auto simp: run_ops_append split: prod.splits option.splits)
    with sampler [of s1] keeps_run [OF keep, of s2] True show ?thesis by simp
  next
    case False
    with assms s1 keeps_run [OF keep, of s1] show ?thesis by simp
  qed
qed

lemma profile_flag:
  "samples_op (a\<lparr>ra_device_profile := b\<rparr>) env = samples_op a env"
  "mspti_ops (a\<lparr>ra_device_profile := b\<rparr>) env children = mspti_ops a env children"
  "scenario_json (a\<lparr>ra_device_profile := b\<rparr>) = scenario_json a"
proof -
  show "samples_op (a\<lparr>ra_device_profile := b\<rparr>) env = samples_op a env"
    by (rule ext) (simp add: samples_op_def Let_def split: option.split sum.split)
  have "ring_op (a\<lparr>ra_device_profile := b\<rparr>) env = ring_op a env"
    by (intro ext) (simp add: ring_op_def ring_path_def split: option.split sum.split prod.split)
  then show "mspti_ops (a\<lparr>ra_device_profile := b\<rparr>) env children = mspti_ops a env children"
    by (simp add: mspti_ops_def)
  show "scenario_json (a\<lparr>ra_device_profile := b\<rparr>) = scenario_json a" by (simp add: scenario_json_def)
qed

text \<open>C40: A run with the device profile never passes. The import of the sampler's \<open>summarize\<close> inside \<open>run\<close>
  makes that name local to the whole function; so when everything before it has succeeded, the call
  that should list the device kernels raises \<open>UnboundLocalError\<close>, or \<open>TypeError\<close> when the sampler was
  on, because its function takes one argument.\<close>

theorem device_profile_never_passes:
  assumes "ra_device_profile a"
  shows "fst (run_after a env children) \<noteq> None \<and>
    (fst (run_after (a\<lparr>ra_device_profile := False\<rparr>) env children) = None \<and> ae_import env = None \<longrightarrow>
     fst (run_after a env children) = Some (if ra_sample_aicpu a then TypeError else UnboundLocalError))"
proof -
  let ?ops = "[analyze_op env] @ (if ra_sample_aicpu a then [samples_op a env] else []) @ checked_ops a env children"
  obtain res s where run: "run_ops ?ops after_init = (res, s)" by force
  have plain: "after_ops (a\<lparr>ra_device_profile := False\<rparr>) env children = ?ops"
    by (simp add: after_ops_split checked_ops_def profile_flag)
  have full: "run_ops (after_ops a env children) after_init =
      (case res of Some e \<Rightarrow> (Some e, s) | None \<Rightarrow> run_ops (profile_ops env) s)"
    using run_ops_append [of ?ops "profile_ops env" after_init] assms
    by (cases res) (simp_all only: after_ops_split if_True run prod.case option.case)
  show ?thesis
  proof (cases res)
    case None
    with name_before_profile run have "as_summarize s = (if ra_sample_aicpu a then Some Sampler_Summarize else None)"
      by blast
    then have "fst (run_ops (profile_ops env) s) = Some (case ae_import env of Some e \<Rightarrow> e
        | None \<Rightarrow> if ra_sample_aicpu a then TypeError else UnboundLocalError)"
      by (simp add: profile_ops_def call_summarize_def split: option.split)
    with None show ?thesis by (simp add: run_after_def full)
  next
    case (Some e)
    then show ?thesis unfolding run_after_def plain full run by simp
  qed
qed

theorem device_profile_never_passes_witness:
  "\<exists>env. fst (run_after (demo_args\<lparr>ra_device_profile := False\<rparr>) env []) = None \<and>
     fst (run_after demo_args env []) = Some UnboundLocalError"
proof -
  obtain stuck fs where demo: "scenario 6 demo_world stuck" "snapshots demo_world stuck fs (map demo_path DEVICES)"
    using demo_scenario by blast
  let ?env = "\<lparr>ae_dumps = map demo_path DEVICES,
    ae_out = \<lparr>oe_mkdir = None, oe_write = (\<lambda>_. None), oe_fs = fs, oe_meta = (\<lambda>_. No_Meta)\<rparr>,
    ae_ord = (\<lambda>xs. xs), ae_depth = 16384, ae_show = (\<lambda>_. []), ae_samples = None, ae_utf8 = (\<lambda>_. []),
    ae_ring = (\<lambda>_. None), ae_write = (\<lambda>_. None), ae_import = None, ae_profile_roots = [], ae_analyse = (\<lambda>_. None),
    ae_profiles = \<lparr>pf_entries = [], pf_files = (\<lambda>_. []), pf_text = (\<lambda>_. Inr []), pf_write = None\<rparr>,
    ae_copy = (\<lambda>_. Inr False)\<rparr>"
  have "fst (run_after (demo_args\<lparr>ra_device_profile := False\<rparr>) ?env []) = None"
    by (rule scenario_passes [where w = demo_world and stuck = stuck])
      (use demo demo_depth in \<open>simp_all add: demo_args_def quiet_def plain_run_def\<close>)
  moreover have "ra_device_profile demo_args" by (simp add: demo_args_def)
  ultimately have "fst (run_after demo_args ?env []) = Some UnboundLocalError"
    using device_profile_never_passes [of demo_args ?env "[]"] by (simp add: demo_args_def)
  with \<open>fst (run_after (demo_args\<lparr>ra_device_profile := False\<rparr>) ?env []) = None\<close> show ?thesis by blast
qed

end
